(* ===== verification/IR_Prelude.thy ===== *)
theory IR_Prelude
  imports Main "HOL-Library.Word"
begin

text \<open>
  Shared ground of the development: byte strings as the C code sees them, the parts of the
  C standard library the sources call (\<^verbatim>\<open>isspace\<close>, \<^verbatim>\<open>toupper\<close>, \<^verbatim>\<open>strtol\<close>, \<^verbatim>\<open>atoi\<close>,
  \<^verbatim>\<open>sprintf\<close> of integers, \<^verbatim>\<open>fgets\<close>, \<^verbatim>\<open>fread\<close>, \<^verbatim>\<open>strcasecmp\<close>), the bounds of the machine
  integers, and the lemmas about them that every component uses.

  A byte string is a HOL \<^typ>\<open>string\<close> (a list of 8-bit characters).  A C string is read up to
  its first NUL byte (\<open>cstr\<close>); an sds string may hold NUL bytes.
\<close>

named_theorems clib_simps \<open>evaluation of the C library functions\<close>
named_theorems word_bounds \<open>bounds of the machine integers\<close>

section \<open>Bytes and C strings\<close>

abbreviation NUL :: char where "NUL \<equiv> CHR 0x00"
abbreviation LF :: char where "LF \<equiv> CHR 0x0A"
abbreviation CR :: char where "CR \<equiv> CHR 0x0D"

definition cstr :: "string \<Rightarrow> string" where
  "cstr s = takeWhile (\<lambda>c. c \<noteq> NUL) s"

definition c_strlen :: "string \<Rightarrow> nat" where
  "c_strlen s = length (cstr s)"

lemma cstr_id [simp]: "NUL \<notin> set s \<Longrightarrow> cstr s = s"
  by (auto simp: cstr_def takeWhile_eq_all_conv)

lemma NUL_not_in_cstr [simp]: "NUL \<notin> set (cstr s)"
  by (auto simp: cstr_def dest: set_takeWhileD)

lemma cstr_idem [simp]: "cstr (cstr s) = cstr s"
  by simp

lemma cstr_Nil [simp]: "cstr [] = []"
  by (simp add: cstr_def)

lemma cstr_append: "NUL \<notin> set s \<Longrightarrow> cstr (s @ t) = s @ cstr t"
  by (simp add: cstr_def takeWhile_append)

lemma cstr_terminated [simp]: "NUL \<notin> set s \<Longrightarrow> cstr (s @ NUL # t) = s"
  by (simp add: cstr_append) (simp add: cstr_def)

lemma length_cstr: "length (cstr s) \<le> length s"
  by (simp add: cstr_def length_takeWhile_le)

lemma set_cstr: "set (cstr s) \<subseteq> set s"
  by (auto simp: cstr_def dest: set_takeWhileD)

section \<open>Character classes of the C locale\<close>

definition c_isspace :: "char \<Rightarrow> bool" where
  "c_isspace c \<longleftrightarrow> c = CHR '' '' \<or> c = CHR 0x09 \<or> c = LF \<or> c = CHR 0x0B \<or> c = CHR 0x0C \<or> c = CR"

definition c_isdigit :: "char \<Rightarrow> bool" where
  "c_isdigit c \<longleftrightarrow> 48 \<le> (of_char c :: nat) \<and> (of_char c :: nat) \<le> 57"

definition c_toupper :: "char \<Rightarrow> char" where
  "c_toupper c = (if 97 \<le> (of_char c :: nat) \<and> (of_char c :: nat) \<le> 122
                  then char_of ((of_char c :: nat) - 32) else c)"

definition c_tolower :: "char \<Rightarrow> char" where
  "c_tolower c = (if 65 \<le> (of_char c :: nat) \<and> (of_char c :: nat) \<le> 90
                  then char_of ((of_char c :: nat) + 32) else c)"

text \<open>\<^verbatim>\<open>strcmp(a,b) == 0\<close> and \<^verbatim>\<open>strcasecmp(a,b) == 0\<close> on C strings.\<close>

definition c_streq :: "string \<Rightarrow> string \<Rightarrow> bool" where
  "c_streq a b \<longleftrightarrow> cstr a = cstr b"

definition c_strcaseeq :: "string \<Rightarrow> string \<Rightarrow> bool" where
  "c_strcaseeq a b \<longleftrightarrow> map c_tolower (cstr a) = map c_tolower (cstr b)"

lemma c_strcaseeq_refl [simp]: "c_strcaseeq s s"
  by (simp add: c_strcaseeq_def)

section \<open>Decimal numerals\<close>

definition digit_char :: "nat \<Rightarrow> char" where
  "digit_char d = char_of (48 + d)"

definition digit_val :: "char \<Rightarrow> nat" where
  "digit_val c = of_char c - 48"

fun show_nat :: "nat \<Rightarrow> string" where
  "show_nat n = (if n < 10 then [digit_char n] else show_nat (n div 10) @ [digit_char (n mod 10)])"

declare show_nat.simps [simp del]

text \<open>What \<^verbatim>\<open>printf\<close> writes for \<^verbatim>\<open>%d\<close>, \<^verbatim>\<open>%ld\<close>, \<^verbatim>\<open>%lld\<close> and, on non-negative
  numbers, for the unsigned conversions.\<close>

definition show_int :: "int \<Rightarrow> string" where
  "show_int i = (if i < 0 then CHR ''-'' # show_nat (nat (- i)) else show_nat (nat i))"

lemma of_char_digit_char [simp]: "d < 10 \<Longrightarrow> (of_char (digit_char d) :: nat) = 48 + d"
  by (simp add: digit_char_def)

lemma digit_val_char [simp]: "d < 10 \<Longrightarrow> digit_val (digit_char d) = d"
  by (simp add: digit_val_def)

lemma isdigit_digit_char [simp]: "d < 10 \<Longrightarrow> c_isdigit (digit_char d)"
  by (simp add: c_isdigit_def)

lemma digit_char_val: "c_isdigit c \<Longrightarrow> digit_char (digit_val c) = c"
  by (simp add: c_isdigit_def digit_char_def digit_val_def)

lemma digit_val_less: "c_isdigit c \<Longrightarrow> digit_val c < 10"
  by (auto simp: c_isdigit_def digit_val_def)

lemma digit_char_inject: "a < 10 \<Longrightarrow> b < 10 \<Longrightarrow> digit_char a = digit_char b \<longleftrightarrow> a = b"
  using digit_val_char by metis

lemma digit_char_numerals:
  "digit_char 0 = CHR ''0''" "digit_char 1 = CHR ''1''" "digit_char 2 = CHR ''2''"
  "digit_char 3 = CHR ''3''" "digit_char 4 = CHR ''4''" "digit_char 5 = CHR ''5''"
  "digit_char 6 = CHR ''6''" "digit_char 7 = CHR ''7''" "digit_char 8 = CHR ''8''"
  "digit_char 9 = CHR ''9''"
  by (simp_all add: digit_char_def char_of_def bit_0)

lemmas digit_char_zero = digit_char_numerals(1)

lemma show_nat_digit [simp]: "n < 10 \<Longrightarrow> show_nat n = [digit_char n]"
  by (subst show_nat.simps) simp

lemma show_nat_step: "10 \<le> n \<Longrightarrow> show_nat n = show_nat (n div 10) @ [digit_char (n mod 10)]"
  by (subst show_nat.simps) simp

lemma show_nat_nonempty [simp]: "show_nat n \<noteq> []" "[] \<noteq> show_nat n"
  by (subst show_nat.simps, simp)+

lemma show_nat_digits: "c \<in> set (show_nat n) \<Longrightarrow> c_isdigit c"
proof (induction n rule: show_nat.induct)
  case (1 n)
  show ?case
  proof (cases "n < 10")
    case True
    with "1.prems" show ?thesis by simp
  next
    case False
    with "1.prems" have "c \<in> set (show_nat (n div 10)) \<or> c = digit_char (n mod 10)"
      by (auto simp: show_nat_step)
    with "1.IH" [OF False] show ?thesis by auto
  qed
qed

text \<open>The value of a digit string, most significant digit first.\<close>

definition digits_val :: "nat \<Rightarrow> string \<Rightarrow> nat" where
  "digits_val = foldl (\<lambda>v c. v * 10 + digit_val c)"

lemma digits_val_Nil [simp]: "digits_val v [] = v"
  and digits_val_Cons [simp]: "digits_val v (c # cs) = digits_val (v * 10 + digit_val c) cs"
  and digits_val_append: "digits_val v (xs @ ys) = digits_val (digits_val v xs) ys"
  by (simp_all add: digits_val_def)

lemma digits_val_show_nat [simp]: "digits_val 0 (show_nat n) = n"
proof (induction n rule: show_nat.induct)
  case (1 n)
  show ?case
  proof (cases "n < 10")
    case True
    then show ?thesis by simp
  next
    case False
    then show ?thesis using "1.IH" by (simp add: show_nat_step digits_val_append)
  qed
qed

lemma show_nat_inject [simp]: "show_nat a = show_nat b \<longleftrightarrow> a = b"
  using digits_val_show_nat by metis

lemma takeWhile_digits_show_nat [simp]:
  "(\<forall>c rest'. rest = c # rest' \<longrightarrow> \<not> c_isdigit c) \<Longrightarrow>
   takeWhile c_isdigit (show_nat n @ rest) = show_nat n"
  using show_nat_digits by (cases rest) (auto simp: takeWhile_append)

lemma takeWhile_digits_show_nat_only [simp]: "takeWhile c_isdigit (show_nat n) = show_nat n"
  using show_nat_digits by (simp add: takeWhile_eq_all_conv)

lemma not_digit_simps [simp]:
  "\<not> c_isdigit (CHR ''-'')" "\<not> c_isdigit LF" "\<not> c_isdigit CR" "\<not> c_isdigit NUL"
  "\<not> c_isdigit (CHR '' '')" "\<not> c_isdigit (CHR ''+'')" "\<not> c_isdigit (CHR ''$'')" "\<not> c_isdigit (CHR ''*'')"
  by (simp_all add: c_isdigit_def)

lemma digit_not_space: "c_isdigit c \<Longrightarrow> \<not> c_isspace c"
  by (auto simp: c_isdigit_def c_isspace_def)

lemma show_nat_no_ctrl [simp]:
  "NUL \<notin> set (show_nat n)" "LF \<notin> set (show_nat n)" "CR \<notin> set (show_nat n)"
  using show_nat_digits [of _ n] not_digit_simps by blast+

lemma show_int_no_ctrl [simp]:
  "NUL \<notin> set (show_int i)" "LF \<notin> set (show_int i)" "CR \<notin> set (show_int i)"
  by (simp_all add: show_int_def)

lemma show_nat_hd_digit: "c_isdigit (hd (show_nat n))"
  using show_nat_digits [of "hd (show_nat n)" n] by simp

lemma show_int_nonempty [simp]: "show_int i \<noteq> []" "[] \<noteq> show_int i"
  by (simp_all add: show_int_def)

lemma show_int_inject [simp]: "show_int a = show_int b \<longleftrightarrow> a = b"
proof
  assume eq: "show_int a = show_int b"
  have minus: "CHR ''-'' # xs \<noteq> show_nat n" for xs n
    using show_nat_digits [of "CHR ''-''" n] by (metis list.set_intros(1) not_digit_simps(1))
  show "a = b"
    using eq minus minus [symmetric]
    by (auto simp: show_int_def split: if_splits)
qed simp

section \<open>Machine integers\<close>

abbreviation INT_MIN :: int where "INT_MIN \<equiv> - 2147483648"
abbreviation INT_MAX :: int where "INT_MAX \<equiv> 2147483647"
abbreviation LLONG_MIN :: int where "LLONG_MIN \<equiv> - 9223372036854775808"
abbreviation LLONG_MAX :: int where "LLONG_MAX \<equiv> 9223372036854775807"
abbreviation ULLONG_MAX :: nat where "ULLONG_MAX \<equiv> 18446744073709551615"

definition in_int32 :: "int \<Rightarrow> bool" where
  "in_int32 i \<longleftrightarrow> INT_MIN \<le> i \<and> i \<le> INT_MAX"

definition in_int64 :: "int \<Rightarrow> bool" where
  "in_int64 i \<longleftrightarrow> LLONG_MIN \<le> i \<and> i \<le> LLONG_MAX"

text \<open>Conversion of a wider integer to \<^verbatim>\<open>int\<close>, \<^verbatim>\<open>long long\<close> and \<^verbatim>\<open>unsigned long long\<close>
  (two's complement, as the compilers the project builds with define it).\<close>

definition to_int32 :: "int \<Rightarrow> int" where
  "to_int32 i = (i + 2147483648) mod 4294967296 - 2147483648"

definition to_int64 :: "int \<Rightarrow> int" where
  "to_int64 i = (i + 9223372036854775808) mod 18446744073709551616 - 9223372036854775808"

definition to_uint64 :: "int \<Rightarrow> nat" where
  "to_uint64 i = nat (i mod 18446744073709551616)"

lemma to_int32_id [word_bounds, simp]: "in_int32 i \<Longrightarrow> to_int32 i = i"
  by (simp add: in_int32_def to_int32_def)

lemma to_int32_range [word_bounds, simp]: "in_int32 (to_int32 i)"
  by (simp add: in_int32_def to_int32_def)

lemma to_int64_id [word_bounds, simp]: "in_int64 i \<Longrightarrow> to_int64 i = i"
  by (simp add: in_int64_def to_int64_def)

lemma to_int64_range [word_bounds, simp]: "in_int64 (to_int64 i)"
  by (simp add: in_int64_def to_int64_def)

lemma in_int32_int64: "in_int32 i \<Longrightarrow> in_int64 i"
  by (simp add: in_int32_def in_int64_def)

lemma to_uint64_id [word_bounds]: "n \<le> ULLONG_MAX \<Longrightarrow> to_uint64 (int n) = n"
  by (simp add: to_uint64_def)

lemma to_uint64_range [word_bounds]: "to_uint64 i \<le> ULLONG_MAX"
proof -
  have "i mod 18446744073709551616 < 18446744073709551616"
    by simp
  then show ?thesis
    by (simp add: to_uint64_def nat_le_iff)
qed

section \<open>\<open>strtol\<close> and \<open>atoi\<close>\<close>

text \<open>
  \<^verbatim>\<open>strtol(s,NULL,10)\<close>: skip white space, an optional sign, then the longest run of digits;
  no digits give 0; a value outside \<^verbatim>\<open>long\<close> (64 bits) saturates.  \<^verbatim>\<open>atoi\<close> converts that
  value to \<^verbatim>\<open>int\<close>.
\<close>

definition clamp64 :: "int \<Rightarrow> int" where
  "clamp64 i = (if i < LLONG_MIN then LLONG_MIN else if LLONG_MAX < i then LLONG_MAX else i)"

fun strtol_sign :: "string \<Rightarrow> int \<times> string" where
  "strtol_sign [] = (1, [])"
| "strtol_sign (c # cs) = (if c = CHR ''-'' then (-1, cs) else if c = CHR ''+'' then (1, cs) else (1, c # cs))"

definition c_strtol :: "string \<Rightarrow> int" where
  "c_strtol s = (let (sg, t) = strtol_sign (dropWhile c_isspace (cstr s))
                 in clamp64 (sg * int (digits_val 0 (takeWhile c_isdigit t))))"

definition c_atoi :: "string \<Rightarrow> int" where
  "c_atoi s = to_int32 (c_strtol s)"

lemma clamp64_id [simp]: "in_int64 i \<Longrightarrow> clamp64 i = i"
  by (simp add: clamp64_def in_int64_def)

lemma cstr_show_nat_append [simp]: "cstr (show_nat n @ t) = show_nat n @ cstr t"
  by (simp add: cstr_append)

lemma dropWhile_space_show_nat [simp]: "dropWhile c_isspace (show_nat n @ t) = show_nat n @ t"
  using show_nat_hd_digit [of n] digit_not_space
  by (cases "show_nat n") auto

lemma strtol_sign_show_nat [simp]: "strtol_sign (show_nat n @ t) = (1, show_nat n @ t)"
  using show_nat_hd_digit [of n]
  by (cases "show_nat n") auto

lemma hd_cstr_not_digit:
  "(\<forall>c t'. t = c # t' \<longrightarrow> \<not> c_isdigit c) \<Longrightarrow> (\<forall>c t'. cstr t = c # t' \<longrightarrow> \<not> c_isdigit c)"
  by (cases t) (auto simp: cstr_def)

text \<open>A number that was printed is read back, whatever non-digit follows it.\<close>

lemma c_strtol_show_nat_append [simp]:
  assumes "n \<le> 9223372036854775807" and "\<forall>c t'. t = c # t' \<longrightarrow> \<not> c_isdigit c"
  shows "c_strtol (show_nat n @ t) = int n"
  using assms hd_cstr_not_digit [OF assms(2)]
  by (simp add: c_strtol_def in_int64_def)

lemma c_strtol_show_nat [simp]: "n \<le> 9223372036854775807 \<Longrightarrow> c_strtol (show_nat n) = int n"
  using c_strtol_show_nat_append [of n "[]"] by simp

lemma c_strtol_show_int [simp]:
  assumes "in_int64 i"
  shows "c_strtol (show_int i) = i"
proof (cases "i < 0")
  case True
  with assms show ?thesis
    by (simp add: show_int_def c_strtol_def c_isspace_def)
next
  case False
  then show ?thesis
    using assms by (simp add: show_int_def in_int64_def)
qed

lemma c_atoi_show_int [simp]: "in_int32 i \<Longrightarrow> c_atoi (show_int i) = i"
  by (simp add: c_atoi_def in_int32_int64)

lemma c_atoi_show_nat_append [simp]:
  assumes "n \<le> 2147483647" and "\<forall>c t'. t = c # t' \<longrightarrow> \<not> c_isdigit c"
  shows "c_atoi (show_nat n @ t) = int n"
  using assms by (simp add: c_atoi_def in_int32_def)

section \<open>Buffered input\<close>

text \<open>
  A file that is read from some position on is the list of the bytes from that position.
  \<^verbatim>\<open>fgets(buf,n,fp)\<close> reads at most \<open>n - 1\<close> bytes and stops after a newline; at end of file it
  returns NULL.  \<^verbatim>\<open>fread(p,len,1,fp)\<close> reads one item of \<open>len\<close> bytes and returns 0 when fewer are
  left.  In this model of a file both fail at end of file only.
\<close>

definition first_line :: "string \<Rightarrow> string" where
  "first_line inp = (if LF \<in> set inp then takeWhile (\<lambda>c. c \<noteq> LF) inp @ [LF] else inp)"

definition c_fgets :: "nat \<Rightarrow> string \<Rightarrow> (string \<times> string) option" where
  "c_fgets n inp = (if inp = [] then None
                    else let m = length (take (n - 1) (first_line inp))
                         in Some (take m inp, drop m inp))"

definition c_fread :: "nat \<Rightarrow> string \<Rightarrow> (string \<times> string) option" where
  "c_fread len inp = (if length inp < len then None else Some (take len inp, drop len inp))"

lemma first_line_prefix: "take (length (first_line inp)) inp = first_line inp"
proof (cases "LF \<in> set inp")
  case True
  then obtain ys zs where "inp = ys @ LF # zs" "LF \<notin> set ys"
    using split_list_first by metis
  moreover from this have "takeWhile (\<lambda>c. c \<noteq> LF) inp = ys"
    by (auto intro: takeWhile_tail simp: takeWhile_append takeWhile_eq_all_conv)
  ultimately show ?thesis
    by (simp add: first_line_def)
next
  case False
  then show ?thesis by (simp add: first_line_def)
qed

lemma first_line_append [simp]:
  "LF \<notin> set l \<Longrightarrow> first_line (l @ LF # rest) = l @ [LF]"
  by (auto simp: first_line_def takeWhile_append takeWhile_eq_all_conv)

lemma c_fgets_line:
  assumes "LF \<notin> set l" and "length l + 1 < n"
  shows "c_fgets n (l @ LF # rest) = Some (l @ [LF], rest)"
  using assms by (simp add: c_fgets_def)

lemma c_fgets_shorter: "c_fgets n inp = Some (l, rest) \<Longrightarrow> 1 < n \<Longrightarrow> length rest < length inp"
  by (auto simp: c_fgets_def first_line_def Let_def split: if_splits)

lemma c_fgets_split: "c_fgets n inp = Some (l, rest) \<Longrightarrow> inp = l @ rest"
  by (auto simp: c_fgets_def Let_def split: if_splits)

lemma c_fread_exact [simp]: "length a = len \<Longrightarrow> c_fread len (a @ rest) = Some (a, rest)"
  by (simp add: c_fread_def)

lemma c_fread_shorter: "c_fread len inp = Some (a, rest) \<Longrightarrow> length rest + len = length inp"
  by (auto simp: c_fread_def split: if_splits)

lemma c_fread_split: "c_fread len inp = Some (a, rest) \<Longrightarrow> inp = a @ rest"
  by (auto simp: c_fread_def split: if_splits)

end
