(* ===== verification/Util_Numbers.thy ===== *)
theory Util_Numbers
  imports IR_Prelude
begin

text \<open>
  Number and string conversions of \<^verbatim>\<open>src/src/util.c\<close>: \<open>digits10\<close>, \<open>sdigits10\<close>,
  \<open>ll2string\<close> (with its explicit output buffer and its two-digit table), \<open>string2ll\<close> (with its
  overflow checks on unsigned 64-bit values) and \<open>string2l\<close>.  The theorems show that they agree
  exactly with decimal numerals: \<open>digits10\<close> counts the digits, \<open>ll2string\<close> writes the numeral and
  nothing else, and \<open>string2ll\<close> accepts exactly the numerals of the 64-bit integers.
\<close>

section \<open>Definitions\<close>

subsection \<open>Digit counts\<close>

fun digits10 :: "nat \<Rightarrow> nat" where
  "digits10 v =
     (if v < 10 then 1
      else if v < 100 then 2
      else if v < 1000 then 3
      else if v < 1000000000000 then
        (if v < 100000000 then
           (if v < 1000000 then
              (if v < 10000 then 4 else 5 + (if 100000 \<le> v then 1 else 0))
            else 7 + (if 10000000 \<le> v then 1 else 0))
         else if v < 10000000000 then 9 + (if 1000000000 \<le> v then 1 else 0)
         else 11 + (if 100000000000 \<le> v then 1 else 0))
      else 12 + digits10 (v div 1000000000000))"

declare digits10.simps [simp del]

definition sdigits10 :: "int \<Rightarrow> nat" where
  "sdigits10 v = (if v < 0
                  then digits10 (if v \<noteq> LLONG_MIN then nat (- v) else nat LLONG_MAX + 1) + 1
                  else digits10 (nat v))"

subsection \<open>Printing into a buffer\<close>

definition ll2string_digits :: string where
  "ll2string_digits =
     ''0001020304050607080910111213141516171819'' @
     ''2021222324252627282930313233343536373839'' @
     ''4041424344454647484950515253545556575859'' @
     ''6061626364656667686970717273747576777879'' @
     ''8081828384858687888990919293949596979899''"

text \<open>The loop that fills the buffer from the right, two digits a round, and the last one or two
  digits after it.\<close>

fun ll2string_fill :: "nat \<Rightarrow> nat \<Rightarrow> string \<Rightarrow> string" where
  "ll2string_fill value next dst =
     (if 100 \<le> value
      then let i = (value mod 100) * 2
           in ll2string_fill (value div 100) (next - 2)
                (dst[next := ll2string_digits ! (i + 1), next - 1 := ll2string_digits ! i])
      else if value < 10 then dst[next := digit_char value]
      else let i = value * 2
           in dst[next := ll2string_digits ! (i + 1), next - 1 := ll2string_digits ! i])"

declare ll2string_fill.simps [simp del]

text \<open>\<open>ll2string dst svalue\<close>: the return value and the buffer after the call; the size argument
  is the length of the buffer.\<close>

definition ll2string :: "string \<Rightarrow> int \<Rightarrow> nat \<times> string" where
  "ll2string dst svalue =
     (let (value, negative) =
            (if svalue < 0
             then (if svalue \<noteq> LLONG_MIN then nat (- svalue) else nat LLONG_MAX + 1, 1)
             else (nat svalue, 0 :: nat));
          len = digits10 value + negative
      in if length dst \<le> len then (0, dst)
         else let dst1 = dst[len := NUL];
                  dst2 = ll2string_fill value (len - 1) dst1
              in (len, if negative = 1 then dst2[0 := CHR ''-''] else dst2))"

subsection \<open>Strict parsing\<close>

fun string2ll_digits :: "nat \<Rightarrow> string \<Rightarrow> (nat \<times> string) option" where
  "string2ll_digits v [] = Some (v, [])"
| "string2ll_digits v (c # cs) =
     (if c_isdigit c
      then if ULLONG_MAX div 10 < v then None
           else if ULLONG_MAX - digit_val c < v * 10 then None
           else string2ll_digits (v * 10 + digit_val c) cs
      else Some (v, c # cs))"

definition string2ll_unsigned :: "string \<Rightarrow> nat option" where
  "string2ll_unsigned p =
     (case p of
        [] \<Rightarrow> None
      | c # cs \<Rightarrow>
          if c_isdigit c \<and> c \<noteq> CHR ''0''
          then (case string2ll_digits (digit_val c) cs of
                  None \<Rightarrow> None
                | Some (v, rest) \<Rightarrow> if rest = [] then Some v else None)
          else None)"

definition string2ll :: "string \<Rightarrow> int option" where
  "string2ll s =
     (if s = [] then None
      else if s = ''0'' then Some 0
      else if hd s = CHR ''-''
      then (case string2ll_unsigned (tl s) of
              None \<Rightarrow> None
            | Some v \<Rightarrow> if nat (- (LLONG_MIN + 1)) + 1 < v then None else Some (- int v))
      else (case string2ll_unsigned s of
              None \<Rightarrow> None
            | Some v \<Rightarrow> if nat LLONG_MAX < v then None else Some (int v)))"

text \<open>\<^verbatim>\<open>long\<close> has 64 bits on the platforms the project supports.\<close>

definition string2l :: "string \<Rightarrow> int option" where
  "string2l s = (case string2ll s of
                   None \<Rightarrow> None
                 | Some v \<Rightarrow> if v < LLONG_MIN \<or> LLONG_MAX < v then None else Some v)"

section \<open>Digit counts are lengths of numerals\<close>

lemma length_show_nat_range:
  assumes "10 ^ k \<le> n" and "n < 10 ^ Suc k"
  shows "length (show_nat n) = Suc k"
  using assms
proof (induction k arbitrary: n)
  case 0
  then show ?case by simp
next
  case (Suc k)
  then have "10 \<le> n"
    by (metis le_trans one_le_numeral one_le_power mult.right_neutral mult_le_mono2 power_Suc)
  moreover have "length (show_nat (n div 10)) = Suc k"
    using Suc.prems by (intro Suc.IH) (auto simp: less_eq_div_iff_mult_less_eq div_less_iff_less_mult mult.commute)
  ultimately show ?case by (simp add: show_nat_step)
qed

lemma length_show_nat_shift:
  assumes "10 ^ k \<le> n"
  shows "length (show_nat n) = k + length (show_nat (n div 10 ^ k))"
  using assms
proof (induction k arbitrary: n)
  case 0
  then show ?case by simp
next
  case (Suc k)
  have "10 \<le> n"
    using Suc.prems by (metis le_trans one_le_numeral one_le_power mult.right_neutral mult_le_mono2 power_Suc)
  moreover have "10 ^ k \<le> n div 10"
    using Suc.prems by (simp add: less_eq_div_iff_mult_less_eq mult.commute)
  ultimately show ?case
    using Suc.IH [of "n div 10"] by (simp add: show_nat_step div_mult2_eq)
qed

lemma digits10_length: "digits10 v = length (show_nat v)"
proof (induction v rule: digits10.induct)
  case (1 v)
  note step = length_show_nat_range [of _ v]
  show ?case
  proof (cases "v < 1000000000000")
    case True
    consider "v < 10" | "10 \<le> v" "v < 100" | "100 \<le> v" "v < 1000" | "1000 \<le> v" "v < 10000"
      | "10000 \<le> v" "v < 100000" | "100000 \<le> v" "v < 1000000" | "1000000 \<le> v" "v < 10000000"
      | "10000000 \<le> v" "v < 100000000" | "100000000 \<le> v" "v < 1000000000"
      | "1000000000 \<le> v" "v < 10000000000" | "10000000000 \<le> v" "v < 100000000000"
      | "100000000000 \<le> v"
      by (meson not_le)
    then show ?thesis
    proof cases
      case 1 then show ?thesis by (simp add: digits10.simps [of v])
    next
      case 2 with step [of 1] show ?thesis by (simp add: digits10.simps [of v])
    next
      case 3 with step [of 2] show ?thesis by (simp add: digits10.simps [of v])
    next
      case 4 with step [of 3] show ?thesis by (simp add: digits10.simps [of v])
    next
      case 5 with step [of 4] show ?thesis by (simp add: digits10.simps [of v])
    next
      case 6 with step [of 5] show ?thesis by (simp add: digits10.simps [of v])
    next
      case 7 with step [of 6] show ?thesis by (simp add: digits10.simps [of v])
    next
      case 8 with step [of 7] show ?thesis by (simp add: digits10.simps [of v])
    next
      case 9 with step [of 8] show ?thesis by (simp add: digits10.simps [of v])
    next
      case 10 with step [of 9] show ?thesis by (simp add: digits10.simps [of v])
    next
      case 11 with step [of 10] show ?thesis by (simp add: digits10.simps [of v])
    next
      case 12 with True step [of 11] show ?thesis by (simp add: digits10.simps [of v])
    qed
  next
    case False
    then have "length (show_nat v) = 12 + length (show_nat (v div 1000000000000))"
      using length_show_nat_shift [of 12 v] by simp
    with False "1.IH" show ?thesis
      by (simp add: digits10.simps [of v])
  qed
qed

section \<open>Printing\<close>

lemma ll2string_digits_table:
  "ll2string_digits = concat (map (\<lambda>i. [digit_char (i div 10), digit_char (i mod 10)]) [0..<100])"
  by (simp add: ll2string_digits_def upt_rec [of 0] upt_rec [of "Suc 0"] numeral_2_eq_2 [symmetric]
      digit_char_numerals digit_char_numerals(2) [unfolded One_nat_def])

lemma nth_concat_pairs:
  assumes "i < length xs"
  shows "concat (map (\<lambda>x. [f x, g x]) xs) ! (i * 2) = f (xs ! i)"
    and "concat (map (\<lambda>x. [f x, g x]) xs) ! Suc (i * 2) = g (xs ! i)"
proof -
  have "concat (map (\<lambda>x. [f x, g x]) xs) ! (i * 2) = f (xs ! i) \<and>
        concat (map (\<lambda>x. [f x, g x]) xs) ! Suc (i * 2) = g (xs ! i)"
    using assms
  proof (induction xs arbitrary: i)
    case (Cons x xs)
    then show ?case by (cases i) auto
  qed simp
  then show "concat (map (\<lambda>x. [f x, g x]) xs) ! (i * 2) = f (xs ! i)"
    and "concat (map (\<lambda>x. [f x, g x]) xs) ! Suc (i * 2) = g (xs ! i)"
    by auto
qed

lemma ll2string_digits_nth [simp]:
  assumes "i < 100"
  shows "ll2string_digits ! (i * 2) = digit_char (i div 10)"
    and "ll2string_digits ! Suc (i * 2) = digit_char (i mod 10)"
  unfolding ll2string_digits_table using assms by (simp_all add: nth_concat_pairs del: upt_rec_numeral)

lemma show_nat_two_digits: "10 \<le> n \<Longrightarrow> n < 100 \<Longrightarrow> show_nat n = [digit_char (n div 10), digit_char (n mod 10)]"
  by (simp add: show_nat_step)

lemma show_nat_step2:
  assumes "100 \<le> n"
  shows "show_nat n = show_nat (n div 100) @ [digit_char (n mod 100 div 10), digit_char (n mod 10)]"
proof -
  have "n div 10 mod 10 = n mod 100 div 10"
    using mod_mult2_eq [of n 10 10] by simp
  moreover have "n div 10 div 10 = n div 100"
    by (simp add: div_mult2_eq [symmetric])
  ultimately show ?thesis
    using assms by (simp add: show_nat_step [of n] show_nat_step [of "n div 10"])
qed

lemma list_update_two:
  assumes "Suc j < length xs"
  shows "xs[Suc j := b, j := a] = take j xs @ [a, b] @ drop (j + 2) xs"
  using assms
proof (induction j arbitrary: xs)
  case 0
  then obtain x y zs where "xs = x # y # zs"
    by (metis Suc_le_length_iff Suc_leI)
  then show ?case by simp
next
  case (Suc j)
  then obtain x ys where "xs = x # ys"
    by (cases xs) auto
  with Suc show ?case by simp
qed

lemma ll2string_fill_eq:
  assumes "next < length dst" and "length (show_nat v) \<le> Suc next"
  shows "ll2string_fill v next dst =
           take (Suc next - length (show_nat v)) dst @ show_nat v @ drop (Suc next) dst"
  using assms
proof (induction v "next" dst rule: ll2string_fill.induct)
  case (1 v nx dst)
  let ?i = "(v mod 100) * 2"
  let ?dst' = "dst[nx := ll2string_digits ! (?i + 1), nx - 1 := ll2string_digits ! ?i]"
  consider "100 \<le> v" | "10 \<le> v" "v < 100" | "v < 10"
    by linarith
  then show ?case
  proof cases
    case 1
    have len: "length (show_nat v) = length (show_nat (v div 100)) + 2"
      using \<open>100 \<le> v\<close> by (simp add: show_nat_step2)
    obtain j where j: "nx = Suc (Suc j)"
      using "1.prems"(2) len show_nat_nonempty(1) [of "v div 100"]
      by (cases nx; cases "nx - 1") (auto simp: Suc_le_eq)
    have mod10: "v mod 100 mod 10 = v mod 10"
      by (simp add: mod_mod_cancel)
    define d where "d = ?dst'"
    have upd: "d = take (Suc j) dst @ [digit_char (v mod 100 div 10), digit_char (v mod 10)] @ drop (Suc nx) dst"
      using list_update_two [of "Suc j" dst] "1.prems"(1) j by (simp add: d_def mod10)
    have step: "ll2string_fill v nx dst = ll2string_fill (v div 100) j d"
      using \<open>100 \<le> v\<close> j by (simp add: d_def ll2string_fill.simps [of v "Suc (Suc j)" dst])
    have "ll2string_fill (v div 100) j d =
            take (Suc j - length (show_nat (v div 100))) d @ show_nat (v div 100) @ drop (Suc j) d"
      using "1.IH" [OF \<open>100 \<le> v\<close> refl, folded d_def] "1.prems" len j by (simp add: d_def)
    moreover have "take (Suc j - n) d = take (Suc j - n) dst" for n
      using "1.prems"(1) j by (simp add: upd)
    moreover have "drop (Suc j) d = [digit_char (v mod 100 div 10), digit_char (v mod 10)] @ drop (Suc nx) dst"
      using "1.prems"(1) j by (simp add: upd)
    moreover have "show_nat v = show_nat (v div 100) @ [digit_char (v mod 100 div 10), digit_char (v mod 10)]"
      using \<open>100 \<le> v\<close> by (simp add: show_nat_step2 mod10)
    ultimately show ?thesis
      unfolding step by (simp add: len j)
  next
    case 2
    obtain j where j: "nx = Suc j"
      using "1.prems"(2) 2 by (cases nx) (auto simp: show_nat_two_digits)
    show ?thesis
      using 2 "1.prems" j list_update_two [of j dst]
      by (simp add: ll2string_fill.simps [of v "Suc j" dst] show_nat_two_digits Let_def)
  next
    case 3
    then show ?thesis
      using "1.prems" by (simp add: ll2string_fill.simps [of v nx dst] upd_conv_take_nth_drop)
  qed
qed

lemma ll2string_eq:
  assumes "in_int64 v" and "length (show_int v) < length dst"
  shows "ll2string dst v =
           (length (show_int v), show_int v @ [NUL] @ drop (Suc (length (show_int v))) dst)"
proof (cases "v < 0")
  case True
  let ?n = "show_nat (nat (- v))"
  have val: "(if v \<noteq> LLONG_MIN then nat (- v) else nat LLONG_MAX + 1) = nat (- v)"
    by simp
  have len: "length ?n + 1 < length dst"
    using assms(2) True by (simp add: show_int_def)
  obtain x dst' where dst: "dst[length ?n + 1 := NUL] = x # dst'"
    using len by (cases "dst[length ?n + 1 := NUL]") (auto dest: arg_cong [where f = length])
  have len': "length ?n < length dst'"
    using len arg_cong [OF dst, of length] by simp
  have tail: "drop (length ?n) dst' = NUL # drop (length ?n + 2) dst"
    using len arg_cong [OF dst, of "drop (Suc (length ?n))"]
    by (simp add: drop_update_swap Cons_nth_drop_Suc [symmetric])
  have "ll2string_fill (nat (- v)) (length ?n) (x # dst') = x # ?n @ drop (length ?n) dst'"
    using ll2string_fill_eq [of "length ?n" "x # dst'" "nat (- v)"] len' by simp
  with True len val dst tail show ?thesis
    by (simp add: ll2string_def show_int_def digits10_length)
next
  case False
  let ?n = "show_nat (nat v)"
  obtain k where k: "length ?n = Suc k"
    by (cases "length ?n") auto
  have len: "Suc k < length dst"
    using assms(2) False k by (simp add: show_int_def)
  have "ll2string_fill (nat v) k (dst[Suc k := NUL]) = ?n @ drop (Suc k) (dst[Suc k := NUL])"
    using ll2string_fill_eq [of k "dst[Suc k := NUL]" "nat v"] k len by simp
  moreover have "drop (Suc k) (dst[Suc k := NUL]) = NUL # drop (Suc (Suc k)) dst"
    using len by (simp add: drop_update_swap Cons_nth_drop_Suc [symmetric])
  ultimately show ?thesis
    using False k len by (simp add: ll2string_def show_int_def digits10_length)
qed

lemma ll2string_too_small:
  assumes "in_int64 v" and "length dst \<le> length (show_int v)"
  shows "ll2string dst v = (0, dst)"
  using assms by (cases "v < 0") (auto simp: ll2string_def show_int_def digits10_length)

section \<open>Parsing\<close>

lemma digits_val_ge: "v \<le> digits_val v cs"
proof (induction cs arbitrary: v)
  case (Cons c cs)
  have "v \<le> v * 10 + digit_val c" by simp
  also have "\<dots> \<le> digits_val (v * 10 + digit_val c) cs" by (rule Cons.IH)
  finally show ?case by simp
qed simp

lemma string2ll_digits_complete:
  assumes "\<forall>c \<in> set cs. c_isdigit c" and "digits_val v cs \<le> ULLONG_MAX"
  shows "string2ll_digits v cs = Some (digits_val v cs, [])"
  using assms
proof (induction cs arbitrary: v)
  case (Cons c cs)
  have "v * 10 + digit_val c \<le> ULLONG_MAX"
    using digits_val_ge [of "v * 10 + digit_val c" cs] Cons.prems(2) by simp
  with Cons show ?case by auto
qed simp

lemma string2ll_digits_sound:
  assumes "string2ll_digits v cs = Some (v', [])"
  shows "(\<forall>c \<in> set cs. c_isdigit c) \<and> v' = digits_val v cs"
  using assms
  by (induction v cs rule: string2ll_digits.induct) (auto split: if_splits)

lemma digits_val_Cons_append_digit:
  "digits_val 0 (cs @ [c]) = digits_val 0 cs * 10 + digit_val c"
  by (simp add: digits_val_append)

lemma show_nat_digits_val:
  assumes "\<forall>c \<in> set cs. c_isdigit c" and "cs \<noteq> []" and "hd cs \<noteq> CHR ''0''"
  shows "show_nat (digits_val 0 cs) = cs"
  using assms
proof (induction cs rule: rev_induct)
  case (snoc c cs)
  show ?case
  proof (cases "cs = []")
    case True
    with snoc.prems show ?thesis
      by (simp add: digit_val_less digit_char_val)
  next
    case False
    with snoc have IH: "show_nat (digits_val 0 cs) = cs" and hd: "hd cs \<noteq> CHR ''0''"
      by auto
    have pos: "digits_val 0 cs \<noteq> 0"
    proof
      assume "digits_val 0 cs = 0"
      with IH have "cs = [digit_char 0]" by simp
      with hd show False by (simp add: digit_char_zero)
    qed
    have c: "digit_val c < 10" "digit_char (digit_val c) = c"
      using snoc.prems by (simp_all add: digit_val_less digit_char_val)
    have "(digits_val 0 cs * 10 + digit_val c) div 10 = digits_val 0 cs"
      using c(1) by simp
    moreover have "10 \<le> digits_val 0 cs * 10 + digit_val c"
      using pos by simp
    ultimately show ?thesis
      using IH c by (simp add: digits_val_Cons_append_digit show_nat_step)
  qed
qed simp

lemma show_nat_hd_zero: "n \<noteq> 0 \<Longrightarrow> hd (show_nat n) \<noteq> CHR ''0''"
proof (induction n rule: show_nat.induct)
  case (1 n)
  show ?case
  proof (cases "n < 10")
    case True
    with "1.prems" digit_char_inject [of n 0] show ?thesis
      by (simp add: digit_char_zero)
  next
    case False
    with "1.IH" show ?thesis by (simp add: show_nat_step)
  qed
qed

lemma string2ll_unsigned_iff:
  assumes "v \<le> ULLONG_MAX"
  shows "string2ll_unsigned p = Some v \<longleftrightarrow> v \<noteq> 0 \<and> p = show_nat v"
proof
  assume l: "string2ll_unsigned p = Some v"
  then obtain c cs where p: "p = c # cs" and c: "c_isdigit c" "c \<noteq> CHR ''0''"
    and loop: "string2ll_digits (digit_val c) cs = Some (v, [])"
    by (auto simp: string2ll_unsigned_def split: list.splits if_splits option.splits)
  from string2ll_digits_sound [OF loop] c(1)
  have "\<forall>x \<in> set p. c_isdigit x" and "v = digits_val 0 p"
    by (simp_all add: p)
  with show_nat_digits_val [of p] p c(2) have show_p: "p = show_nat v"
    by simp
  moreover have "v \<noteq> 0"
  proof
    assume "v = 0"
    with show_p p c(2) show False by (simp add: digit_char_zero)
  qed
  ultimately show "v \<noteq> 0 \<and> p = show_nat v" by simp
next
  assume r: "v \<noteq> 0 \<and> p = show_nat v"
  then obtain c cs where p: "p = c # cs"
    using show_nat_nonempty [of v] by (metis neq_Nil_conv)
  have show_v: "show_nat v = c # cs"
    using r p by simp
  have c: "c_isdigit c" and cs: "\<forall>x \<in> set cs. c_isdigit x"
    using show_nat_digits [of _ v] by (simp_all add: show_v)
  have nz: "c \<noteq> CHR ''0''"
    using show_nat_hd_zero [of v] r by (simp add: show_v)
  have val: "digits_val (digit_val c) cs = v"
    using digits_val_show_nat [of v] by (simp add: show_v)
  show "string2ll_unsigned p = Some v"
    using string2ll_digits_complete [OF cs, of "digit_val c"] assms c nz val
    by (simp add: string2ll_unsigned_def p)
qed

lemma string2ll_iff: "string2ll s = Some v \<longleftrightarrow> in_int64 v \<and> s = show_int v"
proof -
  have minus: "CHR ''-'' # xs \<noteq> show_nat n" for n xs
    using show_nat_digits [of "CHR ''-''" n] not_digit_simps(1) by (metis list.set_intros(1))
  consider "s = []" | "s = ''0''" | t where "s = CHR ''-'' # t"
    | "s \<noteq> []" "s \<noteq> ''0''" "hd s \<noteq> CHR ''-''"
    by (cases s) auto
  then show ?thesis
  proof cases
    case 1
    then show ?thesis by (auto simp: string2ll_def)
  next
    case 2
    have "show_int 0 = ''0''"
      by (simp add: show_int_def digit_char_zero)
    then show ?thesis
      using 2 show_int_inject [of v 0] by (auto simp: string2ll_def in_int64_def)
  next
    case 3
    have "string2ll s = Some v \<longleftrightarrow> (\<exists>n. string2ll_unsigned t = Some n \<and> n \<le> 9223372036854775808 \<and> v = - int n)"
      using 3 by (auto simp: string2ll_def split: option.splits if_splits)
    also have "\<dots> \<longleftrightarrow> (\<exists>n. n \<noteq> 0 \<and> t = show_nat n \<and> n \<le> 9223372036854775808 \<and> v = - int n)"
      using string2ll_unsigned_iff by fastforce
    also have "\<dots> \<longleftrightarrow> in_int64 v \<and> s = show_int v"
      using 3 minus by (auto simp: in_int64_def show_int_def intro!: exI [of _ "nat (- v)"])
    finally show ?thesis .
  next
    case 4
    have "string2ll s = Some v \<longleftrightarrow> (\<exists>n. string2ll_unsigned s = Some n \<and> n \<le> 9223372036854775807 \<and> v = int n)"
      using 4 by (auto simp: string2ll_def split: option.splits if_splits)
    also have "\<dots> \<longleftrightarrow> (\<exists>n. n \<noteq> 0 \<and> s = show_nat n \<and> n \<le> 9223372036854775807 \<and> v = int n)"
      using string2ll_unsigned_iff by fastforce
    also have "\<dots> \<longleftrightarrow> in_int64 v \<and> s = show_int v"
      using 4 by (cases "v = 0")
        (auto simp: in_int64_def show_int_def digit_char_zero intro!: exI [of _ "nat v"])
    finally show ?thesis .
  qed
qed

lemma string2ll_show_int [simp]: "in_int64 v \<Longrightarrow> string2ll (show_int v) = Some v"
  using string2ll_iff [of "show_int v" v] by simp

lemma string2ll_SomeD: "string2ll s = Some v \<Longrightarrow> in_int64 v \<and> s = show_int v"
  using string2ll_iff [of s v] by simp

lemma string2l_eq: "string2l s = string2ll s"
  by (auto simp: string2l_def in_int64_def split: option.splits dest!: string2ll_SomeD)

lemma sdigits10_length: "in_int64 v \<Longrightarrow> sdigits10 v = length (show_int v)"
  by (auto simp: sdigits10_def show_int_def digits10_length)

lemma length_show_nat_le: "n < 10 ^ Suc k \<Longrightarrow> length (show_nat n) \<le> Suc k"
proof (induction k arbitrary: n)
  case (Suc k)
  then show ?case
    using Suc.IH [of "n div 10"]
    by (cases "n < 10") (auto simp: show_nat_step div_less_iff_less_mult mult.commute)
qed simp

lemma length_show_int:
  assumes "in_int64 v"
  shows "length (show_int v) \<le> 20"
proof -
  have "n \<le> 9223372036854775808 \<Longrightarrow> length (show_nat n) \<le> 19" for n :: nat
    using length_show_nat_le [of n 18] by simp
  moreover have "nat (- v) \<le> 9223372036854775808" "nat v \<le> 9223372036854775808"
    using assms by (auto simp: in_int64_def)
  ultimately have "length (show_nat (nat (- v))) \<le> 19" "length (show_nat (nat v)) \<le> 19"
    by blast+
  then show ?thesis
    by (auto simp: show_int_def)
qed

section \<open>Properties\<close>

text \<open>(C30) \<open>string2ll\<close> accepts exactly the canonical decimal numerals of the signed 64-bit
  integers and returns their value: no leading zeros, signs, blanks or trailing bytes are
  accepted, and no number outside of the range is.\<close>

theorem string2ll_exact: "string2ll s = Some v \<longleftrightarrow> in_int64 v \<and> s = show_int v"
  by (rule string2ll_iff)

text \<open>(C31) A buffer of 21 bytes is always large enough for \<open>ll2string\<close>: the digits, the sign and
  the terminating NUL are written, the rest of the buffer is left alone, and \<open>string2ll\<close> reads
  the number back from the bytes written.\<close>

theorem ll2string_roundtrip:
  assumes "in_int64 v" and "21 \<le> length dst"
  shows "case ll2string dst v of (n, buf) \<Rightarrow>
           string2ll (take n buf) = Some v \<and> buf ! n = NUL \<and> drop (Suc n) buf = drop (Suc n) dst"
proof -
  have "length (show_int v) < length dst"
    using assms length_show_int [of v] by simp
  then show ?thesis
    using assms by (simp add: ll2string_eq nth_append)
qed

theorem ll2string_roundtrip_witness:
  "case ll2string (replicate 21 (CHR ''x'')) (- 9223372036854775808) of (n, buf) \<Rightarrow>
     string2ll (take n buf) = Some (- 9223372036854775808) \<and> buf ! n = NUL \<and>
     drop (Suc n) buf = drop (Suc n) (replicate 21 (CHR ''x''))"
  using ll2string_roundtrip [of "- 9223372036854775808" "replicate 21 (CHR ''x'')"]
  by (simp add: in_int64_def)

end
