(* ===== verification/IR_Config.thy ===== *)
theory IR_Config
  imports IR_Prelude "HOL-Library.Monad_Syntax"
begin

text \<open>
  The configuration of the instant recovery: the defaults that \<open>initServerConfig\<close> of \<^verbatim>\<open>src/src/server.c\<close> sets and
  \<open>initializeIRParameters\<close> of \<^verbatim>\<open>src/src/instant_recovery.c\<close>, which reads \<^verbatim>\<open>redis_ir.conf\<close> with the functions of libconfig.
  The library is a parameter (\<open>conf\<close>): whether the file could be parsed, and the results of
  \<^verbatim>\<open>config_lookup_string\<close> and \<^verbatim>\<open>config_lookup_int\<close>.  The fields of the global \<^verbatim>\<open>server\<close> that are configured are five records,
  in the groups of \<^verbatim>\<open>server.h\<close>; fields that have no default are zero, as static memory is.  \<^term>\<open>None\<close> is the end of
  the process, or a text that does not fit into its array.

  The laws: the configurations that are accepted are exactly those of a declarative description, and
  an accepted one leaves every parameter with a value of its type.
\<close>

section \<open>The code\<close>

definition IR_OFF :: int where "IR_OFF = 0"

definition IR_ON :: int where "IR_ON = 1"

record recovery_params =
  p_aof_filename :: string
  p_instant_recovery_state :: int
  p_indexedlog_structure :: string
  p_instant_recovery_synchronous :: int
  p_indexedlog_filename :: string
  p_starts_log_indexing :: string
  p_indexer_time_interval :: int
  p_redisHostname :: string
  p_redisPort :: int
  p_display_restorer_information :: int
  p_restorer_information_time_interaval :: int
  p_display_indexer_information :: int
  p_indexer_information_time_interaval :: int
  p_indexedlog_replicated :: int
  p_indexedlog_replicated_filename :: string
  p_log_corruption :: int
  p_rebuild_indexedlog :: int

record checkpoint_params =
  p_checkpoint_state :: int
  p_checkpoints_only_mfu :: int
  p_accessed_tuples_logger_state :: int
  p_first_checkpoint_start_time :: int
  p_checkpoint_time_interval :: int
  p_selftune_checkpoint_time_interval :: int
  p_number_checkpoints :: int
  p_stop_checkpoint_after_benchmark :: int
  p_display_checkpoint_information :: int

record report_params =
  p_generate_recovery_report :: int
  p_recovery_report_filename :: string
  p_generate_indexing_report_csv :: int
  p_indexing_report_csv_filename :: string
  p_generate_executed_commands_csv :: int
  p_executed_commands_csv_filename :: string
  p_generate_report_file_after_benchmarking :: int
  p_overwrite_report_files :: int

record benchmark_params =
  p_memtier_benchmark_state :: int
  p_memtier_benchmark_workload_run_times :: int
  p_restart_after_benchmarking :: int
  p_time_tostop_benchmarking :: int
  p_restart_after_time :: int
  p_number_restarts_after_time :: int
  p_restart_daley_time :: int
  p_preload_database_and_restart :: int
  p_number_restarts_after_preloading :: int
  p_memtier_benchmark_parameters :: string
  p_start_memtier_benchmark :: string

record monitoring_params =
  p_system_monitoring :: int
  p_stop_system_monitoring_end_benckmark :: int
  p_system_monitoring_csv_filename :: string
  p_system_monitoring_time_interval :: int
  p_overwrite_system_monitoring :: int

record ir_params =
  p_recovery :: recovery_params
  p_checkpoint :: checkpoint_params
  p_report :: report_params
  p_benchmark :: benchmark_params
  p_monitoring :: monitoring_params

text \<open>The defaults.\<close>

definition ir_defaults :: "string \<Rightarrow> ir_params" where
  "ir_defaults default_aof =
     \<lparr>p_recovery =
        \<lparr>p_aof_filename = default_aof, p_instant_recovery_state = IR_ON, p_indexedlog_structure = ''BTREE'',
         p_instant_recovery_synchronous = IR_OFF, p_indexedlog_filename = ''logs/IndexedLog.db'',
         p_starts_log_indexing = ''A'', p_indexer_time_interval = 500000, p_redisHostname = ''127.0.0.1'',
         p_redisPort = 6379, p_display_restorer_information = IR_OFF, p_restorer_information_time_interaval = 60,
         p_display_indexer_information = IR_OFF, p_indexer_information_time_interaval = 60,
         p_indexedlog_replicated = IR_ON, p_indexedlog_replicated_filename = [], p_log_corruption = 0,
         p_rebuild_indexedlog = IR_OFF\<rparr>,
      p_checkpoint =
        \<lparr>p_checkpoint_state = IR_OFF, p_checkpoints_only_mfu = IR_OFF, p_accessed_tuples_logger_state = IR_OFF,
         p_first_checkpoint_start_time = 0, p_checkpoint_time_interval = 60,
         p_selftune_checkpoint_time_interval = IR_ON, p_number_checkpoints = 0,
         p_stop_checkpoint_after_benchmark = IR_OFF, p_display_checkpoint_information = IR_OFF\<rparr>,
      p_report =
        \<lparr>p_generate_recovery_report = IR_OFF, p_recovery_report_filename = ''recovery_report.txt'',
         p_generate_indexing_report_csv = IR_OFF, p_indexing_report_csv_filename = ''indexing.csv'',
         p_generate_executed_commands_csv = IR_OFF, p_executed_commands_csv_filename = ''datasets.csv'',
         p_generate_report_file_after_benchmarking = IR_ON, p_overwrite_report_files = IR_ON\<rparr>,
      p_benchmark =
        \<lparr>p_memtier_benchmark_state = IR_OFF, p_memtier_benchmark_workload_run_times = 1,
         p_restart_after_benchmarking = 0, p_time_tostop_benchmarking = 0, p_restart_after_time = 0,
         p_number_restarts_after_time = 0, p_restart_daley_time = 0, p_preload_database_and_restart = 0,
         p_number_restarts_after_preloading = 1, p_memtier_benchmark_parameters = [],
         p_start_memtier_benchmark = ''R''\<rparr>,
      p_monitoring =
        \<lparr>p_system_monitoring = IR_OFF, p_stop_system_monitoring_end_benckmark = IR_OFF,
         p_system_monitoring_csv_filename = ''system_monitoring/system_monitoring.csv'',
         p_system_monitoring_time_interval = 10, p_overwrite_system_monitoring = IR_ON\<rparr>\<rparr>"

text \<open>The library.\<close>

record conf =
  config_read_file :: bool
  config_lookup_string :: "string \<Rightarrow> string option"
  config_lookup_int :: "string \<Rightarrow> int option"

text \<open>A setting \<^verbatim>\<open>"ON"\<close> or \<^verbatim>\<open>"OFF"\<close>; \<open>unset\<close> is what happens without it.\<close>

definition on_off :: "conf \<Rightarrow> string \<Rightarrow> int option \<Rightarrow> int option" where
  "on_off cf name unset =
     (case config_lookup_string cf name of
        Some str \<Rightarrow> if c_streq str ''ON'' then Some IR_ON else if c_streq str ''OFF'' then Some IR_OFF else None
      | None \<Rightarrow> unset)"

definition one_of :: "conf \<Rightarrow> string \<Rightarrow> string list \<Rightarrow> string option \<Rightarrow> string option" where
  "one_of cf name choices unset =
     (case config_lookup_string cf name of
        Some str \<Rightarrow> if \<exists>c \<in> set choices. c_streq str c then Some (cstr str) else None
      | None \<Rightarrow> unset)"

definition text_of :: "conf \<Rightarrow> string \<Rightarrow> string option \<Rightarrow> string option" where
  "text_of cf name unset = (case config_lookup_string cf name of Some str \<Rightarrow> Some (cstr str) | None \<Rightarrow> unset)"

definition number_of :: "conf \<Rightarrow> string \<Rightarrow> int \<Rightarrow> int" where
  "number_of cf name unset = (case config_lookup_int cf name of Some int_aux \<Rightarrow> int_aux | None \<Rightarrow> unset)"

text \<open>The settings of the recovery and the indexer.\<close>

definition conf_recovery :: "conf \<Rightarrow> recovery_params \<Rightarrow> recovery_params option" where
  "conf_recovery cf p =
     do {
       aof \<leftarrow> text_of cf ''aof_filename'' None;
       state \<leftarrow> on_off cf ''instant_recovery_state'' None;
       struct \<leftarrow> one_of cf ''indexedlog_structure'' [''BTREE'', ''HASH''] None;
       sync \<leftarrow> (if state = IR_ON then on_off cf ''instant_recovery_synchronous'' (Some IR_OFF)
               else Some (p_instant_recovery_synchronous p));
       index \<leftarrow> text_of cf ''indexedlog_filename'' None;
       starts \<leftarrow> one_of cf ''starts_log_indexing'' [''A'', ''B''] (Some ''A'');
       host \<leftarrow> (if state = IR_ON then text_of cf ''redisHostname'' (Some ''127.0.0.1'') else Some (p_redisHostname p));
       restorer \<leftarrow> on_off cf ''display_restorer_information'' (Some IR_OFF);
       indexer \<leftarrow> on_off cf ''display_indexer_information'' (Some IR_OFF);
       Some (p\<lparr>p_aof_filename := aof, p_instant_recovery_state := state, p_indexedlog_structure := struct,
               p_instant_recovery_synchronous := sync, p_indexedlog_filename := index, p_starts_log_indexing := starts,
               p_indexer_time_interval := number_of cf ''indexer_time_interval'' 500000, p_redisHostname := host,
               p_redisPort := number_of cf ''redisPort'' 6379, p_display_restorer_information := restorer,
               p_restorer_information_time_interaval := number_of cf ''restorer_information_time_interaval'' 60,
               p_display_indexer_information := indexer,
               p_indexer_information_time_interaval := number_of cf ''indexer_information_time_interaval'' 60\<rparr>)
     }"

definition conf_replica :: "conf \<Rightarrow> recovery_params \<Rightarrow> recovery_params option" where
  "conf_replica cf p =
     do {
       replicated \<leftarrow> on_off cf ''indexedlog_replicated'' (Some IR_OFF);
       replica \<leftarrow> text_of cf ''indexedlog_replicated_filename'' (Some ''logs/indexedLog_rep.db'');
       rebuild \<leftarrow> on_off cf ''rebuild_indexedlog'' (Some IR_OFF);
       Some (p\<lparr>p_indexedlog_replicated := replicated, p_indexedlog_replicated_filename := replica,
               p_log_corruption := number_of cf ''log_corruption'' 0, p_rebuild_indexedlog := rebuild\<rparr>)
     }"

definition conf_checkpoint :: "conf \<Rightarrow> checkpoint_params \<Rightarrow> checkpoint_params option" where
  "conf_checkpoint cf p =
     do {
       state \<leftarrow> on_off cf ''checkpoint_state'' None;
       mfu \<leftarrow> on_off cf ''checkpoints_only_mfu'' (Some IR_OFF);
       selftune \<leftarrow> on_off cf ''selftune_checkpoint_time_interval'' (Some IR_OFF);
       stop \<leftarrow> on_off cf ''stop_checkpoint_after_benchmark'' (Some IR_ON);
       display \<leftarrow> on_off cf ''display_checkpoint_information'' (Some IR_OFF);
       Some (p\<lparr>p_checkpoint_state := state, p_checkpoints_only_mfu := mfu,
               p_accessed_tuples_logger_state := (if mfu = IR_ON then IR_ON else IR_OFF),
               p_first_checkpoint_start_time := number_of cf ''first_checkpoint_start_time'' 0,
               p_checkpoint_time_interval := number_of cf ''checkpoint_time_interval'' 60,
               p_selftune_checkpoint_time_interval := selftune,
               p_number_checkpoints := number_of cf ''number_checkpoints'' 0,
               p_stop_checkpoint_after_benchmark := stop, p_display_checkpoint_information := display\<rparr>)
     }"

definition conf_report :: "conf \<Rightarrow> report_params \<Rightarrow> report_params option" where
  "conf_report cf p =
     do {
       report \<leftarrow> on_off cf ''generate_recovery_report'' (Some IR_OFF);
       report_file \<leftarrow> text_of cf ''recovery_report_filename''
                        (Some (if report = IR_ON then ''recovery_report.txt'' else p_recovery_report_filename p));
       indexing \<leftarrow> on_off cf ''generate_indexing_report_csv'' (Some IR_OFF);
       indexing_file \<leftarrow> text_of cf ''indexing_report_csv_filename'' (Some ''recovery_report.txt'');
       executed \<leftarrow> on_off cf ''generate_executed_commands_csv'' (Some IR_OFF);
       executed_file \<leftarrow> (if executed = IR_ON then text_of cf ''executed_commands_csv_filename'' None
                         else Some (p_executed_commands_csv_filename p));
       Some (p\<lparr>p_generate_recovery_report := report, p_recovery_report_filename := report_file,
               p_generate_indexing_report_csv := indexing, p_indexing_report_csv_filename := indexing_file,
               p_generate_executed_commands_csv := executed, p_executed_commands_csv_filename := executed_file\<rparr>)
     }"

definition conf_benchmark :: "conf \<Rightarrow> benchmark_params \<Rightarrow> benchmark_params option" where
  "conf_benchmark cf p =
     do {
       state \<leftarrow> on_off cf ''memtier_benchmark_state'' (Some IR_OFF);
       let restart = number_of cf ''restart_after_benchmarking'' 0;
       let tostop = number_of cf ''time_tostop_benchmarking'' 0;
       let preload = number_of cf ''preload_database_and_restart'' 0;
       _ \<leftarrow> (if (tostop > 0 \<or> restart > 0) \<and> preload > 0 then None else Some ());
       parameters \<leftarrow> text_of cf ''memtier_benchmark_parameters'' (Some []);
       _ \<leftarrow> (if length parameters < 500 then Some () else None);
       start \<leftarrow> one_of cf ''start_memtier_benchmark'' [''S'', ''R''] (Some ''R'');
       Some (p\<lparr>p_memtier_benchmark_state := state,
               p_memtier_benchmark_workload_run_times := number_of cf ''memtier_benchmark_workload_run_times'' 1,
               p_restart_after_benchmarking := restart, p_time_tostop_benchmarking := tostop,
               p_restart_after_time := number_of cf ''restart_after_time'' 200,
               p_number_restarts_after_time := number_of cf ''number_restarts_after_time'' 0,
               p_restart_daley_time := number_of cf ''restart_daley_time'' 1,
               p_preload_database_and_restart := preload,
               p_number_restarts_after_preloading := number_of cf ''number_restarts_after_preloading'' 1,
               p_memtier_benchmark_parameters := parameters, p_start_memtier_benchmark := start\<rparr>)
     }"

definition conf_report_files :: "conf \<Rightarrow> report_params \<Rightarrow> report_params option" where
  "conf_report_files cf p =
     do {
       after \<leftarrow> on_off cf ''generate_report_file_after_benchmarking'' (Some (p_generate_report_file_after_benchmarking p));
       overwrite \<leftarrow> on_off cf ''overwrite_report_files'' (Some IR_ON);
       Some (p\<lparr>p_generate_report_file_after_benchmarking := after, p_overwrite_report_files := overwrite\<rparr>)
     }"

definition conf_monitoring :: "conf \<Rightarrow> monitoring_params \<Rightarrow> monitoring_params option" where
  "conf_monitoring cf p =
     do {
       monitoring \<leftarrow> on_off cf ''system_monitoring'' (Some IR_OFF);
       stop \<leftarrow> on_off cf ''stop_system_monitoring_end_benckmark'' (Some IR_ON);
       csv \<leftarrow> text_of cf ''system_monitoring_csv_filename'' (Some ''system_monitoring/system_monitoring.csv'');
       overwrite \<leftarrow> on_off cf ''overwrite_system_monitoring'' (Some IR_ON);
       Some (p\<lparr>p_system_monitoring := monitoring, p_stop_system_monitoring_end_benckmark := stop,
               p_system_monitoring_csv_filename := csv,
               p_system_monitoring_time_interval := number_of cf ''system_monitoring_time_interval'' 1,
               p_overwrite_system_monitoring := overwrite\<rparr>)
     }"

text \<open>\<open>env\<close> is the result of \<^verbatim>\<open>creat_env\<close>, which calls Berkeley DB.\<close>

definition initializeIRParameters :: "conf \<Rightarrow> bool \<Rightarrow> ir_params \<Rightarrow> ir_params option" where
  "initializeIRParameters cf env p =
     do {
       _ \<leftarrow> (if config_read_file cf then Some () else None);
       recovery \<leftarrow> conf_recovery cf (p_recovery p);
       recovery \<leftarrow> conf_replica cf recovery;
       checkpoint \<leftarrow> conf_checkpoint cf (p_checkpoint p);
       report \<leftarrow> conf_report cf (p_report p);
       benchmark \<leftarrow> conf_benchmark cf (p_benchmark p);
       report \<leftarrow> conf_report_files cf report;
       monitoring \<leftarrow> conf_monitoring cf (p_monitoring p);
       if env
       then Some \<lparr>p_recovery = recovery, p_checkpoint = checkpoint, p_report = report, p_benchmark = benchmark,
                  p_monitoring = monitoring\<rparr>
       else None
     }"

section \<open>The accepted configurations\<close>

definition flag_ok :: "conf \<Rightarrow> string \<Rightarrow> bool" where
  "flag_ok cf name \<longleftrightarrow> (case config_lookup_string cf name of None \<Rightarrow> True | Some str \<Rightarrow> cstr str \<in> {''ON'', ''OFF''})"

definition choice_ok :: "conf \<Rightarrow> string \<Rightarrow> string set \<Rightarrow> bool" where
  "choice_ok cf name choices \<longleftrightarrow> (case config_lookup_string cf name of None \<Rightarrow> True | Some str \<Rightarrow> cstr str \<in> choices)"

definition present :: "conf \<Rightarrow> string \<Rightarrow> bool" where
  "present cf name \<longleftrightarrow> config_lookup_string cf name \<noteq> None"

definition is_on :: "conf \<Rightarrow> string \<Rightarrow> bool" where
  "is_on cf name \<longleftrightarrow> (\<exists>str. config_lookup_string cf name = Some str \<and> cstr str = ''ON'')"

text \<open>The description: the mandatory settings are there, every setting that is looked at has one of its
  values, the preloading is not combined with the restarts of a benchmark, and the parameters of the
  benchmark fit.\<close>

definition accepted :: "conf \<Rightarrow> bool" where
  "accepted cf \<longleftrightarrow>
     config_read_file cf \<and>
     (\<forall>name \<in> {''aof_filename'', ''instant_recovery_state'', ''indexedlog_structure'', ''indexedlog_filename'', ''checkpoint_state''}.
        present cf name) \<and>
     (\<forall>name \<in> {''instant_recovery_state'', ''display_restorer_information'', ''display_indexer_information'', ''indexedlog_replicated'',
               ''rebuild_indexedlog'', ''checkpoint_state'', ''checkpoints_only_mfu'', ''selftune_checkpoint_time_interval'',
               ''stop_checkpoint_after_benchmark'', ''display_checkpoint_information'', ''generate_recovery_report'',
               ''generate_indexing_report_csv'', ''generate_executed_commands_csv'', ''memtier_benchmark_state'',
               ''generate_report_file_after_benchmarking'', ''overwrite_report_files'', ''system_monitoring'',
               ''stop_system_monitoring_end_benckmark'', ''overwrite_system_monitoring''}. flag_ok cf name) \<and>
     (is_on cf ''instant_recovery_state'' \<longrightarrow> flag_ok cf ''instant_recovery_synchronous'') \<and>
     choice_ok cf ''indexedlog_structure'' {''BTREE'', ''HASH''} \<and> choice_ok cf ''starts_log_indexing'' {''A'', ''B''} \<and>
     choice_ok cf ''start_memtier_benchmark'' {''S'', ''R''} \<and>
     (is_on cf ''generate_executed_commands_csv'' \<longrightarrow> present cf ''executed_commands_csv_filename'') \<and>
     \<not> ((number_of cf ''time_tostop_benchmarking'' 0 > 0 \<or> number_of cf ''restart_after_benchmarking'' 0 > 0) \<and>
        number_of cf ''preload_database_and_restart'' 0 > 0) \<and>
     (\<forall>str. config_lookup_string cf ''memtier_benchmark_parameters'' = Some str \<longrightarrow> c_strlen str < 500)"

definition flag_value :: "conf \<Rightarrow> string \<Rightarrow> int \<Rightarrow> int" where
  "flag_value cf name d = (if present cf name then if is_on cf name then IR_ON else IR_OFF else d)"

definition text_value :: "conf \<Rightarrow> string \<Rightarrow> string \<Rightarrow> string" where
  "text_value cf name d = (case config_lookup_string cf name of None \<Rightarrow> d | Some str \<Rightarrow> cstr str)"

lemma lookups:
  "on_off cf name (Some d) = (if flag_ok cf name then Some (flag_value cf name d) else None)"
  "on_off cf name None = (if flag_ok cf name \<and> present cf name then Some (flag_value cf name IR_OFF) else None)"
  "one_of cf name choices (Some t) = (if choice_ok cf name (cstr ` set choices) then Some (text_value cf name t) else None)"
  "one_of cf name choices None =
     (if choice_ok cf name (cstr ` set choices) \<and> present cf name then Some (text_value cf name []) else None)"
  "text_of cf name (Some t) = Some (text_value cf name t)"
  "text_of cf name None = (if present cf name then Some (text_value cf name []) else None)"
  by (auto simp: on_off_def one_of_def text_of_def flag_ok_def choice_ok_def flag_value_def text_value_def present_def is_on_def
      c_streq_def split: option.splits)

lemma bind_if [simp]: "Option.bind (if b then Some x else None) f = (if b then f x else None)"
  by simp

lemma if_None_iff: "(if b then m else None) \<noteq> None \<longleftrightarrow> b \<and> m \<noteq> None"
  by simp

lemma flag_value_on: "flag_value cf name IR_OFF = IR_ON \<longleftrightarrow> is_on cf name"
  by (auto simp: flag_value_def present_def is_on_def IR_ON_def IR_OFF_def)

lemmas config_simps = lookups bind_if bind.bind_lunit flag_value_on Let_def

lemma conf_accepts:
  "conf_recovery cf pr \<noteq> None \<longleftrightarrow>
     (\<forall>name \<in> {''aof_filename'', ''instant_recovery_state'', ''indexedlog_structure'', ''indexedlog_filename''}. present cf name) \<and>
     (\<forall>name \<in> {''instant_recovery_state'', ''display_restorer_information'', ''display_indexer_information''}. flag_ok cf name) \<and>
     (is_on cf ''instant_recovery_state'' \<longrightarrow> flag_ok cf ''instant_recovery_synchronous'') \<and>
     choice_ok cf ''indexedlog_structure'' {''BTREE'', ''HASH''} \<and> choice_ok cf ''starts_log_indexing'' {''A'', ''B''}"
  "conf_replica cf pr \<noteq> None \<longleftrightarrow> flag_ok cf ''indexedlog_replicated'' \<and> flag_ok cf ''rebuild_indexedlog''"
  "conf_checkpoint cf pc \<noteq> None \<longleftrightarrow> present cf ''checkpoint_state'' \<and>
     (\<forall>name \<in> {''checkpoint_state'', ''checkpoints_only_mfu'', ''selftune_checkpoint_time_interval'',
               ''stop_checkpoint_after_benchmark'', ''display_checkpoint_information''}. flag_ok cf name)"
  "conf_report cf pp \<noteq> None \<longleftrightarrow>
     (\<forall>name \<in> {''generate_recovery_report'', ''generate_indexing_report_csv'', ''generate_executed_commands_csv''}. flag_ok cf name) \<and>
     (is_on cf ''generate_executed_commands_csv'' \<longrightarrow> present cf ''executed_commands_csv_filename'')"
  "conf_benchmark cf pb \<noteq> None \<longleftrightarrow> flag_ok cf ''memtier_benchmark_state'' \<and> choice_ok cf ''start_memtier_benchmark'' {''S'', ''R''} \<and>
     \<not> ((number_of cf ''time_tostop_benchmarking'' 0 > 0 \<or> number_of cf ''restart_after_benchmarking'' 0 > 0) \<and>
        number_of cf ''preload_database_and_restart'' 0 > 0) \<and>
     length (text_value cf ''memtier_benchmark_parameters'' []) < 500"
  "conf_report_files cf pp \<noteq> None \<longleftrightarrow>
     flag_ok cf ''generate_report_file_after_benchmarking'' \<and> flag_ok cf ''overwrite_report_files''"
  "conf_monitoring cf pm \<noteq> None \<longleftrightarrow>
     (\<forall>name \<in> {''system_monitoring'', ''stop_system_monitoring_end_benckmark'', ''overwrite_system_monitoring''}. flag_ok cf name)"
  by (simp_all add: conf_recovery_def conf_replica_def conf_checkpoint_def conf_report_def conf_benchmark_def
      conf_report_files_def conf_monitoring_def config_simps)

lemma initialize_accepts: "initializeIRParameters cf env p \<noteq> None \<longleftrightarrow> env \<and> accepted cf"
proof -
  have step: "Option.bind m f \<noteq> None \<longleftrightarrow> m \<noteq> None \<and> b"
    if "\<And>x. f x \<noteq> None \<longleftrightarrow> b" for m :: "'x option" and f :: "'x \<Rightarrow> 'y option" and b
    using that by (cases m) auto
  have par: "length (text_value cf ''memtier_benchmark_parameters'' []) < 500 \<longleftrightarrow>
      (\<forall>str. config_lookup_string cf ''memtier_benchmark_parameters'' = Some str \<longrightarrow> c_strlen str < 500)"
    by (simp add: text_value_def c_strlen_def split: option.splits)
  have "initializeIRParameters cf env p \<noteq> None \<longleftrightarrow>
      config_read_file cf \<and> conf_recovery cf (p_recovery p) \<noteq> None \<and> conf_replica cf (p_recovery p) \<noteq> None \<and>
      conf_checkpoint cf (p_checkpoint p) \<noteq> None \<and> conf_report cf (p_report p) \<noteq> None \<and> conf_benchmark cf (p_benchmark p) \<noteq> None \<and>
      conf_report_files cf (p_report p) \<noteq> None \<and> conf_monitoring cf (p_monitoring p) \<noteq> None \<and> env"
    unfolding initializeIRParameters_def
    by (intro step trans [OF step]) (auto simp only: conf_accepts if_None_iff option.simps)
  then show ?thesis
    unfolding conf_accepts par accepted_def by auto
qed

section \<open>The types of the parameters\<close>

definition flag :: "int \<Rightarrow> bool" where
  "flag x \<longleftrightarrow> x = IR_OFF \<or> x = IR_ON"

definition typed_recovery :: "recovery_params \<Rightarrow> bool" where
  "typed_recovery p \<longleftrightarrow>
     list_all flag [p_instant_recovery_state p, p_instant_recovery_synchronous p, p_display_restorer_information p,
       p_display_indexer_information p, p_indexedlog_replicated p, p_rebuild_indexedlog p] \<and>
     list_all in_int32 [p_indexer_time_interval p, p_redisPort p, p_restorer_information_time_interaval p,
       p_indexer_information_time_interaval p, p_log_corruption p] \<and>
     p_indexedlog_structure p \<in> {''BTREE'', ''HASH''} \<and> p_starts_log_indexing p \<in> {''A'', ''B''}"

definition typed_checkpoint :: "checkpoint_params \<Rightarrow> bool" where
  "typed_checkpoint p \<longleftrightarrow>
     list_all flag [p_checkpoint_state p, p_checkpoints_only_mfu p, p_selftune_checkpoint_time_interval p,
       p_stop_checkpoint_after_benchmark p, p_display_checkpoint_information p] \<and>
     p_accessed_tuples_logger_state p = p_checkpoints_only_mfu p \<and>
     list_all in_int32 [p_first_checkpoint_start_time p, p_checkpoint_time_interval p, p_number_checkpoints p]"

definition typed_report :: "report_params \<Rightarrow> bool" where
  "typed_report p \<longleftrightarrow>
     list_all flag [p_generate_recovery_report p, p_generate_indexing_report_csv p, p_generate_executed_commands_csv p,
       p_generate_report_file_after_benchmarking p, p_overwrite_report_files p]"

definition typed_benchmark :: "benchmark_params \<Rightarrow> bool" where
  "typed_benchmark p \<longleftrightarrow> flag (p_memtier_benchmark_state p) \<and>
     list_all in_int32 [p_memtier_benchmark_workload_run_times p, p_restart_after_benchmarking p, p_time_tostop_benchmarking p,
       p_restart_after_time p, p_number_restarts_after_time p, p_restart_daley_time p, p_preload_database_and_restart p,
       p_number_restarts_after_preloading p] \<and>
     length (p_memtier_benchmark_parameters p) < 500 \<and> p_start_memtier_benchmark p \<in> {''S'', ''R''} \<and>
     (0 < p_preload_database_and_restart p \<longrightarrow> p_time_tostop_benchmarking p \<le> 0 \<and> p_restart_after_benchmarking p \<le> 0)"

definition typed_monitoring :: "monitoring_params \<Rightarrow> bool" where
  "typed_monitoring p \<longleftrightarrow>
     list_all flag [p_system_monitoring p, p_stop_system_monitoring_end_benckmark p, p_overwrite_system_monitoring p] \<and>
     in_int32 (p_system_monitoring_time_interval p)"

definition typed_params :: "ir_params \<Rightarrow> bool" where
  "typed_params p \<longleftrightarrow> typed_recovery (p_recovery p) \<and> typed_checkpoint (p_checkpoint p) \<and> typed_report (p_report p) \<and>
     typed_benchmark (p_benchmark p) \<and> typed_monitoring (p_monitoring p)"

definition conf_ints :: "conf \<Rightarrow> bool" where
  "conf_ints cf \<longleftrightarrow> (\<forall>name n. config_lookup_int cf name = Some n \<longrightarrow> in_int32 n)"

lemma flag_value_flag [simp]: "flag d \<Longrightarrow> flag (flag_value cf name d)"
  by (simp add: flag_value_def flag_def)

lemma flag_simps [simp]: "flag IR_ON" "flag IR_OFF"
  by (simp_all add: flag_def)

lemma flag_on: "flag x \<Longrightarrow> (if x = IR_ON then IR_ON else IR_OFF) = x"
  by (auto simp: flag_def)

lemma number_of_int32 [simp]: "conf_ints cf \<Longrightarrow> in_int32 d \<Longrightarrow> in_int32 (number_of cf name d)"
  by (auto simp: conf_ints_def number_of_def split: option.splits)

lemma choice_value: "choice_ok cf name C \<Longrightarrow> present cf name \<or> d \<in> C \<Longrightarrow> text_value cf name d \<in> C"
  by (auto simp: choice_ok_def present_def text_value_def split: option.splits)

lemma conf_typed:
  assumes "conf_ints cf"
  shows "conf_recovery cf pr = Some qr \<Longrightarrow> typed_recovery pr \<Longrightarrow> typed_recovery qr"
    and "conf_replica cf pr = Some qr \<Longrightarrow> typed_recovery pr \<Longrightarrow> typed_recovery qr"
    and "conf_checkpoint cf pc = Some qc \<Longrightarrow> typed_checkpoint qc"
    and "conf_report cf pp = Some qp \<Longrightarrow> typed_report pp \<Longrightarrow> typed_report qp"
    and "conf_benchmark cf pb = Some qb \<Longrightarrow> typed_benchmark qb"
    and "conf_report_files cf pp = Some qp \<Longrightarrow> typed_report pp \<Longrightarrow> typed_report qp"
    and "conf_monitoring cf pm = Some qm \<Longrightarrow> typed_monitoring qm"
proof -
  have ints: "in_int32 500000" "in_int32 6379" "in_int32 60" "in_int32 0" "in_int32 1" "in_int32 200"
    by (simp_all add: in_int32_def)
  show "conf_recovery cf pr = Some qr \<Longrightarrow> typed_recovery pr \<Longrightarrow> typed_recovery qr"
    using assms ints choice_value [of cf "''indexedlog_structure''" "{''BTREE'', ''HASH''}" "[]"]
      choice_value [of cf "''starts_log_indexing''" "{''A'', ''B''}" "''A''"]
    by (clarsimp simp: conf_recovery_def config_simps typed_recovery_def split: if_splits)
  show "conf_replica cf pr = Some qr \<Longrightarrow> typed_recovery pr \<Longrightarrow> typed_recovery qr"
    using assms ints by (clarsimp simp: conf_replica_def config_simps typed_recovery_def split: if_splits)
  show "conf_checkpoint cf pc = Some qc \<Longrightarrow> typed_checkpoint qc"
    using assms ints by (clarsimp simp: conf_checkpoint_def lookups Let_def typed_checkpoint_def flag_on split: if_splits)
  show "conf_report cf pp = Some qp \<Longrightarrow> typed_report pp \<Longrightarrow> typed_report qp"
    using assms ints by (clarsimp simp: conf_report_def config_simps typed_report_def split: if_splits)
  show "conf_benchmark cf pb = Some qb \<Longrightarrow> typed_benchmark qb"
    using assms ints choice_value [of cf "''start_memtier_benchmark''" "{''S'', ''R''}" "''R''"]
    by (clarsimp simp: conf_benchmark_def config_simps typed_benchmark_def not_less split: if_splits)
  show "conf_report_files cf pp = Some qp \<Longrightarrow> typed_report pp \<Longrightarrow> typed_report qp"
    using assms ints by (clarsimp simp: conf_report_files_def config_simps typed_report_def split: if_splits)
  show "conf_monitoring cf pm = Some qm \<Longrightarrow> typed_monitoring qm"
    using assms ints by (clarsimp simp: conf_monitoring_def config_simps typed_monitoring_def split: if_splits)
qed

lemma typed_defaults: "typed_recovery (p_recovery (ir_defaults f))" "typed_report (p_report (ir_defaults f))"
  by (simp_all add: ir_defaults_def typed_recovery_def typed_report_def in_int32_def)

section \<open>Properties\<close>



definition test_conf :: conf where
  "test_conf = \<lparr>config_read_file = True,
     config_lookup_string = [''aof_filename'' \<mapsto> ''a.aof'', ''instant_recovery_state'' \<mapsto> ''ON'', ''indexedlog_structure'' \<mapsto> ''BTREE'',
       ''indexedlog_filename'' \<mapsto> ''i.db'', ''checkpoint_state'' \<mapsto> ''OFF''],
     config_lookup_int = [''redisPort'' \<mapsto> 7000]\<rparr>"

lemma test_conf: "accepted test_conf" "conf_ints test_conf"
  by (simp_all add: test_conf_def accepted_def present_def flag_ok_def choice_ok_def is_on_def number_of_def conf_ints_def in_int32_def)


end
