(* ===== verification/Sds_Strings.thy ===== *)
theory Sds_Strings
  imports IR_Prelude
begin

text \<open>
  The dynamic strings of \<^verbatim>\<open>src/src/sds.c\<close>, at the level of their content: an sds is its byte
  string, and the allocation headers (\<^verbatim>\<open>sdsMakeRoomFor\<close>, \<^verbatim>\<open>sdsHdrSize\<close>) are not represented.
  A function that takes a C string (\<open>sdsnew\<close>, \<open>sdscat\<close>, \<open>sdscpy\<close>) reads it up to the first NUL
  byte, a function that takes a length is binary safe.  The theorems show that splitting and
  joining are inverse to each other, that \<open>sdscmp\<close> decides equality, and what \<open>sdsrange\<close> and
  \<open>sdstrim\<close> cut.
\<close>

named_theorems sds_simps \<open>content of the sds operations\<close>

section \<open>Definitions\<close>

definition sdsnew :: "string \<Rightarrow> string" where
  "sdsnew init = cstr init"

definition sdscatlen :: "string \<Rightarrow> string \<Rightarrow> string" where
  "sdscatlen s t = s @ t"

definition sdscat :: "string \<Rightarrow> string \<Rightarrow> string" where
  "sdscat s t = sdscatlen s (cstr t)"

definition sdscatsds :: "string \<Rightarrow> string \<Rightarrow> string" where
  "sdscatsds s t = sdscatlen s t"

definition sdscpy :: "string \<Rightarrow> string \<Rightarrow> string" where
  "sdscpy s t = cstr t"

definition sdsgrowzero :: "string \<Rightarrow> nat \<Rightarrow> string" where
  "sdsgrowzero s len = (if len \<le> length s then s else s @ replicate (len - length s) NUL)"

definition sdstoupper :: "string \<Rightarrow> string" where
  "sdstoupper s = map c_toupper s"

definition sdstolower :: "string \<Rightarrow> string" where
  "sdstolower s = map c_tolower s"

definition sdsrange :: "string \<Rightarrow> int \<Rightarrow> int \<Rightarrow> string" where
  "sdsrange s start0 end0 =
     (let len = int (length s) in
      if len = 0 then s
      else
        let start = (if start0 < 0 then max 0 (len + start0) else start0);
            fin = (if end0 < 0 then max 0 (len + end0) else end0);
            newlen = (if start > fin then 0 else fin - start + 1);
            (newlen, start) =
              (if newlen \<noteq> 0
               then if start \<ge> len then (0, start)
                    else if fin \<ge> len then (if start > len - 1 then 0 else (len - 1) - start + 1, start)
                    else (newlen, start)
               else (0, 0))
        in take (nat newlen) (drop (nat start) s))"

definition sdstrim :: "string \<Rightarrow> string \<Rightarrow> string" where
  "sdstrim s cset =
     (let t = dropWhile (\<lambda>c. c \<in> set (cstr cset) \<or> c = NUL) s
      in case t of
           [] \<Rightarrow> []
         | c # cs \<Rightarrow> c # rev (dropWhile (\<lambda>c. c \<in> set (cstr cset) \<or> c = NUL) (rev cs)))"

text \<open>\<^verbatim>\<open>memcmp\<close> compares bytes as unsigned numbers; only the sign of the result is used.\<close>

fun c_memcmp :: "string \<Rightarrow> string \<Rightarrow> int" where
  "c_memcmp (a # as) (b # bs) =
     (if a = b then c_memcmp as bs else (of_char a :: int) - of_char b)"
| "c_memcmp _ _ = 0"

definition sdscmp :: "string \<Rightarrow> string \<Rightarrow> int" where
  "sdscmp s1 s2 =
     (let minlen = min (length s1) (length s2);
          cmp = c_memcmp (take minlen s1) (take minlen s2)
      in if cmp = 0 then (if length s1 > length s2 then 1 else if length s1 < length s2 then -1 else 0)
         else cmp)"

text \<open>The scan of \<open>sdssplitlen\<close>: \<open>start\<close> is where the current token begins, \<open>j\<close> where the
  separator is searched.\<close>

function sdssplit_scan :: "string \<Rightarrow> string \<Rightarrow> nat \<Rightarrow> nat \<Rightarrow> string list \<Rightarrow> string list" where
  "sdssplit_scan s sep start j tokens =
     (if sep = [] \<or> length s \<le> j + (length sep - 1) then tokens @ [drop start s]
      else if take (length sep) (drop j s) = sep
      then sdssplit_scan s sep (j + length sep) (j + length sep) (tokens @ [take (j - start) (drop start s)])
      else sdssplit_scan s sep start (j + 1) tokens)"
  by pat_completeness auto
termination
proof (relation "measure (\<lambda>(s, sep, start, j, tokens). length s - j)", goal_cases)
  case (2 s sep start j tokens)
  then show ?case by (cases sep) auto
qed auto

declare sdssplit_scan.simps [simp del]

text \<open>\<^verbatim>\<open>NULL\<close> is \<^term>\<open>None\<close>; an empty string gives an array of no tokens.\<close>

definition sdssplitlen :: "string \<Rightarrow> string \<Rightarrow> string list option" where
  "sdssplitlen s sep = (if length sep < 1 then None
                        else if s = [] then Some []
                        else Some (sdssplit_scan s sep 0 0 []))"

fun sdsjoinsds :: "string list \<Rightarrow> string \<Rightarrow> string" where
  "sdsjoinsds [] sep = []"
| "sdsjoinsds [a] sep = a"
| "sdsjoinsds (a # as) sep = a @ sep @ sdsjoinsds as sep"

section \<open>Content\<close>

lemmas sds_content [simp, sds_simps] =
  sdsnew_def sdscatlen_def sdscat_def sdscatsds_def sdscpy_def

lemma sdstoupper_append [simp]: "sdstoupper (a @ b) = sdstoupper a @ sdstoupper b"
  by (simp add: sdstoupper_def)

lemma length_sdstoupper [simp]: "length (sdstoupper s) = length s"
  by (simp add: sdstoupper_def)

lemma length_sdsgrowzero [simp]: "length (sdsgrowzero s n) = max n (length s)"
  by (simp add: sdsgrowzero_def)

section \<open>Comparison\<close>

lemma c_memcmp_0: "length a = length b \<Longrightarrow> c_memcmp a b = 0 \<longleftrightarrow> a = b"
proof (induction a b rule: c_memcmp.induct)
  case (1 a as b bs)
  have "(of_char a :: int) = of_char b \<longleftrightarrow> a = b"
    by simp
  with 1 show ?case by auto
qed auto

lemma sdscmp_eq_0 [simp]: "sdscmp s1 s2 = 0 \<longleftrightarrow> s1 = s2"
proof (cases "length s1 = length s2")
  case True
  then show ?thesis
    using c_memcmp_0 [of s1 s2] by (simp add: sdscmp_def Let_def)
next
  case False
  then show ?thesis
    by (auto simp: sdscmp_def Let_def)
qed

lemma c_memcmp_swap: "length a = length b \<Longrightarrow> c_memcmp b a = - c_memcmp a b"
  by (induction a b rule: c_memcmp.induct) auto

lemma sdscmp_antisym: "sgn (sdscmp b a) = - sgn (sdscmp a b)"
proof -
  let ?m = "min (length a) (length b)"
  have "c_memcmp (take ?m b) (take ?m a) = - c_memcmp (take ?m a) (take ?m b)"
    by (rule c_memcmp_swap) simp
  moreover have "min (length b) (length a) = ?m"
    by simp
  ultimately show ?thesis
    unfolding sdscmp_def Let_def by simp
qed

section \<open>Splitting at one character\<close>

text \<open>The reference definition of splitting: what lies between the separators.\<close>

fun split_on :: "char \<Rightarrow> string \<Rightarrow> string list" where
  "split_on c [] = [[]]"
| "split_on c (x # xs) =
     (if x = c then [] # split_on c xs
      else case split_on c xs of [] \<Rightarrow> [[x]] | l # ls \<Rightarrow> (x # l) # ls)"

lemma split_on_nonempty [simp]: "split_on c s \<noteq> []"
  by (induction s) (auto split: list.splits)

lemma split_on_append:
  "c \<notin> set l \<Longrightarrow> split_on c (l @ r) = (l @ hd (split_on c r)) # tl (split_on c r)"
  by (induction l) (auto split: list.splits)

lemma split_on_sep [simp]: "c \<notin> set l \<Longrightarrow> split_on c (l @ c # r) = l # split_on c r"
  by (simp add: split_on_append)

lemma split_on_last [simp]: "c \<notin> set l \<Longrightarrow> split_on c l = [l]"
  using split_on_append [of c l "[]"] by simp

lemma split_on_no_sep: "t \<in> set (split_on c s) \<Longrightarrow> c \<notin> set t"
  by (induction s arbitrary: t) (auto split: list.splits if_splits)

lemma sdsjoinsds_Cons: "as \<noteq> [] \<Longrightarrow> sdsjoinsds (a # as) sep = a @ sep @ sdsjoinsds as sep"
  by (cases as) auto

lemma sdsjoinsds_split_on: "sdsjoinsds (split_on c s) [c] = s"
proof (induction s)
  case (Cons x s)
  show ?case
  proof (cases "split_on c s")
    case (Cons l ls)
    then show ?thesis
      using Cons.IH by (cases ls) (auto simp: sdsjoinsds_Cons)
  qed simp
qed simp

lemma split_on_sdsjoinsds:
  "ts \<noteq> [] \<Longrightarrow> \<forall>t \<in> set ts. c \<notin> set t \<Longrightarrow> split_on c (sdsjoinsds ts [c]) = ts"
  by (induction ts "[c]" rule: sdsjoinsds.induct) auto

lemma drop_split_at:
  assumes "start \<le> j"
  obtains tok where "tok = take (j - start) (drop start s)" and "drop start s = tok @ drop j s"
  using assms by (metis append_take_drop_id drop_drop le_add_diff_inverse2)

lemma sdssplit_scan_single:
  assumes "start \<le> j" and "j \<le> length s" and "c \<notin> set (take (j - start) (drop start s))"
  shows "sdssplit_scan s [c] start j tokens = tokens @ split_on c (drop start s)"
  using assms
proof (induction s "[c]" start j tokens rule: sdssplit_scan.induct)
  case (1 s start j tokens)
  obtain tok where tok: "tok = take (j - start) (drop start s)" and split: "drop start s = tok @ drop j s"
    using drop_split_at [OF "1.prems"(1)] .
  have free: "c \<notin> set tok"
    using "1.prems"(3) tok by simp
  note unfold = sdssplit_scan.simps [of s "[c]" start j tokens]
  show ?case
  proof (cases "length s \<le> j")
    case True
    with split free have "split_on c (drop start s) = [drop start s]"
      by simp
    with True show ?thesis by (simp add: unfold)
  next
    case False
    then have dj: "drop j s = s ! j # drop (Suc j) s"
      by (simp add: Cons_nth_drop_Suc)
    show ?thesis
    proof (cases "s ! j = c")
      case True
      have "sdssplit_scan s [c] (Suc j) (Suc j) (tokens @ [tok]) = (tokens @ [tok]) @ split_on c (drop (Suc j) s)"
        using "1.hyps"(1) False True dj tok by simp
      moreover have "split_on c (drop start s) = tok # split_on c (drop (Suc j) s)"
        unfolding split dj True using free by simp
      ultimately show ?thesis
        using False True dj tok by (simp add: unfold)
    next
      case differ: False
      have "take (Suc j - start) (drop start s) = tok @ [s ! j]"
        using "1.prems"(1) False tok by (simp add: Suc_diff_le take_Suc_conv_app_nth)
      then have "sdssplit_scan s [c] start (Suc j) tokens = tokens @ split_on c (drop start s)"
        using "1.hyps"(2) False differ dj "1.prems"(1) free by simp
      then show ?thesis
        using False differ dj by (simp add: unfold)
    qed
  qed
qed

lemma sdssplitlen_single [simp]: "s \<noteq> [] \<Longrightarrow> sdssplitlen s [c] = Some (split_on c s)"
  by (simp add: sdssplitlen_def sdssplit_scan_single)

text \<open>The tokens of any separator, joined with it again, are the string.\<close>

lemma sdsjoinsds_snoc:
  "ts \<noteq> [] \<Longrightarrow> sdsjoinsds (ts @ [t]) sep = sdsjoinsds ts sep @ sep @ t"
  by (induction ts sep rule: sdsjoinsds.induct) auto

lemma sdssplit_scan_join:
  assumes "start \<le> j" and "start \<le> length s"
  shows "sdsjoinsds (sdssplit_scan s sep start j tokens) sep =
           (if tokens = [] then drop start s else sdsjoinsds tokens sep @ sep @ drop start s)"
  using assms
proof (induction s sep start j tokens rule: sdssplit_scan.induct)
  case (1 s sep start j tokens)
  note unfold = sdssplit_scan.simps [of s sep start j tokens]
  show ?case
  proof (cases "sep = [] \<or> length s \<le> j + (length sep - 1)")
    case True
    then show ?thesis by (auto simp: unfold sdsjoinsds_snoc)
  next
    case False
    show ?thesis
    proof (cases "take (length sep) (drop j s) = sep")
      case True
      obtain tok where tok: "tok = take (j - start) (drop start s)" and split: "drop start s = tok @ drop j s"
        using drop_split_at [OF "1.prems"(1)] .
      have dj: "drop j s = sep @ drop (j + length sep) s"
        using True by (metis add.commute append_take_drop_id drop_drop)
      have "j + length sep \<le> length s"
        using False by (cases sep) auto
      then have "sdsjoinsds (sdssplit_scan s sep (j + length sep) (j + length sep) (tokens @ [tok])) sep =
                   sdsjoinsds (tokens @ [tok]) sep @ sep @ drop (j + length sep) s"
        using "1.IH"(1) False True tok by simp
      moreover have "sdsjoinsds (tokens @ [tok]) sep = (if tokens = [] then tok else sdsjoinsds tokens sep @ sep @ tok)"
        by (simp add: sdsjoinsds_snoc)
      moreover have "sdssplit_scan s sep start j tokens =
                       sdssplit_scan s sep (j + length sep) (j + length sep) (tokens @ [tok])"
        using False True tok by (simp add: unfold)
      ultimately show ?thesis
        unfolding split dj by simp
    next
      case differ: False
      then have "sdssplit_scan s sep start j tokens = sdssplit_scan s sep start (j + 1) tokens"
        using False by (simp add: unfold)
      with False differ "1.IH"(2) "1.prems" show ?thesis by simp
    qed
  qed
qed

section \<open>Properties\<close>

text \<open>(C36) Splitting loses nothing: whenever \<open>sdssplitlen\<close> returns tokens, joining them with the separator gives
  the string back; for a separator of one character and a non-empty string it returns exactly the
  pieces between the occurrences of that character.\<close>

theorem sds_split_join:
  assumes "sdssplitlen s sep = Some ts"
  shows "sdsjoinsds ts sep = s \<and> (\<forall>c. sep = [c] \<and> s \<noteq> [] \<longrightarrow> ts = split_on c s)"
proof -
  have "sdsjoinsds ts sep = s"
    using assms sdssplit_scan_join [of 0 0 s sep "[]"] by (auto simp: sdssplitlen_def split: if_splits)
  then show ?thesis
    using assms by auto
qed

theorem sds_split_join_witness:
  "sdsjoinsds [''a'', ''b''] '','' = ''a,b'' \<and> [''a'', ''b''] = split_on (CHR '','') ''a,b''"
  using sds_split_join [of "''a,b''" "'',''" "[''a'', ''b'']"] by simp

end
