(* ===== verification/IR_Strings.thy ===== *)
theory IR_Strings
  imports Sds_Strings
begin

text \<open>
  The string helpers at the top of \<^verbatim>\<open>src/src/instant_recovery.c\<close> (\<open>ltrim\<close>, \<open>rtrim\<close>, \<open>trim\<close>,
  \<open>removesSpaces\<close>, \<open>str_split\<close>), which the system monitoring thread applies to a line of
  \<^verbatim>\<open>top\<close>.  They work in place, so a buffer is the list of its bytes, its terminating NUL
  included, a pointer into it is an offset, and an access outside of the buffer or a failed
  \<^verbatim>\<open>assert\<close> is \<^term>\<open>None\<close>.  The theorems compare them with one-line reference functions and
  show that the monitoring thread never fails an assertion of \<open>str_split\<close>.
\<close>

section \<open>The code\<close>

definition ltrim :: "string \<Rightarrow> nat \<Rightarrow> nat" where
  "ltrim buf p = p + length (takeWhile c_isspace (drop p buf))"

fun rtrim_back :: "string \<Rightarrow> nat \<Rightarrow> nat option" where
  "rtrim_back buf 0 = None"
| "rtrim_back buf (Suc b) = (if c_isspace (buf ! b) then rtrim_back buf b else Some b)"

definition rtrim :: "string \<Rightarrow> nat \<Rightarrow> string option" where
  "rtrim buf p = map_option (\<lambda>back. buf[back + 1 := NUL]) (rtrim_back buf (p + c_strlen (drop p buf)))"

definition trim :: "string \<Rightarrow> nat \<Rightarrow> (string \<times> nat) option" where
  "trim buf p = map_option (\<lambda>buf'. (buf', ltrim buf p)) (rtrim buf (ltrim buf p))"

function removesSpaces_loop :: "string \<Rightarrow> nat \<Rightarrow> nat \<Rightarrow> string option" where
  "removesSpaces_loop str i j =
     (if i \<ge> length str then None
      else if str ! i = NUL then Some (str[j := NUL])
      else if str ! i \<noteq> CHR '' '' \<or> str ! (i - 1) \<noteq> CHR '' ''
      then removesSpaces_loop (str[j := str ! i]) (i + 1) (j + 1)
      else removesSpaces_loop str (i + 1) j)"
  by pat_completeness auto
termination
  by (relation "measure (\<lambda>(str, i, j). length str - i)") auto

declare removesSpaces_loop.simps [simp del]

definition removesSpaces :: "string \<Rightarrow> string option" where
  "removesSpaces str = removesSpaces_loop str 1 1"

text \<open>The counting loop of \<open>str_split\<close>: the number of delimiters and the place of the last one.\<close>

fun split_count :: "string \<Rightarrow> char \<Rightarrow> nat \<Rightarrow> nat \<Rightarrow> nat option \<Rightarrow> nat \<times> nat option" where
  "split_count [] d tmp count last_comma = (count, last_comma)"
| "split_count (c # cs) d tmp count last_comma =
     (if c = d then split_count cs d (tmp + 1) (count + 1) (Some tmp)
      else split_count cs d (tmp + 1) count last_comma)"

text \<open>The tokens of repeated calls of \<^verbatim>\<open>strtok\<close> with a single delimiter.\<close>

function strtok_tokens :: "char \<Rightarrow> string \<Rightarrow> string list" where
  "strtok_tokens d s =
     (let t = dropWhile (\<lambda>c. c = d) s
      in if t = [] then [] else takeWhile (\<lambda>c. c \<noteq> d) t # strtok_tokens d (dropWhile (\<lambda>c. c \<noteq> d) t))"
  by pat_completeness auto
termination
proof (relation "measure (length \<circ> snd)", goal_cases)
  case (2 d s t)
  have "length t \<le> length s"
    using 2 by (simp add: length_dropWhile_le)
  moreover obtain a r where t: "t = a # r"
    using 2(2) by (meson list.exhaust)
  moreover have "a \<noteq> d"
    using 2 t hd_dropWhile [of "\<lambda>c. c = d" s] by (metis list.sel(1) list.distinct(1))
  moreover have "length (dropWhile (\<lambda>c. c \<noteq> d) r) \<le> length r"
    by (rule length_dropWhile_le)
  ultimately show ?case by simp
qed simp

declare strtok_tokens.simps [simp del]

definition str_split :: "string \<Rightarrow> char \<Rightarrow> string list option" where
  "str_split a_str a_delim =
     (let s = cstr a_str;
          (count, last_comma) = split_count s a_delim 0 0 None;
          trailing = (case last_comma of None \<Rightarrow> True | Some p \<Rightarrow> int p < int (length s) - 1);
          count = count + (if trailing then 1 else 0) + 1;
          tokens = strtok_tokens a_delim s
      in if length tokens \<le> count \<and> length tokens = count - 1 then Some tokens else None)"

text \<open>What the monitoring thread does to a line of the output of \<^verbatim>\<open>top\<close>.\<close>

definition monitoring_tokens :: "string \<Rightarrow> string list option" where
  "monitoring_tokens line =
     (case removesSpaces line of
        None \<Rightarrow> None
      | Some buf \<Rightarrow>
          (case trim buf 0 of
             None \<Rightarrow> None
           | Some (buf', p) \<Rightarrow> str_split (drop p buf') (CHR '' '')))"

section \<open>Reference functions\<close>

fun squeeze :: "string \<Rightarrow> string" where
  "squeeze (a # b # s) = (if a = CHR '' '' \<and> b = CHR '' '' then squeeze (b # s) else a # squeeze (b # s))"
| "squeeze s = s"

fun rstrip :: "string \<Rightarrow> string" where
  "rstrip [] = []"
| "rstrip (a # s) = (if c_isspace a \<and> rstrip s = [] then [] else a # rstrip s)"

definition strip :: "string \<Rightarrow> string" where
  "strip s = rstrip (dropWhile c_isspace s)"

lemma isspace_NUL [simp]: "\<not> c_isspace NUL"
  by (simp add: c_isspace_def)

lemma isspace_space [simp]: "c_isspace (CHR '' '')"
  by (simp add: c_isspace_def)

section \<open>removesSpaces\<close>

lemma squeeze_Cons_eq: "squeeze (a # s) = a # drop 1 (squeeze (a # s))"
  by (induction "a # s" arbitrary: a s rule: squeeze.induct) auto

lemma squeeze_Cons2:
  "squeeze (a # b # s) = a # (if a = CHR '' '' \<and> b = CHR '' '' then drop 1 (squeeze (a # s)) else squeeze (b # s))"
  using squeeze_Cons_eq [of b s] by auto

lemma set_squeeze: "set (squeeze s) = set s"
  by (induction s rule: squeeze.induct) auto

lemma length_squeeze: "length (squeeze s) \<le> length s"
  by (induction s rule: squeeze.induct) auto

lemma takeWhile_update_NUL: "s \<noteq> [] \<Longrightarrow> takeWhile (\<lambda>c. c \<noteq> NUL) (s[0 := NUL]) = []"
  by (cases s) auto

lemma removesSpaces_loop_squeeze:
  assumes "0 < i" and "j \<le> i" and "i \<le> length str" and "NUL \<notin> set cs"
    and "drop i str = cs @ NUL # post"
  shows "\<exists>str'. removesSpaces_loop str i j = Some str' \<and> length str' = length str \<and>
           take j str' = take j str \<and>
           cstr (drop j str') = drop 1 (squeeze (str ! (i - 1) # cs))"
  using assms
proof (induction cs arbitrary: str i j)
  case Nil
  then have "i < length str" "str ! i = NUL"
    by (metis drop_all not_le append_self_conv2 list.distinct(1)) (metis Nil.prems(5) append_Nil hd_drop_conv_nth drop_all not_le list.distinct(1) list.sel(1))
  with Nil show ?case
    by (subst removesSpaces_loop.simps) (auto simp: cstr_def drop_update_swap takeWhile_update_NUL)
next
  case (Cons c cs)
  have lt: "i < length str"
    using Cons.prems(5) by (metis append_Cons drop_all list.distinct(1) not_le)
  then have ci: "str ! i = c" and rest: "drop (Suc i) str = cs @ NUL # post"
    using Cons.prems(5) by (simp_all add: Cons_nth_drop_Suc [symmetric])
  have c: "c \<noteq> NUL" and cs: "NUL \<notin> set cs"
    using Cons.prems(4) by auto
  note unfold = removesSpaces_loop.simps [of str i j]
  show ?case
  proof (cases "c \<noteq> CHR '' '' \<or> str ! (i - 1) \<noteq> CHR '' ''")
    case True
    let ?str = "str[j := c]"
    have same: "?str ! i = c" "drop (Suc i) ?str = drop (Suc i) str"
      using Cons.prems(2) ci lt by (auto simp: nth_list_update drop_update_cancel)
    obtain str' where str': "removesSpaces_loop ?str (Suc i) (Suc j) = Some str'" "length str' = length str"
        "take (Suc j) str' = take (Suc j) ?str" "cstr (drop (Suc j) str') = drop 1 (squeeze (c # cs))"
      using Cons.IH [of "Suc i" "Suc j" ?str] Cons.prems(2) lt cs rest same by auto
    have jl: "j < length str"
      using Cons.prems(2) lt by simp
    have "str' ! j = c"
      using str'(3) jl by (metis lessI nth_list_update_eq nth_take)
    moreover have "take j str' = take j str"
      using str'(3) by (metis Suc_n_not_le_n min.absorb1 nat_le_linear take_take take_update_cancel order_refl)
    moreover have "drop j str' = str' ! j # drop (Suc j) str'"
      using jl str'(2) by (simp add: Cons_nth_drop_Suc)
    ultimately have "cstr (drop j str') = c # drop 1 (squeeze (c # cs))"
      using c str'(4) by (simp add: cstr_def)
    also have "\<dots> = drop 1 (squeeze (str ! (i - 1) # c # cs))"
      using True squeeze_Cons_eq [of c cs] by auto
    finally show ?thesis
      using str' True lt ci c \<open>take j str' = take j str\<close> by (auto simp: unfold)
  next
    case False
    then obtain str' where "removesSpaces_loop str (Suc i) j = Some str'" "length str' = length str"
        "take j str' = take j str" "cstr (drop j str') = drop 1 (squeeze (str ! i # cs))"
      using Cons.IH [of "Suc i" j str] Cons.prems(2) lt cs rest by auto
    with False lt ci c show ?thesis
      by (auto simp: unfold)
  qed
qed

lemma removesSpaces_squeeze:
  assumes "NUL \<notin> set s" and "s \<noteq> []"
  obtains buf where "removesSpaces (s @ NUL # post) = Some buf" and "cstr buf = squeeze s" and "NUL \<in> set buf"
proof -
  obtain a cs where s: "s = a # cs"
    using assms by (cases s) auto
  let ?str = "s @ NUL # post"
  obtain buf where buf: "removesSpaces_loop ?str 1 1 = Some buf" "length buf = length ?str"
      "take 1 buf = take 1 ?str" "cstr (drop 1 buf) = drop 1 (squeeze (?str ! (1 - 1) # cs))"
    using removesSpaces_loop_squeeze [of 1 1 ?str cs post] assms s by auto
  obtain b where b: "buf = a # b"
    using buf(2,3) s by (cases buf) auto
  have "cstr buf = squeeze s"
    using buf(4) b s assms squeeze_Cons_eq [of a cs] by (auto simp: cstr_def)
  moreover have "NUL \<in> set buf"
  proof (rule ccontr)
    assume "NUL \<notin> set buf"
    then have "cstr buf = buf" by simp
    then show False
      using length_squeeze [of s] \<open>cstr buf = squeeze s\<close> buf(2) by simp
  qed
  ultimately show ?thesis
    using that buf(1) by (simp add: removesSpaces_def)
qed

section \<open>trim\<close>

lemma rstrip_snoc: "rstrip (s @ [x]) = (if c_isspace x then rstrip s else s @ [x])"
  by (induction s) auto

lemma rstrip_prefix: "\<exists>t. s = rstrip s @ t"
  by (induction s) auto

lemma rstrip_eq_Nil: "rstrip s = [] \<longleftrightarrow> (\<forall>c \<in> set s. c_isspace c)"
  by (induction s) auto

lemma rtrim_back_rstrip:
  "\<exists>c \<in> set s. \<not> c_isspace c \<Longrightarrow>
   rtrim_back (pre @ s @ r) (length pre + length s) = Some (length pre + length (rstrip s) - 1)"
proof (induction s arbitrary: r rule: rev_induct)
  case (snoc x s)
  show ?case
  proof (cases "c_isspace x")
    case True
    then have "\<exists>c \<in> set s. \<not> c_isspace c"
      using snoc.prems by auto
    from snoc.IH [OF this, of "x # r"] True show ?thesis
      by (simp add: rstrip_snoc nth_append)
  next
    case False
    then show ?thesis by (simp add: rstrip_snoc nth_append)
  qed
qed simp

lemma cstr_split:
  assumes "NUL \<in> set buf"
  obtains post where "buf = cstr buf @ NUL # post"
proof -
  have "dropWhile (\<lambda>c. c \<noteq> NUL) buf \<noteq> []"
    using assms by auto
  then obtain x post where "dropWhile (\<lambda>c. c \<noteq> NUL) buf = x # post"
    by (cases "dropWhile (\<lambda>c. c \<noteq> NUL) buf") auto
  moreover from this have "x = NUL"
    using hd_dropWhile [of "\<lambda>c. c \<noteq> NUL" buf] by auto
  ultimately show ?thesis
    using that [of post] takeWhile_dropWhile_id [of "\<lambda>c. c \<noteq> NUL" buf] by (simp add: cstr_def)
qed

lemma trim_strip:
  assumes "NUL \<in> set buf" and "\<exists>c \<in> set (cstr buf). \<not> c_isspace c"
  obtains buf' p where "trim buf 0 = Some (buf', p)" and "cstr (drop p buf') = strip (cstr buf)"
proof -
  define pre where "pre = takeWhile c_isspace (cstr buf)"
  define s where "s = dropWhile c_isspace (cstr buf)"
  obtain post where buf: "buf = cstr buf @ NUL # post"
    using assms(1) cstr_split by blast
  then have split: "buf = pre @ s @ NUL # post"
    unfolding pre_def s_def by (metis append.assoc takeWhile_dropWhile_id)
  have sNUL: "NUL \<notin> set s"
    using NUL_not_in_cstr [of buf] set_dropWhileD [of NUL c_isspace "cstr buf"] by (auto simp: s_def)
  obtain a r where s: "s = a # r" and a: "\<not> c_isspace a"
    using assms(2) unfolding s_def by (metis dropWhile_eq_Nil_conv hd_dropWhile list.exhaust_sel)
  have pre: "\<forall>c \<in> set pre. c_isspace c"
    unfolding pre_def by (auto dest: set_takeWhileD)
  then have p: "ltrim buf 0 = length pre"
    using a s by (simp add: ltrim_def split takeWhile_append)
  have "rtrim_back buf (length pre + length s) = Some (length pre + length (rstrip s) - 1)"
    unfolding split by (rule rtrim_back_rstrip) (use a s in auto)
  moreover have "c_strlen (drop (length pre) buf) = length s"
    using sNUL by (simp add: c_strlen_def split cstr_append) (simp add: cstr_def)
  moreover obtain t where t: "s = rstrip s @ t"
    using rstrip_prefix by blast
  moreover have ne: "rstrip s \<noteq> []"
    using a s by simp
  ultimately have "rtrim buf (length pre) = Some (buf[length pre + length (rstrip s) := NUL])"
    by (simp add: rtrim_def Suc_diff_le)
  moreover have "cstr (drop (length pre) (buf[length pre + length (rstrip s) := NUL])) = rstrip s"
  proof -
    have "buf = pre @ rstrip s @ t @ NUL # post"
      using split t by (metis append.assoc)
    moreover have "NUL \<notin> set (rstrip s)"
      using sNUL t by (metis UnI1 set_append)
    ultimately show ?thesis
      by (cases t) (simp_all add: list_update_append cstr_append, simp_all add: cstr_def)
  qed
  ultimately show ?thesis
    using that [of "buf[length pre + length (rstrip s) := NUL]" "length pre"] p
    by (simp add: trim_def strip_def s_def)
qed

section \<open>str_split\<close>

abbreviation nonempty_pieces :: "char \<Rightarrow> string \<Rightarrow> string list" where
  "nonempty_pieces d s \<equiv> filter (\<lambda>t. t \<noteq> []) (split_on d s)"

lemma nonempty_pieces_skip [simp]: "nonempty_pieces d (dropWhile (\<lambda>c. c = d) s) = nonempty_pieces d s"
  by (induction s) auto

lemma strtok_tokens_pieces: "strtok_tokens d s = nonempty_pieces d s"
proof (induction d s rule: strtok_tokens.induct)
  case (1 d s)
  define t where "t = dropWhile (\<lambda>c. c = d) s"
  note unfold = strtok_tokens.simps [of d s, folded t_def, unfolded Let_def]
  have skip: "nonempty_pieces d s = nonempty_pieces d t"
    by (simp add: t_def)
  show ?case
  proof (cases "t = []")
    case True
    with skip show ?thesis by (simp add: unfold)
  next
    case False
    define w where "w = takeWhile (\<lambda>c. c \<noteq> d) t"
    define r where "r = dropWhile (\<lambda>c. c \<noteq> d) t"
    have IH: "strtok_tokens d r = nonempty_pieces d r"
      using "1.IH" [of t] False by (simp add: t_def r_def)
    have t: "t = w @ r" and w: "d \<notin> set w"
      by (auto simp: w_def r_def dest: set_takeWhileD)
    have wne: "w \<noteq> []"
      using False hd_dropWhile [of "\<lambda>c. c = d" s] by (cases t) (auto simp: w_def t_def)
    have "nonempty_pieces d t = w # nonempty_pieces d r"
    proof (cases r)
      case Nil
      then show ?thesis using t w wne by simp
    next
      case (Cons x r')
      then have "x = d"
        using hd_dropWhile [of "\<lambda>c. c \<noteq> d" t] by (auto simp: r_def)
      then show ?thesis using t w wne Cons by simp
    qed
    then show ?thesis
      using IH skip False by (simp add: unfold w_def r_def)
  qed
qed

lemma split_count_count: "fst (split_count s d tmp count lc) + 1 = count + length (split_on d s)"
  by (induction s d tmp count lc rule: split_count.induct) (auto split: list.splits)

lemma split_count_last:
  "snd (split_count s d tmp count lc) = Some p \<Longrightarrow>
   lc = Some p \<or> (s \<noteq> [] \<and> p < tmp + length s \<and> (last s \<noteq> d \<longrightarrow> p + 1 < tmp + length s))"
  by (induction s d tmp count lc rule: split_count.induct) (auto split: if_splits)

lemma str_split_pieces:
  assumes "NUL \<notin> set s" and "s \<noteq> []" and "last s \<noteq> d" and "[] \<notin> set (split_on d s)"
  shows "str_split s d = Some (split_on d s)"
proof -
  obtain count lc where sc: "split_count s d 0 0 None = (count, lc)"
    by fastforce
  have "Suc count = length (split_on d s)"
    using split_count_count [of s d 0 0 None] sc by simp
  moreover have "case lc of None \<Rightarrow> True | Some p \<Rightarrow> int p < int (length s) - 1"
    using split_count_last [of s d 0 0 None] sc assms(3) by (auto split: option.splits)
  moreover have "strtok_tokens d s = split_on d s"
    using assms(4) unfolding strtok_tokens_pieces by (auto intro: filter_True)
  ultimately show ?thesis
    using assms(1) sc by (simp add: str_split_def)
qed

section \<open>Squeezed lines\<close>

lemma squeeze_dropWhile: "squeeze (dropWhile c_isspace s) = dropWhile c_isspace (squeeze s)"
  by (induction s rule: squeeze.induct) auto

lemma squeeze_eq_Nil [simp]: "squeeze s = [] \<longleftrightarrow> s = []"
  by (induction s rule: squeeze.induct) auto

lemma squeeze_rstrip: "squeeze (rstrip s) = rstrip (squeeze s)"
proof (induction s rule: squeeze.induct)
  case (1 a b s)
  then have IH: "squeeze (rstrip (b # s)) = rstrip (squeeze (b # s))"
    by blast
  show ?case
  proof (cases "rstrip (b # s)")
    case Nil
    with IH have "rstrip (squeeze (b # s)) = []"
      by simp
    with Nil show ?thesis by auto
  next
    case (Cons x xs)
    then have "x = b"
      by (auto split: if_splits)
    moreover have "rstrip (squeeze (b # s)) \<noteq> []"
      using IH Cons by (metis list.distinct(1) squeeze_eq_Nil)
    moreover have "rstrip (a # b # s) = a # rstrip (b # s)"
      using Cons by (simp split: if_splits)
    ultimately show ?thesis
      using IH Cons by auto
  qed
qed auto

lemma squeeze_idem [simp]: "squeeze (squeeze s) = squeeze s"
proof (induction s rule: squeeze.induct)
  case (1 a b s)
  then show ?case
    using squeeze_Cons_eq [of b s] by (metis squeeze.simps(1))
qed auto

lemma split_on_Cons:
  "split_on d (a # s) = (if a = d then [] # split_on d s else (a # hd (split_on d s)) # tl (split_on d s))"
  by (auto split: list.splits)

lemma filter_split_on:
  "nonempty_pieces d s = (if hd (split_on d s) = [] then [] else [hd (split_on d s)]) @
                         filter (\<lambda>t. t \<noteq> []) (tl (split_on d s))"
  by (cases "split_on d s") auto

lemma split_on_squeeze:
  "hd (split_on (CHR '' '') (squeeze s)) = hd (split_on (CHR '' '') s) \<and>
   filter (\<lambda>t. t \<noteq> []) (tl (split_on (CHR '' '') (squeeze s))) =
   filter (\<lambda>t. t \<noteq> []) (tl (split_on (CHR '' '') s))"
proof (induction s rule: squeeze.induct)
  case (1 a b s)
  then have IH: "hd (split_on (CHR '' '') (squeeze (b # s))) = hd (split_on (CHR '' '') (b # s))"
    "filter (\<lambda>t. t \<noteq> []) (tl (split_on (CHR '' '') (squeeze (b # s)))) =
     filter (\<lambda>t. t \<noteq> []) (tl (split_on (CHR '' '') (b # s)))"
    by blast+
  have all: "nonempty_pieces (CHR '' '') (squeeze (b # s)) = nonempty_pieces (CHR '' '') (b # s)"
    using IH filter_split_on by metis
  consider "a = CHR '' ''" "b = CHR '' ''" | "a = CHR '' ''" "b \<noteq> CHR '' ''" | "a \<noteq> CHR '' ''"
    by blast
  then show ?case
  proof cases
    case 1
    then show ?thesis using IH by simp
  next
    case 2
    have "split_on (CHR '' '') (CHR '' '' # u) = [] # split_on (CHR '' '') u" for u
      by simp
    with 2 all show ?thesis by (simp del: split_on.simps(2))
  next
    case 3
    then show ?thesis using IH by (simp add: split_on_Cons [of _ a] del: split_on.simps(2))
  qed
qed auto

lemma nonempty_pieces_squeeze: "nonempty_pieces (CHR '' '') (squeeze s) = nonempty_pieces (CHR '' '') s"
  using split_on_squeeze [of s] filter_split_on by metis

lemma squeezed_pieces:
  assumes "squeeze s = s" and "s \<noteq> []" and "last s \<noteq> CHR '' ''"
  shows "[] \<notin> set (tl (split_on (CHR '' '') s))"
    and "hd s \<noteq> CHR '' '' \<Longrightarrow> [] \<notin> set (split_on (CHR '' '') s)"
proof -
  have "[] \<notin> set (tl (split_on (CHR '' '') s)) \<and>
        (hd s \<noteq> CHR '' '' \<longrightarrow> [] \<notin> set (split_on (CHR '' '') s))"
    using assms
  proof (induction s)
    case (Cons a s)
    show ?case
    proof (cases s)
      case Nil
      with Cons.prems show ?thesis by simp
    next
      case (Cons b r)
      have ok: "\<not> (a = CHR '' '' \<and> b = CHR '' '')"
      proof
        assume "a = CHR '' '' \<and> b = CHR '' ''"
        then have "length (squeeze (a # s)) \<le> length s"
          using Cons length_squeeze [of s] by simp
        with Cons.prems(1) show False by simp
      qed
      then have "squeeze s = s"
        using Cons.prems(1) Cons by (auto split: if_splits)
      then have IH: "[] \<notin> set (tl (split_on (CHR '' '') s))"
          "b \<noteq> CHR '' '' \<Longrightarrow> [] \<notin> set (split_on (CHR '' '') s)"
        using Cons.IH Cons.prems Cons by auto
      then show ?thesis
        using ok by (auto simp: split_on_Cons [of _ a] simp del: split_on.simps(2))
    qed
  qed simp
  then show "[] \<notin> set (tl (split_on (CHR '' '') s))"
    and "hd s \<noteq> CHR '' '' \<Longrightarrow> [] \<notin> set (split_on (CHR '' '') s)"
    by auto
qed

lemma strip_ends:
  assumes "strip s \<noteq> []"
  shows "\<not> c_isspace (hd (strip s))" and "\<not> c_isspace (last (strip s))"
proof -
  have last: "rstrip u \<noteq> [] \<Longrightarrow> \<not> c_isspace (last (rstrip u))" for u
    by (induction u rule: rev_induct) (auto simp: rstrip_snoc)
  have hd: "rstrip u \<noteq> [] \<Longrightarrow> hd (rstrip u) = hd u" for u
    by (cases u) (auto split: if_splits)
  show "\<not> c_isspace (last (strip s))"
    using last assms by (simp add: strip_def)
  show "\<not> c_isspace (hd (strip s))"
    using assms hd hd_dropWhile [of c_isspace s] by (metis rstrip.simps(1) strip_def)
qed

lemma squeeze_strip: "squeeze (strip s) = strip (squeeze s)"
  by (simp add: strip_def squeeze_rstrip squeeze_dropWhile)

lemma set_strip: "set (strip s) \<subseteq> set s"
  using rstrip_prefix [of "dropWhile c_isspace s"] set_dropWhileD
  by (metis (no_types, lifting) Un_iff set_append strip_def subsetI)

lemma strip_nonempty: "\<exists>c \<in> set s. \<not> c_isspace c \<Longrightarrow> strip s \<noteq> []"
  by (auto simp: strip_def rstrip_eq_Nil) (metis dropWhile_eq_Nil_conv hd_dropWhile hd_in_set)

text \<open>The tokens of a line of \<^verbatim>\<open>top\<close>: its non-empty pieces between blanks.\<close>

lemma monitoring_tokens_line:
  assumes "NUL \<notin> set line" and "\<exists>c \<in> set line. \<not> c_isspace c"
  shows "monitoring_tokens (line @ NUL # post) = Some (nonempty_pieces (CHR '' '') (strip line))"
proof -
  obtain buf where buf: "removesSpaces (line @ NUL # post) = Some buf" "cstr buf = squeeze line" "NUL \<in> set buf"
    using removesSpaces_squeeze [OF assms(1)] assms(2) by (metis empty_iff empty_set)
  have "\<exists>c \<in> set (cstr buf). \<not> c_isspace c"
    using assms(2) buf(2) by (simp add: set_squeeze)
  then obtain buf' p where trim: "trim buf 0 = Some (buf', p)" "cstr (drop p buf') = strip (squeeze line)"
    using trim_strip [OF buf(3)] buf(2) by metis
  define s where "s = strip (squeeze line)"
  have s: "s = squeeze (strip line)" "s \<noteq> []" "squeeze s = s"
    using strip_nonempty [OF assms(2)] by (simp_all add: s_def squeeze_strip [symmetric])
  have ends: "hd s \<noteq> CHR '' ''" "last s \<noteq> CHR '' ''"
    using strip_ends [of "squeeze line"] s(2) by (auto simp: s_def)
  have pieces: "[] \<notin> set (split_on (CHR '' '') s)"
    using squeezed_pieces(2) [OF s(3,2)] ends by blast
  have "NUL \<notin> set s"
    using assms(1) set_strip [of "squeeze line"] by (auto simp: s_def set_squeeze)
  then have "str_split (drop p buf') (CHR '' '') = str_split s (CHR '' '')"
    using trim(2) by (simp add: str_split_def s_def)
  also have "\<dots> = Some (split_on (CHR '' '') s)"
    using \<open>NUL \<notin> set s\<close> s(2) ends(2) pieces by (rule str_split_pieces)
  also have "split_on (CHR '' '') s = nonempty_pieces (CHR '' '') s"
    by (subst filter_True) (use pieces in auto)
  also have "\<dots> = nonempty_pieces (CHR '' '') (strip line)"
    by (simp add: s(1) nonempty_pieces_squeeze)
  finally show ?thesis
    by (simp add: monitoring_tokens_def buf(1) trim(1))
qed

section \<open>Properties\<close>

text \<open>(C35) The words of a line of \<^verbatim>\<open>top\<close>: for every line with a visible character the chain \<open>removesSpaces\<close>,
  \<open>trim\<close>, \<open>str_split\<close> stays inside the buffer, passes its assertion and returns exactly the
  non-empty pieces of the stripped line between blanks.\<close>

theorem monitoring_line_tokens:
  assumes "NUL \<notin> set line" and "\<exists>c \<in> set line. \<not> c_isspace c"
  shows "monitoring_tokens (line @ NUL # post) = Some (nonempty_pieces (CHR '' '') (strip line))"
  using assms by (rule monitoring_tokens_line)

theorem monitoring_line_tokens_witness:
  "monitoring_tokens (''  1  root '' @ NUL # ''x'') = Some (nonempty_pieces (CHR '' '') (strip ''  1  root ''))"
  by (rule monitoring_line_tokens) (simp_all add: c_isspace_def)

end
