(* ===== verification/Redis_Objects.thy ===== *)
theory Redis_Objects
  imports Util_Numbers Sds_Strings
begin

text \<open>
  String objects of \<^verbatim>\<open>src/src/object.c\<close>: the three encodings of a string value (a plain sds, an
  embedded sds of at most 44 bytes, a machine integer) and the functions that convert between
  them.  Objects of the other types appear only as what they are not; a
  \<^verbatim>\<open>serverAssert\<close> or \<^verbatim>\<open>serverPanic\<close> that fails is \<^term>\<open>None\<close>.  Reference counts and the LRU
  field are not represented; arguments have the reference count 1 when they are encoded.
  The theorems show that no conversion changes the string an object stands for.
\<close>

section \<open>Objects\<close>

datatype obj_type = OBJ_LIST | OBJ_SET | OBJ_ZSET | OBJ_HASH | OBJ_MODULE | OBJ_STREAM

datatype robj = RawStr string | EmbStr string | IntEnc int | OtherObj obj_type

text \<open>The string an object stands for.\<close>

fun obj_str :: "robj \<Rightarrow> string option" where
  "obj_str (RawStr s) = Some s"
| "obj_str (EmbStr s) = Some s"
| "obj_str (IntEnc v) = Some (show_int v)"
| "obj_str (OtherObj t) = None"

text \<open>An integer that is stored in an object has 64 bits, an embedded string at most 44 bytes.\<close>

fun wf_robj :: "robj \<Rightarrow> bool" where
  "wf_robj (RawStr s) = True"
| "wf_robj (EmbStr s) = (length s \<le> 44)"
| "wf_robj (IntEnc v) = in_int64 v"
| "wf_robj (OtherObj t) = True"

fun is_string_obj :: "robj \<Rightarrow> bool" where
  "is_string_obj (OtherObj t) = False"
| "is_string_obj _ = True"

fun sdsEncodedObject :: "robj \<Rightarrow> bool" where
  "sdsEncodedObject (RawStr s) = True"
| "sdsEncodedObject (EmbStr s) = True"
| "sdsEncodedObject _ = False"

text \<open>The string \<^verbatim>\<open>ptr\<close> points to; for an integer encoded object it is no pointer.\<close>

fun obj_ptr :: "robj \<Rightarrow> string option" where
  "obj_ptr (RawStr s) = Some s"
| "obj_ptr (EmbStr s) = Some s"
| "obj_ptr _ = None"

text \<open>A buffer on the stack, with some content left from before.\<close>

definition stack_buf :: "nat \<Rightarrow> string" where
  "stack_buf n = replicate n (CHR 0xA5)"

definition createRawStringObject :: "string \<Rightarrow> robj" where
  "createRawStringObject s = RawStr s"

definition createEmbeddedStringObject :: "string \<Rightarrow> robj" where
  "createEmbeddedStringObject s = EmbStr s"

definition createStringObject :: "string \<Rightarrow> robj" where
  "createStringObject s = (if length s \<le> 44 then createEmbeddedStringObject s else createRawStringObject s)"

text \<open>\<^verbatim>\<open>LONG_MIN\<close> and \<^verbatim>\<open>LONG_MAX\<close> are the bounds of \<^verbatim>\<open>long long\<close>, so the last branch is
  never taken for a \<^verbatim>\<open>long long\<close>; a shared integer has the same content as a fresh one.\<close>

definition createStringObjectFromLongLong :: "int \<Rightarrow> robj" where
  "createStringObjectFromLongLong v =
     (if 0 \<le> v \<and> v < 10000 then IntEnc v
      else if LLONG_MIN \<le> v \<and> v \<le> LLONG_MAX then IntEnc v
      else RawStr (show_int v))"

fun tryObjectEncoding :: "robj \<Rightarrow> robj option" where
  "tryObjectEncoding (OtherObj t) = None"
| "tryObjectEncoding (IntEnc v) = Some (IntEnc v)"
| "tryObjectEncoding (RawStr s) =
     Some (case (if length s \<le> 20 then string2l s else None) of
             Some v \<Rightarrow> IntEnc v
           | None \<Rightarrow> if length s \<le> 44 then createEmbeddedStringObject s else RawStr s)"
| "tryObjectEncoding (EmbStr s) =
     Some (case (if length s \<le> 20 then string2l s else None) of
             Some v \<Rightarrow> createStringObjectFromLongLong v
           | None \<Rightarrow> EmbStr s)"

fun getDecodedObject :: "robj \<Rightarrow> robj option" where
  "getDecodedObject (RawStr s) = Some (RawStr s)"
| "getDecodedObject (EmbStr s) = Some (EmbStr s)"
| "getDecodedObject (IntEnc v) = Some (createStringObject (cstr (snd (ll2string (stack_buf 32) v))))"
| "getDecodedObject (OtherObj t) = None"

text \<open>The bytes both comparison functions work on.\<close>

fun obj_bytes :: "robj \<Rightarrow> string option" where
  "obj_bytes (RawStr s) = Some s"
| "obj_bytes (EmbStr s) = Some s"
| "obj_bytes (IntEnc v) = (let (n, buf) = ll2string (stack_buf 128) v in Some (take n buf))"
| "obj_bytes (OtherObj t) = None"

definition compareStringObjects :: "robj \<Rightarrow> robj \<Rightarrow> int option" where
  "compareStringObjects a b =
     (case (obj_bytes a, obj_bytes b) of
        (Some astr, Some bstr) \<Rightarrow>
          (let minlen = min (length astr) (length bstr);
               cmp = c_memcmp (take minlen astr) (take minlen bstr)
           in Some (if cmp = 0 then int (length astr) - int (length bstr) else cmp))
      | _ \<Rightarrow> None)"

definition equalStringObjects :: "robj \<Rightarrow> robj \<Rightarrow> bool option" where
  "equalStringObjects a b =
     (case (a, b) of
        (IntEnc v, IntEnc w) \<Rightarrow> Some (v = w)
      | _ \<Rightarrow> map_option (\<lambda>r. r = 0) (compareStringObjects a b))"

fun stringObjectLen :: "robj \<Rightarrow> nat option" where
  "stringObjectLen (RawStr s) = Some (length s)"
| "stringObjectLen (EmbStr s) = Some (length s)"
| "stringObjectLen (IntEnc v) = Some (sdigits10 v)"
| "stringObjectLen (OtherObj t) = None"

datatype c_result = C_OK | C_ERR

text \<open>A missing object (\<^verbatim>\<open>NULL\<close>) counts as 0.\<close>

fun getLongLongFromObject :: "robj option \<Rightarrow> (c_result \<times> int) option" where
  "getLongLongFromObject None = Some (C_OK, 0)"
| "getLongLongFromObject (Some (RawStr s)) =
     Some (case string2ll s of None \<Rightarrow> (C_ERR, 0) | Some v \<Rightarrow> (C_OK, v))"
| "getLongLongFromObject (Some (EmbStr s)) =
     Some (case string2ll s of None \<Rightarrow> (C_ERR, 0) | Some v \<Rightarrow> (C_OK, v))"
| "getLongLongFromObject (Some (IntEnc v)) = Some (C_OK, v)"
| "getLongLongFromObject (Some (OtherObj t)) = None"

fun isObjectRepresentableAsLongLong :: "robj \<Rightarrow> int option option" where
  "isObjectRepresentableAsLongLong (IntEnc v) = Some (Some v)"
| "isObjectRepresentableAsLongLong (RawStr s) = Some (string2ll s)"
| "isObjectRepresentableAsLongLong (EmbStr s) = Some (string2ll s)"
| "isObjectRepresentableAsLongLong (OtherObj t) = None"

section \<open>Encodings keep the string\<close>

named_theorems obj_simps \<open>strings of objects\<close>

lemma ll2string_stack:
  assumes "in_int64 v" and "21 \<le> n"
  shows "ll2string (stack_buf n) v =
           (length (show_int v), show_int v @ NUL # replicate (n - Suc (length (show_int v))) (CHR 0xA5))"
proof -
  have "length (show_int v) < length (stack_buf n)"
    using assms length_show_int [of v] by (simp add: stack_buf_def)
  with assms(1) show ?thesis
    by (simp add: ll2string_eq) (simp add: stack_buf_def)
qed

lemma obj_str_createStringObject [simp, obj_simps]: "obj_str (createStringObject s) = Some s"
  by (simp add: createStringObject_def createEmbeddedStringObject_def createRawStringObject_def)

lemma wf_createStringObject [simp]: "wf_robj (createStringObject s)"
  by (simp add: createStringObject_def createEmbeddedStringObject_def createRawStringObject_def)

lemma is_string_createStringObject [simp]: "is_string_obj (createStringObject s)"
  by (simp add: createStringObject_def createEmbeddedStringObject_def createRawStringObject_def)

lemma obj_ptr_createStringObject [simp, obj_simps]: "obj_ptr (createStringObject s) = Some s"
  by (simp add: createStringObject_def createEmbeddedStringObject_def createRawStringObject_def)

lemma obj_ptr_str: "obj_ptr ob = Some s \<Longrightarrow> obj_str ob = Some s"
  by (cases ob) auto

lemma createStringObjectFromLongLong_eq [simp, obj_simps]:
  "in_int64 v \<Longrightarrow> createStringObjectFromLongLong v = IntEnc v"
  by (simp add: createStringObjectFromLongLong_def in_int64_def)

lemma string2l_SomeD: "string2l s = Some v \<Longrightarrow> in_int64 v \<and> s = show_int v"
  by (simp add: string2l_eq string2ll_SomeD)

text \<open>The encoding a string value gets when it is stored.\<close>

definition encoded :: "string \<Rightarrow> robj" where
  "encoded s = (case string2ll s of Some v \<Rightarrow> IntEnc v | None \<Rightarrow> createStringObject s)"

lemma string2ll_length: "string2ll s = Some v \<Longrightarrow> length s \<le> 20"
  using string2ll_SomeD [of s v] length_show_int [of v] by simp

lemma tryObjectEncoding_encoded:
  assumes "obj_str ob = Some s" and "wf_robj ob"
  shows "tryObjectEncoding ob = Some (encoded s)"
proof (cases ob)
  case (IntEnc v)
  with assms show ?thesis by (auto simp: encoded_def)
next
  case (RawStr t)
  with assms show ?thesis
    by (auto simp: encoded_def string2l_eq createStringObject_def createEmbeddedStringObject_def
        createRawStringObject_def split: option.splits dest: string2ll_length)
next
  case (EmbStr t)
  with assms show ?thesis
    by (auto simp: encoded_def string2l_eq createStringObject_def createEmbeddedStringObject_def
        split: option.splits dest: string2ll_length string2ll_SomeD)
next
  case (OtherObj t)
  with assms show ?thesis by simp
qed

lemma obj_str_encoded [simp, obj_simps]: "obj_str (encoded s) = Some s"
  by (auto simp: encoded_def split: option.splits dest: string2ll_SomeD)

lemma wf_encoded [simp]: "wf_robj (encoded s)"
  by (auto simp: encoded_def split: option.splits dest: string2ll_SomeD)

lemma encoded_show_int [simp]: "in_int64 v \<Longrightarrow> encoded (show_int v) = IntEnc v"
  by (simp add: encoded_def)

lemma is_string_encoded [simp]: "is_string_obj (encoded s)"
  by (simp add: encoded_def split: option.splits)

lemma is_string_obj_iff: "is_string_obj ob \<longleftrightarrow> (\<exists>s. obj_str ob = Some s)"
  by (cases ob) auto

lemma getDecodedObject_str [simp]:
  "wf_robj ob \<Longrightarrow> obj_str ob = Some s \<Longrightarrow> \<exists>dec. getDecodedObject ob = Some dec \<and> obj_str dec = Some s \<and> sdsEncodedObject dec"
  by (cases ob)
    (auto simp: ll2string_stack createStringObject_def createEmbeddedStringObject_def
      createRawStringObject_def)

lemma obj_bytes_str: "wf_robj ob \<Longrightarrow> obj_bytes ob = obj_str ob"
  by (cases ob) (auto simp: ll2string_stack)

lemma compare_zero:
  "(if c_memcmp (take (min (length a) (length b)) a) (take (min (length a) (length b)) b) = 0
    then int (length a) - int (length b)
    else c_memcmp (take (min (length a) (length b)) a) (take (min (length a) (length b)) b)) = 0
   \<longleftrightarrow> a = b"
proof (cases "length a = length b")
  case True
  then show ?thesis using c_memcmp_0 [of a b] by simp
next
  case False
  then show ?thesis by auto
qed

lemma equalStringObjects_iff:
  assumes "wf_robj a" and "wf_robj b" and "obj_str a = Some s" and "obj_str b = Some t"
  shows "equalStringObjects a b = Some (s = t)"
proof -
  have "map_option (\<lambda>r. r = 0) (compareStringObjects a b) = Some (s = t)"
    using assms compare_zero [of s t] by (simp add: compareStringObjects_def obj_bytes_str Let_def)
  moreover have "a = IntEnc v \<Longrightarrow> b = IntEnc w \<Longrightarrow> (v = w) = (s = t)" for v w
    using assms by auto
  ultimately show ?thesis
    by (auto simp: equalStringObjects_def split: robj.splits)
qed

lemma stringObjectLen_str: "wf_robj ob \<Longrightarrow> stringObjectLen ob = map_option length (obj_str ob)"
  by (cases ob) (auto simp: sdigits10_length)

lemma getLongLongFromObject_str:
  assumes "wf_robj ob" and "obj_str ob = Some s"
  shows "getLongLongFromObject (Some ob) = Some (case string2ll s of None \<Rightarrow> (C_ERR, 0) | Some v \<Rightarrow> (C_OK, v))"
  using assms by (cases ob) auto

lemma getLongLongFromObject_range:
  "getLongLongFromObject ob = Some (C_OK, v) \<Longrightarrow> (case ob of None \<Rightarrow> True | Some x \<Rightarrow> wf_robj x) \<Longrightarrow> in_int64 v"
  by (cases ob rule: getLongLongFromObject.cases)
    (auto simp: in_int64_def split: option.splits dest: string2ll_SomeD)

end
