(* ===== verification/Aof_Format.thy ===== *)
theory Aof_Format
  imports Redis_Objects
begin

text \<open>
  The format of the sequential log: \<^verbatim>\<open>catAppendOnlyGenericCommand\<close> of \<^verbatim>\<open>src/src/aof.c\<close>, which
  writes a command to the append only file, and the reading loop that the indexers of
  \<^verbatim>\<open>src/src/instant_recovery.c\<close> run over that file record by record.  A position in the file is
  an \<^verbatim>\<open>unsigned long long\<close>, a 64-bit word.  The theorems show that a record that was written is
  read back with its command, key, value and length, whatever follows it, and that a record
  whose end is missing is always reported as an unexpected end of file.
\<close>

abbreviation CRLF :: string where "CRLF \<equiv> [CR, LF]"

section \<open>Writing\<close>

definition cat_header :: "char \<Rightarrow> nat \<Rightarrow> string" where
  "cat_header c n = (let (len, buf) = ll2string (stack_buf 31) (int n) in c # take len buf @ CRLF)"

fun cat_args :: "string \<Rightarrow> robj list \<Rightarrow> string option" where
  "cat_args dst [] = Some dst"
| "cat_args dst (x # argv) =
     (case Option.bind (getDecodedObject x) obj_str of
        None \<Rightarrow> None
      | Some s \<Rightarrow>
          cat_args (sdscatlen (sdscatlen (sdscatlen dst (cat_header (CHR ''$'') (length s))) s) CRLF) argv)"

definition catAppendOnlyGenericCommand :: "string \<Rightarrow> robj list \<Rightarrow> string option" where
  "catAppendOnlyGenericCommand dst argv =
     cat_args (sdscatlen dst (cat_header (CHR ''*'') (length argv))) argv"

section \<open>Reading\<close>

text \<open>The variables of the reading loop: the command, key and value read last (they keep their
  content when a record has fewer arguments), the text of the record, and the position in the
  file.\<close>

record rstate =
  r_command :: string
  r_key :: string
  r_value :: string
  r_log :: string
  r_seek :: "64 word"

text \<open>The error labels; a read error says whether the end of the file was reached.  A length that
  no allocation can satisfy aborts the process.\<close>

datatype rd_fail = Fmterr | Readerr bool | Oom

definition advance :: "nat \<Rightarrow> rstate \<Rightarrow> rstate" where
  "advance n st = st\<lparr>r_seek := r_seek st + of_nat n\<rparr>"

definition store_arg :: "nat \<Rightarrow> string \<Rightarrow> rstate \<Rightarrow> rstate" where
  "store_arg j argsds st =
     (if j = 0 then st\<lparr>r_command := sdscpy (r_command st) argsds\<rparr>
      else if j = 1 then st\<lparr>r_key := sdscpy (r_key st) argsds\<rparr>
      else if j = 2 then st\<lparr>r_value := sdscpy (r_value st) argsds\<rparr>
      else st)"

definition log_cat :: "string \<Rightarrow> rstate \<Rightarrow> rstate" where
  "log_cat s st = st\<lparr>r_log := sdscatlen (r_log st) s\<rparr>"

fun read_args :: "nat \<Rightarrow> nat \<Rightarrow> rstate \<Rightarrow> string \<Rightarrow> rd_fail + (rstate \<times> string)" where
  "read_args j 0 st inp = Inr (st, inp)"
| "read_args j (Suc left) st inp =
     (case c_fgets 128 inp of
        None \<Rightarrow> Inl (Readerr True)
      | Some (buf, inp) \<Rightarrow>
          (let st = log_cat (cstr buf) (advance (c_strlen buf) st) in
           if hd buf \<noteq> CHR ''$'' then Inl Fmterr
           else
             let len = to_uint64 (c_strtol (tl buf)) in
             if len \<ge> 2 ^ 63 then Inl Oom
             else
               (case (if len = 0 then Some ([], inp) else c_fread len inp) of
                  None \<Rightarrow> Inl (Readerr True)
                | Some (argsds, inp) \<Rightarrow>
                    (let st = log_cat argsds (advance len st);
                         st = (if left > 0 then log_cat ''\<newline>'' st else st);
                         st = store_arg j argsds st
                     in case c_fread 2 inp of
                          None \<Rightarrow> Inl (Readerr True)
                        | Some (_, inp) \<Rightarrow> read_args (Suc j) left (advance 2 st) inp))))"

text \<open>One record, its first line \<open>buf\<close> being read already.\<close>

definition read_record :: "rstate \<Rightarrow> string \<Rightarrow> string \<Rightarrow> rd_fail + (rstate \<times> string)" where
  "read_record st buf inp =
     (let st = (advance (c_strlen buf) st)\<lparr>r_log := sdscpy (r_log st) buf\<rparr> in
      if hd buf \<noteq> CHR ''*'' then Inl Fmterr
      else if cstr (tl buf) = []
      then Inl (Readerr (inp = [] \<and> last buf \<noteq> LF \<and> length buf < 127))
      else
        let argc = c_atoi (tl buf) in
        if argc < 1 then Inl Fmterr
        else read_args 0 (nat argc) st inp)"

definition empty_rstate :: rstate where
  "empty_rstate = \<lparr>r_command = [], r_key = [], r_value = [], r_log = [], r_seek = 0\<rparr>"

section \<open>The bytes of a record\<close>

definition header_line :: "char \<Rightarrow> nat \<Rightarrow> string" where
  "header_line c n = c # show_nat n @ CRLF"

definition bulk :: "string \<Rightarrow> string" where
  "bulk s = header_line (CHR ''$'') (length s) @ s @ CRLF"

definition aof_record :: "string list \<Rightarrow> string" where
  "aof_record ss = header_line (CHR ''*'') (length ss) @ concat (map bulk ss)"

text \<open>Arguments whose lengths fit into the types the code uses.\<close>

definition sized_args :: "string list \<Rightarrow> bool" where
  "sized_args ss \<longleftrightarrow> ss \<noteq> [] \<and> length ss \<le> 2147483647 \<and> (\<forall>s \<in> set ss. length s < 2 ^ 63)"

lemma cat_header_eq: "n < 2 ^ 63 \<Longrightarrow> cat_header c n = header_line c n"
  by (simp add: cat_header_def header_line_def ll2string_stack in_int64_def show_int_def)

lemma cat_args_eq:
  assumes "list_all2 (\<lambda>x s. wf_robj x \<and> obj_str x = Some s) argv ss" and "\<forall>s \<in> set ss. length s < 2 ^ 63"
  shows "cat_args dst argv = Some (dst @ concat (map bulk ss))"
  using assms
proof (induction argv arbitrary: ss dst)
  case (Cons x argv)
  then obtain s ss' where ss: "ss = s # ss'" "wf_robj x" "obj_str x = Some s"
      "list_all2 (\<lambda>x s. wf_robj x \<and> obj_str x = Some s) argv ss'"
    by (auto simp: list_all2_Cons1)
  moreover obtain dec where "getDecodedObject x = Some dec" "obj_str dec = Some s"
    using getDecodedObject_str [OF ss(2,3)] by blast
  ultimately show ?case
    using Cons.IH [of ss'] Cons.prems(2) by (simp add: bulk_def cat_header_eq)
qed simp

lemma catAppendOnlyGenericCommand_eq:
  assumes "list_all2 (\<lambda>x s. wf_robj x \<and> obj_str x = Some s) argv ss" and "sized_args ss"
  shows "catAppendOnlyGenericCommand dst argv = Some (dst @ aof_record ss)"
proof -
  have "length argv = length ss"
    using assms(1) by (rule list_all2_lengthD)
  with assms show ?thesis
    by (simp add: catAppendOnlyGenericCommand_def cat_args_eq cat_header_eq sized_args_def aof_record_def)
qed

section \<open>A written record is read back\<close>

text \<open>The text the indexers build for a record.\<close>

definition log_arg :: "string \<Rightarrow> string" where
  "log_arg s = header_line (CHR ''$'') (length s) @ s"

definition aof_log :: "string list \<Rightarrow> string" where
  "aof_log ss = header_line (CHR ''*'') (length ss) @ sdsjoinsds (map log_arg ss) ''\<newline>''"

lemma header_line_no_NUL [simp]: "c \<noteq> NUL \<Longrightarrow> NUL \<notin> set (header_line c n)"
  by (simp add: header_line_def)

lemma header_line_hd [simp]: "hd (header_line c n) = c" "header_line c n \<noteq> []"
  by (simp_all add: header_line_def)

lemma tl_header_line [simp]: "tl (header_line c n) = show_nat n @ CRLF"
  by (simp add: header_line_def)

lemma length_header_line: "n < 2 ^ 63 \<Longrightarrow> length (header_line c n) \<le> 22"
  using length_show_nat_le [of n 18] by (simp add: header_line_def)

lemma c_fgets_header:
  assumes "n < 2 ^ 63" and "c \<noteq> LF"
  shows "c_fgets 128 (header_line c n @ rest) = Some (header_line c n, rest)"
  using c_fgets_line [of "c # show_nat n @ [CR]" 128 rest] length_header_line [OF assms(1), of c] assms(2)
  by (simp add: header_line_def)

lemma strtol_header: "n < 2 ^ 63 \<Longrightarrow> to_uint64 (c_strtol (show_nat n @ CRLF)) = n"
  by (simp add: to_uint64_def)

lemma atoi_header: "n \<le> 2147483647 \<Longrightarrow> c_atoi (show_nat n @ CRLF) = int n"
  by simp

text \<open>What reading the arguments does to the variables.\<close>

fun after_args :: "nat \<Rightarrow> string list \<Rightarrow> rstate \<Rightarrow> rstate" where
  "after_args j [] st = st"
| "after_args j (s # ss) st = after_args (Suc j) ss
     (advance 2 (store_arg j s
       ((if ss \<noteq> [] then log_cat ''\<newline>'' else id)
         (log_cat s (advance (length s)
           (log_cat (header_line (CHR ''$'') (length s))
             (advance (length (header_line (CHR ''$'') (length s))) st)))))))"

lemma read_args_bulk:
  assumes "length s < 2 ^ 63"
  shows "read_args j (Suc left) st (bulk s @ rest) =
           read_args (Suc j) left
             (advance 2 (store_arg j s
               ((if 0 < left then log_cat ''\<newline>'' else id)
                 (log_cat s (advance (length s)
                   (log_cat (header_line (CHR ''$'') (length s))
                     (advance (length (header_line (CHR ''$'') (length s))) st))))))) rest"
proof -
  have get: "c_fgets 128 (bulk s @ rest) = Some (header_line (CHR ''$'') (length s), s @ CRLF @ rest)"
    using c_fgets_header [OF assms] by (simp add: bulk_def)
  have len: "to_uint64 (c_strtol (tl (header_line (CHR ''$'') (length s)))) = length s" "\<not> 2 ^ 63 \<le> length s"
    using assms strtol_header [OF assms] by (simp_all only: tl_header_line not_le)
  have arg: "(if length s = 0 then Some ([], s @ CRLF @ rest) else c_fread (length s) (s @ CRLF @ rest)) =
               Some (s, CRLF @ rest)"
    by simp
  have crlf: "c_fread 2 (CRLF @ rest) = Some (CRLF, rest)"
    by (rule c_fread_exact) simp
  show ?thesis
    unfolding read_args.simps get option.case prod.case Let_def len arg crlf
    using len(2) by (simp add: c_strlen_def)
qed

declare read_args.simps(2) [simp del]

lemma read_args_bulks:
  assumes "\<forall>s \<in> set ss. length s < 2 ^ 63"
  shows "read_args j (length ss) st (concat (map bulk ss) @ rest) = Inr (after_args j ss st, rest)"
  using assms by (induction ss arbitrary: j st) (simp_all add: read_args_bulk)

lemma advance_advance [simp]: "advance m (advance n st) = advance (n + m) st"
  by (simp add: advance_def add.assoc)

lemma advance_commute [simp]:
  "store_arg j s (advance n st) = advance n (store_arg j s st)"
  "log_cat t (advance n st) = advance n (log_cat t st)"
  by (simp_all add: advance_def store_arg_def log_cat_def)

lemma log_cat_store [simp]: "store_arg j s (log_cat t st) = log_cat t (store_arg j s st)"
  by (simp add: store_arg_def log_cat_def)

lemma log_cat_log_cat [simp]: "log_cat t (log_cat s st) = log_cat (s @ t) st"
  by (simp add: log_cat_def)

fun store_args :: "nat \<Rightarrow> string list \<Rightarrow> rstate \<Rightarrow> rstate" where
  "store_args j [] st = st"
| "store_args j (s # ss) st = store_args (Suc j) ss (store_arg j s st)"

lemma store_args_move [simp]:
  "store_args j ss (advance n st) = advance n (store_args j ss st)"
  "store_args j ss (log_cat t st) = log_cat t (store_args j ss st)"
  by (induction ss arbitrary: j st) auto

lemma store_arg_log [simp]: "store_arg j s (st\<lparr>r_log := l\<rparr>) = (store_arg j s st)\<lparr>r_log := l\<rparr>"
  by (simp add: store_arg_def)

lemma store_args_log [simp]: "store_args j ss (st\<lparr>r_log := l\<rparr>) = (store_args j ss st)\<lparr>r_log := l\<rparr>"
  by (induction ss arbitrary: j st) auto

lemma length_bulk: "length (bulk s) = length (header_line (CHR ''$'') (length s)) + length s + 2"
  by (simp add: bulk_def)

lemma after_args_eq:
  "after_args j ss st =
     log_cat (sdsjoinsds (map log_arg ss) ''\<newline>'')
       (advance (length (concat (map bulk ss))) (store_args j ss st))"
proof (induction ss arbitrary: j st)
  case Nil
  then show ?case by (simp add: log_cat_def advance_def)
next
  case (Cons s ss)
  then show ?case
    by (cases "ss = []") (simp_all add: log_arg_def length_bulk sdsjoinsds_Cons ac_simps)
qed

text \<open>The command, key and value of a record.\<close>

definition record_vars :: "string list \<Rightarrow> rstate \<Rightarrow> rstate" where
  "record_vars ss st = (store_args 0 ss st)\<lparr>r_log := aof_log ss\<rparr>"

lemma read_record_aof:
  assumes "sized_args ss"
  shows "read_record st (header_line (CHR ''*'') (length ss)) (concat (map bulk ss) @ rest) =
           Inr (advance (length (aof_record ss)) (record_vars ss st), rest)"
proof -
  have argc: "0 < length ss" "length ss \<le> 2147483647"
    using assms by (auto simp: sized_args_def)
  have args: "\<forall>s \<in> set ss. length s < 2 ^ 63"
    using assms by (simp add: sized_args_def)
  let ?h = "header_line (CHR ''*'') (length ss)"
  define st1 where "st1 = (advance (length ?h) st)\<lparr>r_log := ?h\<rparr>"
  have "read_record st ?h (concat (map bulk ss) @ rest) = Inr (after_args 0 ss st1, rest)"
    using argc read_args_bulks [OF args] by (simp add: read_record_def c_strlen_def st1_def)
  then show ?thesis
    by (simp add: after_args_eq st1_def record_vars_def aof_log_def aof_record_def)
      (simp add: advance_def log_cat_def)
qed

lemma store_args_keep:
  "0 < j \<Longrightarrow> r_command (store_args j ss st) = r_command st"
  "1 < j \<Longrightarrow> r_key (store_args j ss st) = r_key st"
  "2 < j \<Longrightarrow> r_value (store_args j ss st) = r_value st"
  by (induction ss arbitrary: j st) (auto simp: store_arg_def)

lemma record_vars_simps [simp]:
  "r_command (record_vars (c # ss) st) = cstr c"
  "r_key (record_vars (c # k # ss) st) = cstr k"
  "r_value (record_vars (c # k # v # ss) st) = cstr v"
  "r_key (record_vars [c] st) = r_key st"
  "r_value (record_vars [c] st) = r_value st"
  "r_value (record_vars [c, k] st) = r_value st"
  "r_log (record_vars ss st) = aof_log ss"
  by (simp_all add: record_vars_def store_args_keep) (simp_all add: store_arg_def)

section \<open>A record without its end\<close>

lemma c_fgets_no_line: "inp \<noteq> [] \<Longrightarrow> LF \<notin> set inp \<Longrightarrow> length inp < n \<Longrightarrow> c_fgets n inp = Some (inp, [])"
  by (simp add: c_fgets_def first_line_def)

lemma digits_val_prefix: "digits_val 0 xs \<le> digits_val 0 (xs @ ys)"
  using digits_val_ge by (simp add: digits_val_append)

lemma c_strtol_digits:
  assumes "\<forall>c \<in> set p. c_isdigit c"
  shows "c_strtol p = clamp64 (int (digits_val 0 p))"
proof -
  have "NUL \<notin> set p"
    using assms not_digit_simps(4) by blast
  moreover have "dropWhile c_isspace p = p"
    using assms digit_not_space by (cases p) auto
  moreover have "strtol_sign p = (1, p)"
    using assms by (cases p) auto
  ultimately show ?thesis
    by (simp add: c_strtol_def takeWhile_eq_all_conv [THEN iffD2, OF assms])
qed

text \<open>A header line without its end gives a length that is not larger than the full one.\<close>

lemma strtol_prefix:
  assumes "p @ q = show_nat n @ [CR]" and "n < 2 ^ 63"
  shows "0 \<le> c_strtol p \<and> c_strtol p \<le> int n"
proof (cases q rule: rev_cases)
  case Nil
  then show ?thesis using assms by simp
next
  case (snoc q' c)
  then have digits: "p @ q' = show_nat n"
    using assms(1) by simp
  then have "\<forall>c \<in> set p. c_isdigit c"
    using show_nat_digits [of _ n] by (metis UnI1 set_append)
  moreover have "digits_val 0 p \<le> n"
    using digits_val_prefix [of p q'] digits by simp
  ultimately show ?thesis
    using assms(2) by (simp add: c_strtol_digits in_int64_def)
qed

lemma strtol_prefix_pos:
  assumes "p @ q = show_nat n @ [CR]" and "n < 2 ^ 63" and "n \<noteq> 0" and "p \<noteq> []"
  shows "0 < c_strtol p"
proof (cases q rule: rev_cases)
  case Nil
  then show ?thesis using assms by simp
next
  case (snoc q' c)
  then have digits: "p @ q' = show_nat n"
    using assms(1) by simp
  then have isd: "\<forall>c \<in> set p. c_isdigit c"
    using show_nat_digits [of _ n] by (metis UnI1 set_append)
  have "hd p \<noteq> CHR ''0''"
    using digits assms(3,4) show_nat_hd_zero by (metis hd_append2)
  moreover obtain d ds where p: "p = d # ds"
    using assms(4) by (cases p) auto
  ultimately have "digit_val d \<noteq> 0"
    using isd digit_char_val [of d] digit_char_zero by (metis list.sel(1) list.set_intros(1))
  then have "0 < digits_val 0 p"
    using digits_val_ge [of "digit_val d" ds] p by simp
  moreover have "digits_val 0 p \<le> n"
    using digits_val_prefix [of p q'] digits by simp
  ultimately show ?thesis
    using assms(2) isd by (simp add: c_strtol_digits in_int64_def)
qed

lemma header_prefix:
  assumes "p @ q = header_line c n" and "p \<noteq> []" and "q \<noteq> []"
  obtains p' q' where "p = c # p'" and "p' @ q' = show_nat n @ [CR]"
proof -
  obtain p' where p: "p = c # p'"
    using assms(1,2) by (cases p) (auto simp: header_line_def)
  obtain q' d where "q = q' @ [d]"
    using assms(3) by (cases q rule: rev_cases) auto
  with assms(1) p have "p' @ q' @ [d] = show_nat n @ [CR] @ [LF]"
    by (simp add: header_line_def)
  then have "p' @ q' = show_nat n @ [CR]"
    by (metis append.assoc append1_eq_conv)
  with p that show ?thesis by blast
qed

lemma header_prefix_line:
  assumes "p @ q = header_line c n" and "p \<noteq> []" and "q \<noteq> []" and "n < 2 ^ 63" and "c \<noteq> LF"
  shows "c_fgets 128 p = Some (p, [])"
proof (rule c_fgets_no_line)
  obtain p' q' where p: "p = c # p'" "p' @ q' = show_nat n @ [CR]"
    using header_prefix assms(1-3) by blast
  have "LF \<notin> set (show_nat n @ [CR])"
    by simp
  then have "LF \<notin> set p'"
    using p(2) by (metis UnI1 set_append)
  then show "LF \<notin> set p"
    using p(1) assms(5) by simp
  show "length p < 128"
    using length_header_line [OF assms(4), of c] arg_cong [OF assms(1), of length] by simp
qed (rule assms)

lemma append_proper_prefix:
  assumes "p @ q = h @ r"
  obtains q' where "h = p @ q'" and "q' \<noteq> []" | p' where "p = h @ p'" and "p' @ q = r"
proof -
  obtain us where "p = h @ us \<and> us @ q = r \<or> p @ us = h \<and> q = us @ r"
    using assms by (auto simp: append_eq_append_conv2)
  then show ?thesis
    using that by (cases "us = []") auto
qed

lemma read_args_torn:
  assumes "p @ q = concat (map bulk ss)" and "q \<noteq> []" and "\<forall>s \<in> set ss. length s < 2 ^ 63"
  shows "read_args j (length ss) st p = Inl (Readerr True)"
  using assms
proof (induction ss arbitrary: j st p)
  case Nil
  then show ?case by simp
next
  case (Cons s ss)
  have len: "length s < 2 ^ 63" and fits: "\<forall>s \<in> set ss. length s < 2 ^ 63"
    using Cons.prems(3) by simp_all
  let ?h = "header_line (CHR ''$'') (length s)"
  have eq: "p @ q = ?h @ s @ CRLF @ concat (map bulk ss)"
    using Cons.prems(1) by (simp add: bulk_def [of s])
  note unfold = read_args.simps(2) [of j "length ss" st p]
  consider "p = []" | h' where "?h = p @ h'" "h' \<noteq> []" "p \<noteq> []"
    | p' where "p = ?h @ p'" "p' @ q = s @ CRLF @ concat (map bulk ss)"
    using append_proper_prefix [OF eq] by metis
  then show ?case
  proof cases
    case 1
    then show ?thesis by (simp add: read_args.simps(2) c_fgets_def)
  next
    case 2
    then have get: "c_fgets 128 p = Some (p, [])"
      using header_prefix_line [OF 2(1) [symmetric] 2(3,2) len] by simp
    obtain p' q' where p: "p = CHR ''$'' # p'" "p' @ q' = show_nat (length s) @ [CR]"
      using 2 header_prefix by metis
    have "0 \<le> c_strtol p'" "c_strtol p' \<le> int (length s)"
      using strtol_prefix [OF p(2) len] by auto
    then have "\<not> 2 ^ 63 \<le> to_uint64 (c_strtol p')"
      using len by (simp add: to_uint64_def nat_le_iff)
    moreover have "c_fread n [] = (if n = 0 then Some ([], []) else None)" for n
      by (simp add: c_fread_def)
    ultimately show ?thesis
      using get p(1) by (simp add: read_args.simps(2) Let_def)
  next
    case 3
    show ?thesis
    proof (cases "length s \<le> length p'")
      case False
      then have "c_fread (length s) p' = None" "length s \<noteq> 0"
        by (auto simp: c_fread_def)
      moreover have "c_fgets 128 p = Some (?h, p')"
        using 3(1) c_fgets_header [OF len] by simp
      ultimately show ?thesis
        using len strtol_header [OF len] by (simp add: unfold Let_def del: c_strtol_show_nat_append)
    next
      case True
      then obtain p2 where p2: "p' = s @ p2" "p2 @ q = CRLF @ concat (map bulk ss)"
        using 3(2) by (auto simp: append_eq_append_conv2)
      show ?thesis
      proof (cases "length p2 < 2")
        case True
        then have "c_fread 2 p2 = None"
          by (simp add: c_fread_def)
        moreover have "(if length s = 0 then Some ([], s @ p2) else c_fread (length s) (s @ p2)) = Some (s, p2)"
          by simp
        moreover have "c_fgets 128 p = Some (?h, s @ p2)"
          using 3(1) p2(1) c_fgets_header [OF len] by simp
        moreover have "\<not> 2 ^ 63 \<le> length s"
          using len by simp
        ultimately show ?thesis
          using strtol_header [OF len]
          by (simp add: unfold Let_def del: c_strtol_show_nat_append length_0_conv)
      next
        case False
        then obtain p3 where "p2 = CRLF @ p3"
          using p2(2) by (cases p2; cases "tl p2") auto
        then have "p = bulk s @ p3" "p3 @ q = concat (map bulk ss)"
          using 3(1) p2 by (simp_all add: bulk_def)
        then show ?thesis
          using Cons.IH [OF _ Cons.prems(2) fits] len by (simp add: read_args_bulk)
      qed
    qed
  qed
qed

lemma read_record_torn:
  assumes "p @ q = aof_record ss" and "p \<noteq> []" and "q \<noteq> []" and "sized_args ss"
  obtains buf inp where "c_fgets 128 p = Some (buf, inp)" and "read_record st buf inp = Inl (Readerr True)"
proof -
  let ?h = "header_line (CHR ''*'') (length ss)"
  have args: "\<forall>s \<in> set ss. length s < 2 ^ 63" and n: "0 < length ss" "length ss \<le> 2147483647"
    using assms(4) by (auto simp: sized_args_def)
  then have len: "length ss < 2 ^ 63"
    by simp
  have "p @ q = ?h @ concat (map bulk ss)"
    using assms(1) by (simp add: aof_record_def)
  then consider h' where "?h = p @ h'" "h' \<noteq> []" | p' where "p = ?h @ p'" "p' @ q = concat (map bulk ss)"
    using append_proper_prefix by metis
  then show thesis
  proof cases
    case 1
    obtain p' q' where p: "p = CHR ''*'' # p'" "p' @ q' = show_nat (length ss) @ [CR]"
      using header_prefix [of p h' "CHR ''*''" "length ss"] 1 assms(2) by metis
    have "NUL \<notin> set (p' @ q')" "LF \<notin> set (p' @ q')"
      unfolding p(2) by simp_all
    then have clean: "cstr p' = p'" "LF \<notin> set p"
      using p(1) by simp_all
    have short: "length p < 127"
      using length_header_line [OF len, of "CHR ''*''"] arg_cong [OF 1(1), of length] by simp
    have "read_record st p [] = Inl (Readerr True)"
    proof (cases "p' = []")
      case True
      then show ?thesis using p(1) by (simp add: read_record_def)
    next
      case False
      have "0 < c_strtol p'" "c_strtol p' \<le> int (length ss)"
        using strtol_prefix [OF p(2) len] strtol_prefix_pos [OF p(2) len _ False] n(1) by auto
      then have "1 \<le> c_atoi p'"
        using n(2) by (simp add: c_atoi_def in_int32_def)
      then obtain m where "nat (c_atoi p') = Suc m"
        by (cases "nat (c_atoi p')") auto
      with \<open>1 \<le> c_atoi p'\<close> show ?thesis
        using p(1) clean False by (simp add: read_record_def Let_def read_args.simps(2) c_fgets_def)
    qed
    then show thesis
      using that header_prefix_line [OF 1(1) [symmetric] assms(2) 1(2) len] by simp
  next
    case 2
    have "c_fgets 128 p = Some (?h, p')"
      using 2(1) c_fgets_header [OF len] by simp
    moreover have "read_record st ?h p' = Inl (Readerr True)"
      using read_args_torn [OF 2(2) assms(3) args] n by (simp add: read_record_def Let_def)
    ultimately show thesis
      using that by blast
  qed
qed

section \<open>Reading consumes input\<close>

lemma read_args_shorter: "read_args j n st inp = Inr (st', inp') \<Longrightarrow> length inp' \<le> length inp"
proof (induction n arbitrary: j st inp)
  case (Suc n)
  obtain buf inp1 where get: "c_fgets 128 inp = Some (buf, inp1)"
    using Suc.prems by (cases "c_fgets 128 inp") (auto simp: read_args.simps(2))
  let ?len = "to_uint64 (c_strtol (tl buf))"
  obtain arg inp2 where arg: "(if ?len = 0 then Some ([], inp1) else c_fread ?len inp1) = Some (arg, inp2)"
    using Suc.prems get
    by (cases "if ?len = 0 then Some ([], inp1) else c_fread ?len inp1")
      (auto simp: read_args.simps(2) Let_def split: if_splits option.splits)
  obtain x inp3 where crlf: "c_fread 2 inp2 = Some (x, inp3)"
    using Suc.prems get arg
    by (cases "c_fread 2 inp2") (auto simp: read_args.simps(2) Let_def split: if_splits option.splits)
  have "length inp3 \<le> length inp"
    using c_fgets_shorter [OF get] c_fread_shorter [OF crlf] arg c_fread_shorter [of ?len inp1]
    by (auto split: if_splits)
  moreover obtain st3 where "read_args (Suc j) n st3 inp3 = Inr (st', inp')"
    using Suc.prems get arg crlf by (auto simp: read_args.simps(2) Let_def split: if_splits)
  ultimately show ?case
    using Suc.IH by fastforce
qed simp

lemma read_record_shorter: "read_record st buf inp = Inr (st', inp') \<Longrightarrow> length inp' \<le> length inp"
  by (auto simp: read_record_def Let_def split: if_splits dest: read_args_shorter)

lemma next_record_shorter:
  "c_fgets 128 inp = Some (buf, inp1) \<Longrightarrow> read_record st buf inp1 = Inr (st', inp2) \<Longrightarrow> length inp2 < length inp"
  by (auto dest!: c_fgets_shorter read_record_shorter)

text \<open>The first line of a record.\<close>

lemma aof_record_line:
  "sized_args ss \<Longrightarrow>
   c_fgets 128 (aof_record ss @ rest) = Some (header_line (CHR ''*'') (length ss), concat (map bulk ss) @ rest)"
  by (simp add: aof_record_def c_fgets_header sized_args_def)

lemma aof_record_nonempty [simp]: "aof_record ss \<noteq> []"
  by (simp add: aof_record_def header_line_def)

section \<open>Properties\<close>



text \<open>(C13) A torn record is never taken for a complete one: of every record that was written, each proper,
  non-empty initial part makes the reading loop report an unexpected end of file.\<close>

theorem torn_record_detected:
  assumes "p @ q = aof_record ss" and "p \<noteq> []" and "q \<noteq> []" and "sized_args ss"
  shows "\<exists>buf inp. c_fgets 128 p = Some (buf, inp) \<and> read_record st buf inp = Inl (Readerr True)"
  using read_record_torn [OF assms] by metis

theorem torn_record_detected_witness:
  "\<exists>buf inp. c_fgets 128 ''*1'' = Some (buf, inp) \<and> read_record empty_rstate buf inp = Inl (Readerr True)"
proof (rule torn_record_detected)
  show "''*1'' @ CRLF @ bulk ''PING'' = aof_record [''PING'']"
    by (simp add: aof_record_def header_line_def show_nat.simps digit_char_numerals [unfolded One_nat_def])
qed (simp_all add: sized_args_def)

end
