(* ===== verification/Indexed_Log.thy ===== *)
theory Indexed_Log
  imports IR_Prelude "HOL-Library.List_Lexorder" "HOL-Library.Char_ord"
begin

text \<open>
  The indexed log (\<^verbatim>\<open>src/src/instant_recovery.c\<close>, the functions on Berkeley DB).  Berkeley DB
  itself is not part of the sources: its operations are a parameter, a record of functions
  \<open>B\<close>, and the locale \<open>berkeley_db\<close> states what its documentation promises for a database
  opened with \<^verbatim>\<open>DB_DUP\<close>: the records of a key stay together, a new one is added after the
  others, a deletion removes all of them, a cursor runs over the records in one order.
  \<open>recs db\<close> is the sequence of records a fresh cursor meets, \<open>rest db c\<close> what a cursor has
  still before it and \<open>cur c\<close> the key it stands on.

  The locale \<open>indexed_log\<close> is the interface the indexers and the restorer use: the records
  of a key after an insertion and after a deletion.  It holds for the functions
  \<open>addRecordIndexedLog\<close> and \<open>delRecordIndexdLog\<close> over any Berkeley DB.  The database
  \<open>btree_db\<close> at the end is a B-tree's record sequence with its documented key order.
\<close>

section \<open>Berkeley DB as a parameter\<close>

datatype db_op = DB_NEXT | DB_NEXT_NODUP | DB_NEXT_DUP | DB_SET string

text \<open>An operation returns an error code (0 for success); a cursor that finds no record
  (\<^verbatim>\<open>DB_NOTFOUND\<close>) gives \<^term>\<open>None\<close>.  A DBT is its bytes, the terminating NUL included.\<close>

record ('db, 'c) bdb =
  bdb_put :: "'db \<Rightarrow> string \<Rightarrow> string \<Rightarrow> int \<times> 'db"
  bdb_del :: "'db \<Rightarrow> string \<Rightarrow> int \<times> 'db"
  bdb_get :: "'db \<Rightarrow> string \<Rightarrow> int \<times> string"
  bdb_cursor :: "'db \<Rightarrow> 'c"
  bdb_cget :: "'db \<Rightarrow> 'c \<Rightarrow> db_op \<Rightarrow> ((string \<times> string) \<times> 'c) option"

definition DB_NOTFOUND :: int where "DB_NOTFOUND = - 30988"

section \<open>The code\<close>

definition dbt :: "string \<Rightarrow> string" where
  "dbt s = cstr s @ [NUL]"

definition addDataBerkeleyDB :: "('db, 'c) bdb \<Rightarrow> 'db \<Rightarrow> string \<Rightarrow> string \<Rightarrow> int \<times> 'db" where
  "addDataBerkeleyDB B db key data = bdb_put B db key data"

definition getDataBerkeleyDB :: "('db, 'c) bdb \<Rightarrow> 'db \<Rightarrow> string \<Rightarrow> string" where
  "getDataBerkeleyDB B db key = snd (bdb_get B db key)"

definition delDataBerkeleyDB :: "('db, 'c) bdb \<Rightarrow> 'db \<Rightarrow> string \<Rightarrow> int \<times> 'db" where
  "delDataBerkeleyDB B db key = bdb_del B db key"

definition addRecordIndexedLog :: "('db, 'c) bdb \<Rightarrow> 'db \<Rightarrow> string \<Rightarrow> string \<Rightarrow> int \<times> 'db" where
  "addRecordIndexedLog B dbp key data = addDataBerkeleyDB B dbp (dbt key) (dbt data)"

definition getRecordIndexedLog :: "('db, 'c) bdb \<Rightarrow> 'db \<Rightarrow> string \<Rightarrow> string option" where
  "getRecordIndexedLog B dbp key =
     (case bdb_get B dbp (dbt key) of (error, data) \<Rightarrow> if error \<noteq> 0 then None else Some (cstr data))"

definition delRecordIndexdLog :: "('db, 'c) bdb \<Rightarrow> 'db \<Rightarrow> string \<Rightarrow> int \<times> 'db" where
  "delRecordIndexdLog B dbp key = delDataBerkeleyDB B dbp (dbt key)"

text \<open>The callers ignore the error codes.\<close>

abbreviation add_log :: "('db, 'c) bdb \<Rightarrow> 'db \<Rightarrow> string \<Rightarrow> string \<Rightarrow> 'db" where
  "add_log B dbp key data \<equiv> snd (addRecordIndexedLog B dbp key data)"

abbreviation del_log :: "('db, 'c) bdb \<Rightarrow> 'db \<Rightarrow> string \<Rightarrow> 'db" where
  "del_log B dbp key \<equiv> snd (delRecordIndexdLog B dbp key)"

text \<open>A loop over a cursor may run forever on a faulty database, so the counting and printing
  loops return \<^term>\<open>None\<close> when they do not end.\<close>

partial_function (option) cursor_count :: "('db, 'c) bdb \<Rightarrow> 'db \<Rightarrow> db_op \<Rightarrow> 'c \<Rightarrow> nat \<Rightarrow> nat option" where
  "cursor_count B dbp opn cursorp count =
     (case bdb_cget B dbp cursorp opn of
        None \<Rightarrow> Some count
      | Some (_, cursorp) \<Rightarrow> cursor_count B dbp opn cursorp (count + 1))"

definition countRecordsIndexedLog :: "('db, 'c) bdb \<Rightarrow> 'db \<Rightarrow> nat option" where
  "countRecordsIndexedLog B dbp = cursor_count B dbp DB_NEXT (bdb_cursor B dbp) 0"

definition countTuplesIndexedLog :: "('db, 'c) bdb \<Rightarrow> 'db \<Rightarrow> nat option" where
  "countTuplesIndexedLog B dbp = cursor_count B dbp DB_NEXT_NODUP (bdb_cursor B dbp) 0"

partial_function (option) printIndexedLog_loop :: "('db, 'c) bdb \<Rightarrow> 'db \<Rightarrow> 'c \<Rightarrow> nat \<Rightarrow> string \<Rightarrow> string option" where
  "printIndexedLog_loop B dbp cursorp i out =
     (case bdb_cget B dbp cursorp DB_NEXT of
        None \<Rightarrow> Some out
      | Some ((key, data), cursorp) \<Rightarrow>
          printIndexedLog_loop B dbp cursorp (i + 1)
            (out @ show_nat i @ '': Key['' @ cstr key @ ''] => log['' @ cstr data @ '']\<newline>''))"

definition printIndexedLog :: "('db, 'c) bdb \<Rightarrow> 'db \<Rightarrow> string option" where
  "printIndexedLog B dbp = printIndexedLog_loop B dbp (bdb_cursor B dbp) 1 ''Indexed log:\<newline>''"

section \<open>Sequences of records\<close>

named_theorems index_simps \<open>records of a key\<close>

definition dups :: "string \<Rightarrow> (string \<times> string) list \<Rightarrow> string list" where
  "dups k xs = map snd (filter (\<lambda>p. fst p = k) xs)"

fun grouped :: "(string \<times> string) list \<Rightarrow> bool" where
  "grouped [] = True"
| "grouped (p # xs) = (fst p \<notin> fst ` set (dropWhile (\<lambda>q. fst q = fst p) xs) \<and> grouped xs)"

lemma dups_Nil [simp]: "dups k [] = []"
  by (simp add: dups_def)

lemma dups_Cons [simp]: "dups k (p # xs) = (if fst p = k then [snd p] else []) @ dups k xs"
  by (simp add: dups_def)

lemma dups_append [simp]: "dups k (xs @ ys) = dups k xs @ dups k ys"
  by (simp add: dups_def)

lemma dups_eq_Nil: "dups k xs = [] \<longleftrightarrow> k \<notin> fst ` set xs"
  by (auto simp: dups_def filter_empty_conv)

lemma grouped_drop: "grouped (xs @ ys) \<Longrightarrow> grouped ys"
  by (induction xs) auto

lemma dups_group:
  assumes "grouped (p # xs)"
  shows "dups (fst p) xs = map snd (takeWhile (\<lambda>q. fst q = fst p) xs)"
proof -
  let ?tw = "takeWhile (\<lambda>q. fst q = fst p) xs" and ?dw = "dropWhile (\<lambda>q. fst q = fst p) xs"
  have "dups (fst p) xs = dups (fst p) ?tw @ dups (fst p) ?dw"
    by (metis dups_append takeWhile_dropWhile_id)
  moreover have "dups (fst p) ?dw = []"
    using assms by (simp add: dups_eq_Nil)
  moreover have "filter (\<lambda>q. fst q = fst p) ?tw = ?tw"
    by (rule filter_True) (auto dest: set_takeWhileD)
  then have "dups (fst p) ?tw = map snd ?tw"
    by (simp add: dups_def)
  ultimately show ?thesis by simp
qed

text \<open>The log records stored under the bytes of a key, as the C code reads them.\<close>

definition index_records :: "('db \<Rightarrow> (string \<times> string) list) \<Rightarrow> 'db \<Rightarrow> string \<Rightarrow> string list" where
  "index_records recs db key = map cstr (dups key (recs db))"

text \<open>What each cursor operation finds in the records it has before it.\<close>

fun cursor_next :: "string option \<Rightarrow> (string \<times> string) list \<Rightarrow> db_op \<Rightarrow> (string \<times> string) list \<Rightarrow>
    ((string \<times> string) \<times> (string \<times> string) list) option" where
  "cursor_next k xs DB_NEXT all = (case xs of [] \<Rightarrow> None | p # r \<Rightarrow> Some (p, r))"
| "cursor_next k xs DB_NEXT_NODUP all =
     (case dropWhile (\<lambda>p. Some (fst p) = k) xs of [] \<Rightarrow> None | p # r \<Rightarrow> Some (p, r))"
| "cursor_next k xs DB_NEXT_DUP all =
     (case xs of [] \<Rightarrow> None | p # r \<Rightarrow> if Some (fst p) = k then Some (p, r) else None)"
| "cursor_next k xs (DB_SET key) all =
     (case dropWhile (\<lambda>p. fst p \<noteq> key) all of [] \<Rightarrow> None | p # r \<Rightarrow> Some (p, r))"

section \<open>The contract of Berkeley DB\<close>

locale berkeley_db =
  fixes B :: "('db, 'c) bdb"
    and recs :: "'db \<Rightarrow> (string \<times> string) list"
    and rest :: "'db \<Rightarrow> 'c \<Rightarrow> (string \<times> string) list"
    and cur :: "'c \<Rightarrow> string option"
  assumes grouped_recs: "grouped (recs db)"
    and put_ok: "fst (bdb_put B db k d) = 0"
    and put_same: "dups k (recs (snd (bdb_put B db k d))) = dups k (recs db) @ [d]"
    and put_other: "k' \<noteq> k \<Longrightarrow> dups k' (recs (snd (bdb_put B db k d))) = dups k' (recs db)"
    and del_result: "fst (bdb_del B db k) = (if dups k (recs db) = [] then DB_NOTFOUND else 0)"
    and del_same: "dups k (recs (snd (bdb_del B db k))) = []"
    and del_other: "k' \<noteq> k \<Longrightarrow> dups k' (recs (snd (bdb_del B db k))) = dups k' (recs db)"
    and get_first: "dups k (recs db) = d # ds \<Longrightarrow> bdb_get B db k = (0, d)"
    and get_none: "dups k (recs db) = [] \<Longrightarrow> fst (bdb_get B db k) = DB_NOTFOUND"
    and fresh_rest: "rest db (bdb_cursor B db) = recs db"
    and fresh_cur: "cur (bdb_cursor B db) = None"
    and cget_none: "bdb_cget B db c opn = None \<longleftrightarrow> cursor_next (cur c) (rest db c) opn (recs db) = None"
    and cget_some: "bdb_cget B db c opn = Some (p, c') \<Longrightarrow>
          cursor_next (cur c) (rest db c) opn (recs db) = Some (p, rest db c') \<and> cur c' = Some (fst p)"
begin

lemma cgetE:
  assumes "cursor_next (cur c) (rest db c) opn (recs db) = Some (p, r)"
  obtains c' where "bdb_cget B db c opn = Some (p, c')" and "rest db c' = r" and "cur c' = Some (fst p)"
proof -
  have "bdb_cget B db c opn \<noteq> None"
    using assms cget_none by simp
  then obtain q c' where q: "bdb_cget B db c opn = Some (q, c')"
    by fastforce
  then have "q = p" "rest db c' = r" "cur c' = Some (fst q)"
    using cget_some [OF q] assms by auto
  with q that show ?thesis by simp
qed

lemma cget_NextE:
  assumes "rest db c = p # r"
  obtains c' where "bdb_cget B db c DB_NEXT = Some (p, c')" and "rest db c' = r" and "cur c' = Some (fst p)"
  by (rule cgetE [of c db DB_NEXT p r]) (use assms in auto)

lemma cursor_count_next: "cursor_count B db DB_NEXT c n = Some (n + length (rest db c))"
proof (induction "rest db c" arbitrary: c n)
  case Nil
  then have "bdb_cget B db c DB_NEXT = None"
    using cget_none [of db c DB_NEXT] by simp
  with Nil show ?case by (subst cursor_count.simps) simp
next
  case (Cons p r)
  then obtain c' where "bdb_cget B db c DB_NEXT = Some (p, c')" "rest db c' = r"
    using cgetE [of c db DB_NEXT p r] by (metis cursor_next.simps(1) list.simps(5))
  with Cons.hyps(1) [of c' "n + 1"] Cons.hyps(2) show ?case
    by (subst cursor_count.simps) (simp flip: Cons.hyps(2))
qed

lemma cursor_count_nodup:
  "cursor_count B db DB_NEXT_NODUP c n =
     Some (n + length (remdups_adj (map fst (dropWhile (\<lambda>p. Some (fst p) = cur c) (rest db c)))))"
proof (induction "length (rest db c)" arbitrary: c n rule: less_induct)
  case less
  define xs where "xs = dropWhile (\<lambda>p. Some (fst p) = cur c) (rest db c)"
  show ?case
  proof (cases xs)
    case Nil
    then have "bdb_cget B db c DB_NEXT_NODUP = None"
      using cget_none [of db c DB_NEXT_NODUP] unfolding cursor_next.simps xs_def [symmetric] by simp
    with Nil show ?thesis unfolding xs_def [symmetric] by (subst cursor_count.simps) simp
  next
    case (Cons p r)
    then obtain c' where c': "bdb_cget B db c DB_NEXT_NODUP = Some (p, c')" "rest db c' = r" "cur c' = Some (fst p)"
      using cgetE [of c db DB_NEXT_NODUP p r] unfolding cursor_next.simps xs_def [symmetric] by auto
    have "length (rest db c') < length (rest db c)"
      using c'(2) Cons length_dropWhile_le [of "\<lambda>p. Some (fst p) = cur c" "rest db c"] by (simp add: xs_def)
    from less [OF this, of "n + 1"] c'
    have "cursor_count B db DB_NEXT_NODUP c n =
            Some (n + 1 + length (remdups_adj (map fst (dropWhile (\<lambda>q. fst q = fst p) r))))"
      by (subst cursor_count.simps) simp
    moreover have "remdups_adj (map fst xs) = fst p # remdups_adj (map fst (dropWhile (\<lambda>q. fst q = fst p) r))"
      using Cons remdups_adj_Cons' [of "fst p" "map fst r"] by (simp add: dropWhile_map comp_def)
    ultimately show ?thesis unfolding xs_def [symmetric] by simp
  qed
qed

lemma printIndexedLog_loop_ends: "\<exists>out'. printIndexedLog_loop B db c i out = Some out'"
proof (induction "rest db c" arbitrary: c i out)
  case Nil
  then have "bdb_cget B db c DB_NEXT = None"
    using cget_none [of db c DB_NEXT] by simp
  then show ?case by (subst printIndexedLog_loop.simps) simp
next
  case (Cons p r)
  then obtain c' where "bdb_cget B db c DB_NEXT = Some (p, c')" "rest db c' = r"
    using cget_NextE [OF Cons.hyps(2) [symmetric]] by metis
  with Cons.hyps(1) [of c'] show ?case
    by (subst printIndexedLog_loop.simps) (auto split: prod.splits)
qed

lemma dbt_eq [simp]: "dbt a = dbt b \<longleftrightarrow> cstr a = cstr b"
  by (simp add: dbt_def)

lemma cstr_dbt [simp]: "cstr (dbt s) = cstr s"
  by (simp add: dbt_def)

lemma add_log_records:
  "index_records recs (add_log B db k d) k' = index_records recs db k' @ (if k' = dbt k then [cstr d] else [])"
  using put_same [of k' db "dbt d"] put_other [of k' "dbt k" db "dbt d"]
  by (auto simp: index_records_def addRecordIndexedLog_def addDataBerkeleyDB_def dbt_def)

lemma del_log_records:
  "index_records recs (del_log B db k) k' = (if k' = dbt k then [] else index_records recs db k')"
  using del_same [of k' db] del_other [of k' "dbt k" db]
  by (auto simp: index_records_def delRecordIndexdLog_def delDataBerkeleyDB_def dbt_def)

lemma getRecordIndexedLog_first:
  "getRecordIndexedLog B db k = (case index_records recs db (dbt k) of [] \<Rightarrow> None | d # ds \<Rightarrow> Some d)"
proof (cases "dups (dbt k) (recs db)")
  case Nil
  then show ?thesis
    using get_none [of "dbt k" db]
    by (auto simp: getRecordIndexedLog_def index_records_def DB_NOTFOUND_def split: prod.splits)
next
  case (Cons d ds)
  then show ?thesis
    using get_first [of "dbt k" db d ds] by (simp add: getRecordIndexedLog_def index_records_def)
qed

end

section \<open>The interface of the indexed log\<close>

locale indexed_log =
  fixes B :: "('db, 'c) bdb"
    and records :: "'db \<Rightarrow> string \<Rightarrow> string list"
  assumes add_records: "records (add_log B db k d) k' =
            records db k' @ (if k' = dbt k then [cstr d] else [])"
    and del_records: "records (del_log B db k) k' = (if k' = dbt k then [] else records db k')"
    and get_record: "getRecordIndexedLog B db k = (case records db (dbt k) of [] \<Rightarrow> None | d # ds \<Rightarrow> Some d)"
begin

lemmas record_laws = add_records del_records

lemma replace_records:
  "records (add_log B (del_log B db k) k d) k' = (if k' = dbt k then [cstr d] else records db k')"
  by (simp add: record_laws)

lemma get_after_replace: "getRecordIndexedLog B (add_log B (del_log B db k) k d) k = Some (cstr d)"
  by (simp add: get_record record_laws)

lemma get_after_del: "getRecordIndexedLog B (del_log B db k) k = None"
  by (simp add: get_record record_laws)

end

sublocale berkeley_db \<subseteq> ilog: indexed_log B "index_records recs"
  by unfold_locales (rule add_log_records del_log_records getRecordIndexedLog_first)+

lemma berkeley_db_indexed_log:
  assumes "berkeley_db B recs rest cur"
  shows "indexed_log B (index_records recs)"
  by unfold_locales
    (rule berkeley_db.add_log_records [OF assms] berkeley_db.del_log_records [OF assms]
      berkeley_db.getRecordIndexedLog_first [OF assms])+

section \<open>A B-tree\<close>

text \<open>Records in the order of their insertion; a cursor meets them sorted by key (the default
  order of a B-tree compares the bytes), the records of one key in the order of insertion.\<close>

type_synonym btree_cursor = "string option \<times> (string \<times> string) list"

definition btree_recs :: "(string \<times> string) list \<Rightarrow> (string \<times> string) list" where
  "btree_recs db = sort_key fst db"

definition btree_db :: "((string \<times> string) list, btree_cursor) bdb" where
  "btree_db =
     \<lparr>bdb_put = (\<lambda>db k d. (0, db @ [(k, d)])),
      bdb_del = (\<lambda>db k. (if dups k db = [] then DB_NOTFOUND else 0, filter (\<lambda>p. fst p \<noteq> k) db)),
      bdb_get = (\<lambda>db k. case dups k db of [] \<Rightarrow> (DB_NOTFOUND, []) | d # ds \<Rightarrow> (0, d)),
      bdb_cursor = (\<lambda>db. (None, btree_recs db)),
      bdb_cget = (\<lambda>db c opn. map_option (\<lambda>(p, r). (p, (Some (fst p), r)))
                              (cursor_next (fst c) (snd c) opn (btree_recs db)))\<rparr>"

lemma dups_sort_key: "dups k (sort_key fst xs) = dups k xs"
proof -
  have "filter (\<lambda>p. fst p = k) (sort_key fst xs) = filter (\<lambda>p. fst p = k) xs"
    by (rule sort_key_stable)
  then show ?thesis
    by (simp add: dups_def)
qed

lemma sorted_group_end:
  "sorted (map fst xs) \<Longrightarrow> \<forall>q \<in> set xs. k \<le> fst q \<Longrightarrow>
   k \<notin> fst ` set (dropWhile (\<lambda>q. fst q = k) xs)"
proof (induction xs)
  case (Cons a xs)
  show ?case
  proof (cases "fst a = k")
    case False
    then have "k < fst a" and "\<forall>q \<in> set xs. fst a \<le> fst q"
      using Cons.prems by auto
    with False show ?thesis by fastforce
  qed (use Cons in auto)
qed simp

lemma sorted_grouped: "sorted (map fst xs) \<Longrightarrow> grouped xs"
  by (induction xs) (auto dest!: sorted_group_end)

lemma dups_filter: "dups k' (filter (\<lambda>p. fst p \<noteq> k) xs) = (if k' = k then [] else dups k' xs)"
  by (induction xs) (auto simp: dups_def)

interpretation btree: berkeley_db btree_db btree_recs "\<lambda>db. snd" fst
proof (unfold_locales, goal_cases)
  case (1 db)
  then show ?case by (simp add: btree_recs_def sorted_grouped)
qed (auto simp: btree_db_def btree_recs_def dups_sort_key dups_filter split: list.splits)

section \<open>Properties\<close>

lemma grouped_remdups_adj: "grouped xs \<Longrightarrow> length (remdups_adj (map fst xs)) = card (fst ` set xs)"
proof (induction xs)
  case (Cons p xs)
  note IH = Cons
  show ?case
  proof (cases xs)
    case (Cons q ys)
    have "fst p \<notin> fst ` set xs \<or> fst p = fst q"
      using IH(2) Cons by (auto split: if_splits)
    then show ?thesis
      using IH Cons by (auto simp: card_insert_if insert_absorb)
  qed simp
qed simp

text \<open>(C34) Over any Berkeley DB the counting loops end: \<open>countRecordsIndexedLog\<close> returns the number of log
  records and \<open>countTuplesIndexedLog\<close> the number of distinct keys.\<close>

theorem cursor_counts_exact:
  assumes "berkeley_db B recs rest cur"
  shows "countRecordsIndexedLog B db = Some (length (recs db)) \<and>
         countTuplesIndexedLog B db = Some (card (fst ` set (recs db)))"
  using berkeley_db.cursor_count_next [OF assms, of db "bdb_cursor B db" 0]
    berkeley_db.cursor_count_nodup [OF assms, of db "bdb_cursor B db" 0]
    grouped_remdups_adj [OF berkeley_db.grouped_recs [OF assms, of db]]
  by (simp add: countRecordsIndexedLog_def countTuplesIndexedLog_def berkeley_db.fresh_rest [OF assms] berkeley_db.fresh_cur [OF assms])

theorem cursor_counts_exact_witness:
  "countRecordsIndexedLog btree_db [(''b'', ''1''), (''a'', ''2''), (''b'', ''3'')] = Some 3 \<and>
   countTuplesIndexedLog btree_db [(''b'', ''1''), (''a'', ''2''), (''b'', ''3'')] = Some 2"
  using cursor_counts_exact [OF btree.berkeley_db_axioms, of "[(''b'', ''1''), (''a'', ''2''), (''b'', ''3'')]"]
  by (simp add: btree_recs_def)

end
