(* ===== verification/IR_Files.thy ===== *)
theory IR_Files
  imports IR_Prelude
begin

text \<open>
  The small binary files of the instant recovery (\<^verbatim>\<open>src/src/instant_recovery.c\<close>): the position
  up to which the sequential log is indexed, the position of the last checkpoint, and the
  counters of programmed restarts.  A file system maps names to contents; a name that cannot be
  opened for writing is in \<open>fs_readonly\<close>.  The functions return the state of the file system
  with their result.  The theorems show that what is written is read back, and that a
  programmed number of restarts is carried out exactly, no more and no less.
\<close>

section \<open>Files\<close>

record fs =
  fs_files :: "string \<Rightarrow> string option"
  fs_readonly :: "string \<Rightarrow> bool"

definition DATABASE_PRELOAD_FILE :: string where
  "DATABASE_PRELOAD_FILE = ''temp_ir_files/preloadSystemfile.dat''"
definition RESTART_COUNTER :: string where
  "RESTART_COUNTER = ''temp_ir_files/restartCounter.dat''"
definition RESTART_COUNTER2 :: string where
  "RESTART_COUNTER2 = ''temp_ir_files/restartCounter2.dat''"
definition RESTART_COUNTER3 :: string where
  "RESTART_COUNTER3 = ''temp_ir_files/restartCounter2.dat''"
definition FINAL_LOG_SEEK :: string where
  "FINAL_LOG_SEEK = ''logs/finalLogSeek.dat''"
definition FINAL_LOG_SEEK_REPLICA :: string where
  "FINAL_LOG_SEEK_REPLICA = ''logs/finalLogSeekReplica.dat''"
definition CHECKPOINT_LOG_SEEK :: string where
  "CHECKPOINT_LOG_SEEK = ''logs/checkpointLogSeek.dat''"

text \<open>The bytes of an integer in memory, least significant first.\<close>

fun le_bytes :: "nat \<Rightarrow> nat \<Rightarrow> string" where
  "le_bytes 0 v = []"
| "le_bytes (Suc n) v = char_of (v mod 256) # le_bytes n (v div 256)"

fun le_val :: "string \<Rightarrow> nat" where
  "le_val [] = 0"
| "le_val (c # cs) = of_char c + 256 * le_val cs"

definition write_file :: "string \<Rightarrow> string \<Rightarrow> fs \<Rightarrow> fs" where
  "write_file name bytes f = f\<lparr>fs_files := (fs_files f)(name \<mapsto> bytes)\<rparr>"

section \<open>The code\<close>

definition readFile :: "string \<Rightarrow> fs \<Rightarrow> int" where
  "readFile filename f =
     (case fs_files f filename of
        None \<Rightarrow> -1
      | Some bytes \<Rightarrow> if length bytes < 4 then 0 else to_int32 (int (le_val (take 4 bytes))))"

text \<open>\<^verbatim>\<open>writeFile\<close> stores 8 bytes from the address of a 4-byte variable: the 4 bytes behind it,
  \<open>junk\<close>, are whatever the stack holds there.\<close>

definition writeFile :: "string \<Rightarrow> string \<Rightarrow> int \<Rightarrow> fs \<Rightarrow> int \<times> fs" where
  "writeFile junk filename counter f =
     (if fs_readonly f filename then (-1, f)
      else (1, write_file filename (le_bytes 4 (nat (counter mod 4294967296)) @ take 4 junk) f))"

definition removeFile :: "string \<Rightarrow> fs \<Rightarrow> int \<times> fs" where
  "removeFile filename f =
     (if fs_files f filename = None then (-1, f)
      else (0, f\<lparr>fs_files := (fs_files f)(filename := None)\<rparr>))"

definition readFinalLogSeek :: "string \<Rightarrow> fs \<Rightarrow> int" where
  "readFinalLogSeek filename f =
     (case fs_files f filename of
        None \<Rightarrow> -1
      | Some bytes \<Rightarrow> if length bytes < 8 then 0 else to_int64 (int (le_val (take 8 bytes))))"

definition writeFinalLogSeek :: "string \<Rightarrow> 64 word \<Rightarrow> fs \<Rightarrow> int \<times> fs" where
  "writeFinalLogSeek filename seek f =
     (if fs_readonly f filename then (-1, f)
      else (1, write_file filename (le_bytes 8 (unat seek)) f))"

definition generateFinalLogSeek :: "string \<Rightarrow> fs \<Rightarrow> fs" where
  "generateFinalLogSeek filename f =
     (case fs_files f filename of
        None \<Rightarrow> f
      | Some log \<Rightarrow> snd (writeFinalLogSeek FINAL_LOG_SEEK (of_nat (length log)) f))"

definition readRestartCounter :: "fs \<Rightarrow> int" where
  "readRestartCounter f =
     (case fs_files f RESTART_COUNTER of
        None \<Rightarrow> -1
      | Some bytes \<Rightarrow> if length bytes < 4 then 0 else to_int32 (int (le_val (take 4 bytes))))"

definition writeRestartCounter :: "string \<Rightarrow> int \<Rightarrow> fs \<Rightarrow> int \<times> fs" where
  "writeRestartCounter junk counter f =
     (if fs_readonly f RESTART_COUNTER then (-1, f)
      else (1, write_file RESTART_COUNTER (le_bytes 4 (nat (counter mod 4294967296)) @ take 4 junk) f))"

text \<open>The restart functions: the result, whether the server is restarted, and the files.  The
  delay and the reports around a restart do not touch these files.\<close>

definition restart_counter_step :: "string \<Rightarrow> string \<Rightarrow> int \<Rightarrow> fs \<Rightarrow> int \<times> fs" where
  "restart_counter_step junk file rounds f =
     (if rounds = 0 then (0, f)
      else
        let counter = readFile file f in
        if counter = 0 then (0, snd (removeFile file f))
        else
          let counter = (if counter = -1 then rounds - 1
                         else if counter > 0 then counter - 1 else counter)
          in (1, snd (writeFile junk file counter f)))"

definition restartAfterBechmarking :: "string \<Rightarrow> int \<Rightarrow> fs \<Rightarrow> int \<times> fs" where
  "restartAfterBechmarking junk restart_after_benchmarking f =
     restart_counter_step junk RESTART_COUNTER restart_after_benchmarking f"

definition restartSystem :: "string \<Rightarrow> int \<Rightarrow> fs \<Rightarrow> int \<times> fs" where
  "restartSystem junk number_restarts_after_time f =
     restart_counter_step junk RESTART_COUNTER2 number_restarts_after_time f"

text \<open>\<open>preloadDatabaseAndRestart\<close>: the value returned (whether the database was preloaded),
  whether a restart was scheduled, and the files.\<close>

definition preloadDatabaseAndRestart :: "string \<Rightarrow> int \<Rightarrow> int \<Rightarrow> fs \<Rightarrow> int \<times> bool \<times> fs" where
  "preloadDatabaseAndRestart junk preload_database_and_restart number_restarts_after_preloading f =
     (if preload_database_and_restart = 0 then (0, False, f)
      else
        let counter = readFile DATABASE_PRELOAD_FILE f in
        if counter = 0 then (0, False, snd (removeFile DATABASE_PRELOAD_FILE f))
        else
          let (preloded, f) =
                (if counter = -1
                 then (1, snd (writeFile junk DATABASE_PRELOAD_FILE (number_restarts_after_preloading - 1) f))
                 else (0, snd (writeFile junk DATABASE_PRELOAD_FILE (counter - 1)
                                 (snd (removeFile DATABASE_PRELOAD_FILE f)))))
          in if number_restarts_after_preloading > 0 then (preloded, True, f)
             else (preloded, False, snd (removeFile DATABASE_PRELOAD_FILE f)))"

section \<open>What is written is read back\<close>

lemma length_le_bytes [simp]: "length (le_bytes n v) = n"
  by (induction n arbitrary: v) auto

lemma le_val_bytes: "le_val (le_bytes n v) = v mod 256 ^ n"
proof (induction n arbitrary: v)
  case (Suc n)
  have "v mod (256 * 256 ^ n) = 256 * (v div 256 mod 256 ^ n) + v mod 256"
    by (rule mod_mult2_eq)
  with Suc show ?case by simp
qed simp

lemma readFile_writeFile:
  assumes "in_int32 counter" and "\<not> fs_readonly f name"
  shows "readFile name (snd (writeFile junk name counter f)) = counter"
proof -
  have "le_val (le_bytes 4 (nat (counter mod 4294967296))) = nat (counter mod 4294967296)"
    by (simp add: le_val_bytes)
  moreover have "to_int32 (counter mod 4294967296) = counter"
    using assms(1) by (simp add: to_int32_def in_int32_def mod_add_left_eq)
  ultimately show ?thesis
    using assms(2) by (simp add: readFile_def writeFile_def write_file_def)
qed

lemma writeFile_other [simp]: "n' \<noteq> name \<Longrightarrow> fs_files (snd (writeFile junk name c f)) n' = fs_files f n'"
  by (simp add: writeFile_def write_file_def)

lemma writeFile_readonly [simp]: "fs_readonly (snd (writeFile junk name c f)) = fs_readonly f"
  by (simp add: writeFile_def write_file_def)

lemma readFinalLogSeek_write:
  assumes "\<not> fs_readonly f name" and "unat seek < 2 ^ 63"
  shows "readFinalLogSeek name (snd (writeFinalLogSeek name seek f)) = int (unat seek)"
proof -
  have "unat seek mod 256 ^ 8 = unat seek"
    using assms(2) by simp
  moreover have "in_int64 (int (unat seek))"
    using assms(2) by (simp add: in_int64_def del: int_nat_eq of_nat_unat)
  then have "to_int64 (int (unat seek)) = int (unat seek)"
    by (rule to_int64_id)
  ultimately show ?thesis
    using assms(1)
    by (simp add: readFinalLogSeek_def writeFinalLogSeek_def write_file_def le_val_bytes)
qed

lemma readFinalLogSeek_other [simp]:
  "n' \<noteq> name \<Longrightarrow> readFinalLogSeek n' (snd (writeFinalLogSeek name seek f)) = readFinalLogSeek n' f"
  by (simp add: readFinalLogSeek_def writeFinalLogSeek_def write_file_def)

section \<open>Programmed restarts\<close>

text \<open>The results of repeated runs.\<close>

fun restart_runs :: "nat \<Rightarrow> string \<Rightarrow> string \<Rightarrow> int \<Rightarrow> fs \<Rightarrow> int list \<times> fs" where
  "restart_runs 0 junk file rounds f = ([], f)"
| "restart_runs (Suc n) junk file rounds f =
     (let (r, f) = restart_counter_step junk file rounds f;
          (rs, f) = restart_runs n junk file rounds f
      in (r # rs, f))"

lemma restart_step_count:
  assumes "readFile file f = int (Suc n)" and "rounds \<noteq> 0" and "\<not> fs_readonly f file" and "in_int32 (int (Suc n))"
  shows "\<exists>f'. restart_counter_step junk file rounds f = (1, f') \<and> readFile file f' = int n \<and> \<not> fs_readonly f' file"
proof -
  have "in_int32 (int n)"
    using assms(4) by (simp add: in_int32_def)
  then show ?thesis
    using assms by (simp add: restart_counter_step_def readFile_writeFile)
qed

lemma restart_runs_count:
  assumes "readFile file f = int n" and "rounds \<noteq> 0" and "\<not> fs_readonly f file" and "in_int32 (int n)"
    and "fs_files f file \<noteq> None"
  shows "\<exists>f'. restart_runs (Suc n) junk file rounds f = (replicate n 1 @ [0], f') \<and> fs_files f' file = None"
  using assms
proof (induction n arbitrary: f)
  case 0
  then show ?case
    by (auto simp: restart_counter_step_def removeFile_def)
next
  case (Suc n)
  obtain f' where f': "restart_counter_step junk file rounds f = (1, f')" "readFile file f' = int n"
      "\<not> fs_readonly f' file"
    using restart_step_count [OF Suc.prems(1-4)] by blast
  have "fs_files f' file \<noteq> None"
    using f'(2) by (auto simp: readFile_def split: option.splits)
  moreover have "in_int32 (int n)"
    using Suc.prems(4) by (simp add: in_int32_def)
  ultimately obtain f'' where "restart_runs (Suc n) junk file rounds f' = (replicate n 1 @ [0], f'')"
      "fs_files f'' file = None"
    using Suc.IH [of f'] f' Suc.prems(2) by blast
  moreover have "restart_runs (Suc (Suc n)) junk file rounds f =
                   (let (rs, g) = restart_runs (Suc n) junk file rounds f' in (1 # rs, g))"
    using f'(1) by (simp only: restart_runs.simps(2) [of "Suc n"] Let_def prod.case)
  ultimately show ?case by simp
qed

lemma restart_runs_from_start:
  assumes "0 < rounds" and "in_int32 rounds" and "\<not> fs_readonly f file" and "fs_files f file = None"
  shows "\<exists>f'. restart_runs (Suc (nat rounds)) junk file rounds f = (replicate (nat rounds) 1 @ [0], f') \<and>
              fs_files f' file = None"
proof -
  obtain n where n: "rounds = int (Suc n)"
    using assms(1) by (metis Suc_pred' nat_0_le zero_less_nat_eq order_less_imp_le)
  let ?f1 = "snd (writeFile junk file (rounds - 1) f)"
  have r: "in_int32 (int n)"
    using assms(2) n by (simp add: in_int32_def)
  have step: "restart_counter_step junk file rounds f = (1, ?f1)"
    using assms(1,4) by (simp add: restart_counter_step_def readFile_def)
  have read: "readFile file ?f1 = int n"
    using readFile_writeFile [OF r assms(3)] n by simp
  then have "fs_files ?f1 file \<noteq> None"
    by (auto simp: readFile_def split: option.splits)
  then obtain f' where "restart_runs (Suc n) junk file rounds ?f1 = (replicate n 1 @ [0], f')" "fs_files f' file = None"
    using restart_runs_count [OF read _ _ r, of rounds junk] assms(1,3) writeFile_readonly by fastforce
  moreover have "restart_runs (Suc (nat rounds)) junk file rounds f =
                   (let (rs, g) = restart_runs (Suc n) junk file rounds ?f1 in (1 # rs, g))"
    using n step by (simp only: restart_runs.simps(2) [of "Suc n"] Let_def prod.case nat_int)
  moreover have "nat rounds = Suc n"
    using n by simp
  ultimately show ?thesis
    by (simp del: restart_runs.simps)
qed

section \<open>Properties\<close>

text \<open>(C28) A server that is started again and again, with \<open>rounds\<close> programmed restarts, restarts exactly
  \<open>rounds\<close> times: the first \<open>rounds\<close> runs ask for a restart, the next one does not, and the file of
  the counter is removed.\<close>

theorem programmed_restarts_exact:
  assumes "0 < rounds" and "in_int32 rounds" and "\<not> fs_readonly f file" and "fs_files f file = None"
  shows "\<exists>f'. restart_runs (Suc (nat rounds)) junk file rounds f = (replicate (nat rounds) 1 @ [0], f') \<and>
              fs_files f' file = None"
  using assms by (rule restart_runs_from_start)

theorem programmed_restarts_exact_witness:
  "\<exists>f'. restart_runs (Suc (nat 2)) ''abcd'' RESTART_COUNTER 2 \<lparr>fs_files = \<lambda>_. None, fs_readonly = \<lambda>_. False\<rparr> =
          (replicate (nat 2) 1 @ [0], f') \<and> fs_files f' RESTART_COUNTER = None"
  by (rule programmed_restarts_exact) (simp_all add: in_int32_def)

end
