(* ===== verification/Indexer.thy ===== *)
theory Indexer
  imports Aof_Format Indexed_Log IR_Files
begin

text \<open>
  The Indexer component (\<^verbatim>\<open>src/src/instant_recovery.c\<close>): how the records of the sequential log
  reach the indexed log.  \<open>initialIndexesSequentialLogToIndexedLog\<close> indexes at restart what the
  last run left unindexed.  \<open>indexesSequentialLogToIndexedLogV2\<close> is the thread that follows the
  growing log while the server runs; one turn of its main loop is \<open>v2_round\<close>, a function of the
  bytes the log file has at that moment and of the stop signals other threads send.
  \<open>indexesSequentialLogToIndexedLogV1\<close> is its predecessor.  \<open>synchronousIndexing\<close> indexes the
  bytes just written when the indexing is synchronous.

  The buffers of fixed size in these functions are filled without a check; a text that does not
  fit is undefined behaviour, \<^term>\<open>None\<close> in the model.  \<^verbatim>\<open>sdslen\<close> applied to a plain character
  array reads the byte before it; its value, \<open>glen\<close>, is arbitrary.
\<close>

section \<open>Files and databases on disk\<close>

datatype 'db db_file = Missing | Damaged | Store 'db

record 'db disk =
  d_fs :: fs
  d_dbs :: "string \<Rightarrow> 'db db_file"

record ix_config =
  aof_filename :: string
  indexedlog_filename :: string
  indexedlog_replicated_filename :: string
  indexedlog_replicated :: bool

datatype db_access = DB_BTREE | DB_HASH

definition indexedlog_access :: "string \<Rightarrow> db_access" where
  "indexedlog_access indexedlog_structure =
     (if c_streq indexedlog_structure ''BTREE'' then DB_BTREE
      else if c_streq indexedlog_structure ''HASH'' then DB_HASH
      else DB_BTREE)"

text \<open>\<^verbatim>\<open>db->open\<close>: with \<^verbatim>\<open>DB_CREATE\<close> a missing database is created empty, otherwise it is an
  error.\<close>

definition openBerkeleyDB :: "'db \<Rightarrow> string \<Rightarrow> bool \<Rightarrow> 'db disk \<Rightarrow> 'db option \<times> 'db disk" where
  "openBerkeleyDB empty_db file_name db_create dk =
     (case d_dbs dk file_name of
        Store db \<Rightarrow> (Some db, dk)
      | Damaged \<Rightarrow> (None, dk)
      | Missing \<Rightarrow> if db_create
                   then (Some empty_db, dk\<lparr>d_dbs := (d_dbs dk)(file_name := Store empty_db)\<rparr>)
                   else (None, dk))"

text \<open>An invalid mode ends the process (\<^term>\<open>None\<close>).\<close>

definition openIndexedLog :: "'db \<Rightarrow> string \<Rightarrow> char \<Rightarrow> 'db disk \<Rightarrow> ('db option \<times> 'db disk) option" where
  "openIndexedLog empty_db file_name mode dk =
     (if mode = CHR ''W'' then Some (openBerkeleyDB empty_db file_name True dk)
      else if mode = CHR ''R'' then Some (openBerkeleyDB empty_db file_name False dk)
      else if mode = CHR ''T'' then Some (openBerkeleyDB empty_db file_name False dk)
      else None)"

text \<open>\<^verbatim>\<open>fseek(fp, seek, SEEK_SET)\<close> before reading: a negative offset is refused.\<close>

definition file_from :: "64 word \<Rightarrow> string \<Rightarrow> string" where
  "file_from seek bytes = (if sint seek < 0 then bytes else drop (unat seek) bytes)"

section \<open>Indexing at restart\<close>

text \<open>What is done with one record; a replica that could not be opened is left alone.\<close>

definition initial_step :: "('db, 'c) bdb \<Rightarrow> rstate \<Rightarrow> 'db \<Rightarrow> 'db \<times> nat" where
  "initial_step B st db =
     (let command = sdstoupper (r_command st); key = r_key st; log_record = r_log st in
      if sdscmp command ''SET'' = 0 then (add_log B (del_log B db key) key log_record, 1)
      else if sdscmp command ''INCR'' = 0 then (add_log B db key log_record, 1)
      else if sdscmp command ''DEL'' = 0 then (del_log B db key, 1)
      else (db, 0))"

text \<open>The reading loop: on an error the databases are left as they are and the process exits.\<close>

function initial_loop :: "('db, 'c) bdb \<Rightarrow> bool \<Rightarrow> rstate \<Rightarrow> string \<Rightarrow> 'db \<Rightarrow> 'db option \<Rightarrow> nat \<Rightarrow> nat \<Rightarrow>
    ('db \<times> 'db option) + (rstate \<times> 'db \<times> 'db option \<times> nat \<times> nat)" where
  "initial_loop B repl st inp dbp dbp_replica count_records count_records_indexed =
     (case c_fgets 128 inp of
        None \<Rightarrow> Inr (st, dbp, dbp_replica, count_records, count_records_indexed)
      | Some (buf, inp) \<Rightarrow>
          (case read_record st buf inp of
             Inl err \<Rightarrow> Inl (dbp, dbp_replica)
           | Inr (st, inp) \<Rightarrow>
               (let (dbp, indexed) = initial_step B st dbp;
                    dbp_replica = (if repl then map_option (\<lambda>r. fst (initial_step B st r)) dbp_replica
                                   else dbp_replica);
                    st = st\<lparr>r_command := sdstoupper (r_command st)\<rparr>
                in initial_loop B repl st inp dbp dbp_replica (count_records + 1)
                     (count_records_indexed + indexed))))"
  by pat_completeness auto
termination
  by (relation "measure (\<lambda>(B, repl, st, inp, dbp, r, c, i). length inp)")
    (auto dest: next_record_shorter)

declare initial_loop.simps [simp del]

text \<open>Where the indexing starts: the stored position, or that of the replica, or that of the last
  checkpoint.\<close>

definition initial_position :: "'db \<Rightarrow> ix_config \<Rightarrow> 'db disk \<Rightarrow> int \<times> ix_config \<times> 'db disk" where
  "initial_position empty_db cfg dk =
     (let seek0 = readFinalLogSeek FINAL_LOG_SEEK (d_fs dk);
          errorSync = (seek0 = -1);
          seek = (if seek0 = -1 then 0 else seek0);
          errorLog = (fst (openBerkeleyDB empty_db (indexedlog_filename cfg) False dk) = None)
      in if errorLog \<or> errorSync
         then
           let (seek, cfg, dk, errorLog) =
                 (if indexedlog_replicated cfg
                  then
                    let dk = dk\<lparr>d_dbs := (d_dbs dk)(indexedlog_filename cfg := Missing)\<rparr>;
                        replica = d_dbs dk (indexedlog_replicated_filename cfg)
                    in if (case replica of Missing \<Rightarrow> False | _ \<Rightarrow> True)
                       then (readFinalLogSeek FINAL_LOG_SEEK_REPLICA (d_fs dk),
                             cfg\<lparr>indexedlog_replicated := False\<rparr>,
                             dk\<lparr>d_dbs := (d_dbs dk)(indexedlog_replicated_filename cfg := Missing,
                                                    indexedlog_filename cfg := replica)\<rparr>,
                             True)
                       else (seek, cfg, dk, False)
                  else (seek, cfg, dk, errorLog))
           in if \<not> errorLog
              then let c = readFinalLogSeek CHECKPOINT_LOG_SEEK (d_fs dk)
                   in (if c = -1 then 0 else c, cfg, dk)
              else (seek, cfg, dk)
         else (seek, cfg, dk))"

text \<open>The databases after the run; operations on a replica that could not be opened change
  nothing.\<close>

definition store_logs :: "ix_config \<Rightarrow> 'db \<Rightarrow> 'db option \<Rightarrow> 'db disk \<Rightarrow> 'db disk" where
  "store_logs cfg dbp dbp_replica dk =
     (let dbs = (d_dbs dk)(indexedlog_filename cfg := Store dbp) in
      dk\<lparr>d_dbs := (case dbp_replica of
                     Some r \<Rightarrow> if indexedlog_replicated cfg
                              then dbs(indexedlog_replicated_filename cfg := Store r) else dbs
                   | None \<Rightarrow> dbs)\<rparr>)"

text \<open>The values left in the server state after a run that returned.\<close>

record 'db init_out =
  io_return :: nat
  io_seek :: "(64 word \<times> nat \<times> nat) option"
  io_replicated :: bool
  io_disk :: "'db disk"

text \<open>\<^term>\<open>Inl\<close>: the process ended, with the state of the disk.\<close>

definition initialIndexesSequentialLogToIndexedLog ::
    "('db, 'c) bdb \<Rightarrow> 'db \<Rightarrow> ix_config \<Rightarrow> 'db disk \<Rightarrow> 'db disk + 'db init_out" where
  "initialIndexesSequentialLogToIndexedLog B empty_db cfg dk =
     (let (seek, cfg, dk) = initial_position empty_db cfg dk;
          (dbp_replica, dk) =
            (if indexedlog_replicated cfg
             then openBerkeleyDB empty_db (indexedlog_replicated_filename cfg) True dk
             else (None, dk));
          (opened, dk) = openBerkeleyDB empty_db (indexedlog_filename cfg) True dk
      in case opened of
           None \<Rightarrow> Inr \<lparr>io_return = 0, io_seek = None, io_replicated = indexedlog_replicated cfg, io_disk = dk\<rparr>
         | Some dbp \<Rightarrow>
           (case fs_files (d_fs dk) (aof_filename cfg) of
              None \<Rightarrow> Inl dk
            | Some aof \<Rightarrow>
                if aof = []
                then Inr \<lparr>io_return = 0, io_seek = None, io_replicated = indexedlog_replicated cfg,
                          io_disk = dk\<lparr>d_fs := snd (writeFinalLogSeek FINAL_LOG_SEEK 0 (d_fs dk))\<rparr>\<rparr>
                else
                  let st = empty_rstate\<lparr>r_seek := of_int seek\<rparr> in
                  (case initial_loop B (indexedlog_replicated cfg) st (file_from (of_int seek) aof) dbp dbp_replica 0 0 of
                     Inl (dbp, dbp_replica) \<Rightarrow> Inl (store_logs cfg dbp dbp_replica dk)
                   | Inr (st, dbp, dbp_replica, n, m) \<Rightarrow>
                       let f = snd (writeFinalLogSeek FINAL_LOG_SEEK (r_seek st) (d_fs dk));
                           f = (if indexedlog_replicated cfg
                                then snd (writeFinalLogSeek FINAL_LOG_SEEK_REPLICA (r_seek st) f) else f)
                       in Inr \<lparr>io_return = n, io_seek = Some (r_seek st, n, m),
                               io_replicated = indexedlog_replicated cfg,
                               io_disk = (store_logs cfg dbp dbp_replica dk)\<lparr>d_fs := f\<rparr>\<rparr>)))"

section \<open>Records as text\<close>

text \<open>\<^verbatim>\<open>sprintf\<close> of a record into a buffer of 200 bytes; \<open>glen\<close> is what \<^verbatim>\<open>sdslen\<close> returns.\<close>

definition set_log_record :: "(string \<Rightarrow> int) \<Rightarrow> string \<Rightarrow> string \<Rightarrow> string option" where
  "set_log_record glen key value =
     (let aux = ''*3\<newline>$3\<newline>SET\<newline>$'' @ show_int (glen key) @ ''\<newline>'' @ cstr key @ ''\<newline>$'' @
                show_int (glen value) @ ''\<newline>'' @ cstr value
      in if length aux < 200 then Some aux else None)"

definition createSetLogRecord :: "(string \<Rightarrow> int) \<Rightarrow> string \<Rightarrow> string \<Rightarrow> string option" where
  "createSetLogRecord glen key value = map_option sdsnew (set_log_record glen key value)"

definition createIncrLogRecord :: "(string \<Rightarrow> int) \<Rightarrow> string \<Rightarrow> string option" where
  "createIncrLogRecord glen key =
     (let aux = ''*2\<newline>$4\<newline>INCR\<newline>$'' @ show_int (glen key) @ ''\<newline>'' @ cstr key
      in if length aux < 200 then Some (sdsnew aux) else None)"

section \<open>The list of records to index\<close>

record recordToIndex =
  ri_command :: string
  ri_key :: string
  ri_value :: string

text \<open>The linked list behind its unused first node; \<^term>\<open>None\<close> is the NULL pointer.\<close>

type_synonym ri_list = "recordToIndex list option"

definition insertFirstRecordToIndex :: ri_list where
  "insertFirstRecordToIndex = Some []"

definition addRecordToIndex :: "ri_list \<Rightarrow> string \<Rightarrow> string \<Rightarrow> string \<Rightarrow> ri_list option" where
  "addRecordToIndex lst command key value =
     (case lst of
        None \<Rightarrow> None
      | Some ris \<Rightarrow>
          if c_strlen command < 20 \<and> c_strlen key < 50 \<and> c_strlen value < 50
          then Some (Some (ris @ [\<lparr>ri_command = cstr command, ri_key = cstr key, ri_value = cstr value\<rparr>]))
          else None)"

definition clearListRecordToIndex :: "ri_list \<Rightarrow> int \<times> ri_list" where
  "clearListRecordToIndex lst = (case lst of None \<Rightarrow> (0, None) | Some ris \<Rightarrow> (1, None))"

section \<open>Writing a list to the indexed log\<close>

definition write_step :: "('db, 'c) bdb \<Rightarrow> (string \<Rightarrow> int) \<Rightarrow> recordToIndex \<Rightarrow> 'db \<Rightarrow> ('db \<times> nat) option" where
  "write_step B glen ri db =
     (if c_streq (ri_command ri) ''SET'' \<or> c_streq (ri_command ri) ''INCR''
      then map_option (\<lambda>aux. (add_log B db (ri_key ri) aux, 1)) (set_log_record glen (ri_key ri) (ri_value ri))
      else if c_streq (ri_command ri) ''DEL'' then Some (del_log B db (ri_key ri), 1)
      else if c_streq (ri_command ri) ''SETCHECKPOINT''
      then map_option (\<lambda>aux. (add_log B (del_log B db (ri_key ri)) (ri_key ri) aux, 1))
             (set_log_record glen (ri_key ri) (ri_value ri))
      else Some (db, 0))"

text \<open>\<open>alive i\<close> is what the \<open>i\<close>-th test of \<^verbatim>\<open>server.indexer_state\<close> in the loop sees.\<close>

fun write_loop :: "('db, 'c) bdb \<Rightarrow> (string \<Rightarrow> int) \<Rightarrow> (nat \<Rightarrow> bool) \<Rightarrow> nat \<Rightarrow> recordToIndex list \<Rightarrow> 'db \<Rightarrow> nat \<Rightarrow>
    (bool \<times> 'db \<times> nat \<times> nat) option" where
  "write_loop B glen alive i [] db m = Some (True, db, i, m)"
| "write_loop B glen alive i (ri # ris) db m =
     (if \<not> alive i then Some (False, db, i, m)
      else case write_step B glen ri db of
             None \<Rightarrow> None
           | Some (db, k) \<Rightarrow> write_loop B glen alive (i + 1) ris db (m + k))"

text \<open>The result: the signal, the indexed log, the files, \<^verbatim>\<open>server.seek_log_file\<close>, and the numbers of
  records processed and indexed.\<close>

definition writeToIndexedLog :: "('db, 'c) bdb \<Rightarrow> (string \<Rightarrow> int) \<Rightarrow> (nat \<Rightarrow> bool) \<Rightarrow> recordToIndex list \<Rightarrow>
    64 word \<Rightarrow> 'db \<Rightarrow> fs \<Rightarrow> 64 word \<Rightarrow> (bool \<times> 'db \<times> fs \<times> 64 word \<times> nat \<times> nat) option" where
  "writeToIndexedLog B glen alive ris seek_log_file db f server_seek =
     (case write_loop B glen alive 0 ris db 0 of
        None \<Rightarrow> None
      | Some (signal, db, n, m) \<Rightarrow>
          Some (signal, db, snd (writeFinalLogSeek FINAL_LOG_SEEK seek_log_file f),
                if signal then seek_log_file else server_seek, n, m))"

text \<open>The version for the replica, with records of its own.\<close>

fun replicateIndexedLog_loop :: "('db, 'c) bdb \<Rightarrow> (string \<Rightarrow> int) \<Rightarrow> recordToIndex list \<Rightarrow> 'db \<Rightarrow> 'db option" where
  "replicateIndexedLog_loop B glen [] db = Some db"
| "replicateIndexedLog_loop B glen (ri # ris) db =
     (case (if c_streq (ri_command ri) ''SET''
            then map_option (add_log B db (ri_key ri)) (createSetLogRecord glen (ri_key ri) (ri_value ri))
            else if c_streq (ri_command ri) ''INCR''
            then map_option (add_log B db (ri_key ri)) (createIncrLogRecord glen (ri_key ri))
            else if c_streq (ri_command ri) ''DEL'' then Some (del_log B db (ri_key ri))
            else if c_streq (ri_command ri) ''SETCHECKPOINT''
            then map_option (add_log B (del_log B db (ri_key ri)) (ri_key ri))
                   (createSetLogRecord glen (ri_key ri) (ri_value ri))
            else Some db) of
        None \<Rightarrow> None
      | Some db \<Rightarrow> replicateIndexedLog_loop B glen ris db)"

definition replicateIndexedLog :: "('db, 'c) bdb \<Rightarrow> (string \<Rightarrow> int) \<Rightarrow> recordToIndex list \<Rightarrow> 64 word \<Rightarrow> 'db \<Rightarrow> fs \<Rightarrow> ('db \<times> fs) option" where
  "replicateIndexedLog B glen ris seek_log_file db f =
     map_option (\<lambda>db. (db, snd (writeFinalLogSeek FINAL_LOG_SEEK_REPLICA seek_log_file f)))
       (replicateIndexedLog_loop B glen ris db)"

end
