(* ===== verification/Log_Replay.thy ===== *)
theory Log_Replay
  imports Indexer
begin

text \<open>
  How the restorer of \<^verbatim>\<open>src/src/instant_recovery.c\<close> turns the log records of a key into its value
  (the loops over \<^verbatim>\<open>array_log_record_lines\<close> in \<open>loadRecordFromIndexedLog\<close> and
  \<open>loadDBFromIndexedLog\<close>), and what a sequential log means for a key-value map.  A line that the
  code reads beyond the end of the array is undefined behaviour, \<^term>\<open>None\<close>.  The theorems relate
  the two: every step of the initial indexer and of the asynchronous indexer acts on the values
  the restorer computes as the log command acts on the key-value map.
\<close>

section \<open>The code\<close>

definition log_line :: "nat \<Rightarrow> string list \<Rightarrow> string option" where
  "log_line n ls = (if n < length ls then Some (sdsnew (ls ! n)) else None)"

text \<open>One record applied to \<^verbatim>\<open>commandIR\<close> and \<^verbatim>\<open>valueIR\<close>.\<close>

definition replay_record :: "string \<Rightarrow> string \<times> string \<Rightarrow> (string \<times> string) option" where
  "replay_record data cv =
     (let dataSds = sdsnew data in
      case sdssplitlen dataSds ''\<newline>'' of
        None \<Rightarrow> None
      | Some ls \<Rightarrow>
          (case log_line 2 ls of
             None \<Rightarrow> None
           | Some command \<Rightarrow>
               (let commandIR = sdstoupper command in
                if c_streq commandIR ''SET''
                then map_option (\<lambda>v. (commandIR, v)) (log_line 6 ls)
                else if c_streq commandIR ''INCR''
                then Some (commandIR, show_int (to_int32 (c_atoi (snd cv) + 1)))
                else Some (commandIR, snd cv))))"

fun replay_records :: "string list \<Rightarrow> string \<times> string \<Rightarrow> (string \<times> string) option" where
  "replay_records [] cv = Some cv"
| "replay_records (d # ds) cv = Option.bind (replay_record d cv) (replay_records ds)"

text \<open>The value the records of a key stand for; \<^verbatim>\<open>valueIR\<close> starts as 0.\<close>

definition replayed :: "string list \<Rightarrow> string option" where
  "replayed ds = (if ds = [] then None else map_option snd (replay_records ds ([], ''0'')))"

section \<open>The log as a sequence of updates\<close>

type_synonym kv = "string \<Rightarrow> string option"

definition clean :: "string \<Rightarrow> bool" where
  "clean s \<longleftrightarrow> NUL \<notin> set s \<and> LF \<notin> set s"

definition incr_value :: "string option \<Rightarrow> string" where
  "incr_value v = show_int (to_int32 (c_atoi (case v of None \<Rightarrow> ''0'' | Some s \<Rightarrow> s) + 1))"

fun kv_step :: "string list \<Rightarrow> kv \<Rightarrow> kv" where
  "kv_step [c, k, v] m = (if sdstoupper c = ''SET'' then m(k \<mapsto> v)
                          else if sdstoupper c = ''DEL'' then m(k := None) else m)"
| "kv_step [c, k] m = (if sdstoupper c = ''INCR'' then m(k \<mapsto> incr_value (m k))
                       else if sdstoupper c = ''DEL'' then m(k := None) else m)"
| "kv_step (c # k # v # w # ss) m = (if sdstoupper c = ''DEL'' then m(k := None) else m)"
| "kv_step _ m = m"

text \<open>Records the log holds: arguments that fit, free of NUL and newline, \<^verbatim>\<open>SET\<close> with a key and
  a value, \<^verbatim>\<open>INCR\<close> and \<^verbatim>\<open>DEL\<close> with a key.\<close>

fun wf_record :: "string list \<Rightarrow> bool" where
  "wf_record [] = False"
| "wf_record (c # ss) =
     (sized_args (c # ss) \<and> (\<forall>s \<in> set (c # ss). clean s) \<and>
      (sdstoupper c = ''SET'' \<longrightarrow> length ss = 2) \<and>
      (sdstoupper c = ''INCR'' \<longrightarrow> length ss = 1) \<and>
      (sdstoupper c = ''DEL'' \<longrightarrow> ss \<noteq> []))"

section \<open>Reading the lines of a record\<close>

lemma clean_simps [simp]: "clean []" "clean (c # s) \<longleftrightarrow> c \<noteq> NUL \<and> c \<noteq> LF \<and> clean s"
  by (auto simp: clean_def)

lemma cleanD [simp]: "clean s \<Longrightarrow> NUL \<notin> set s" "clean s \<Longrightarrow> LF \<notin> set s" "clean s \<Longrightarrow> cstr s = s"
  by (auto simp: clean_def)

lemma set_split_on: "t \<in> set (split_on c s) \<Longrightarrow> set t \<subseteq> set s"
proof (induction s arbitrary: t)
  case (Cons x xs)
  obtain l ls where ls: "split_on c xs = l # ls"
    by (cases "split_on c xs") auto
  then have "set l \<subseteq> set xs" and "\<And>t. t \<in> set ls \<Longrightarrow> set t \<subseteq> set xs"
    using Cons.IH by auto
  with Cons.prems ls show ?case
    by (fastforce split: if_splits)
qed simp

lemma c_toupper_NUL [simp]: "c_toupper c = NUL \<longleftrightarrow> c = NUL"
proof -
  have "97 \<le> n \<Longrightarrow> n \<le> 122 \<Longrightarrow> 0 < (n - 32) mod 256" for n :: nat
    by simp
  then have "(of_char (c_toupper c) :: nat) = 0 \<longleftrightarrow> (of_char c :: nat) = 0"
    by (auto simp: c_toupper_def)
  moreover have "(of_char NUL :: nat) = 0"
    by simp
  ultimately show ?thesis
    by (metis of_char_eq_iff)
qed

lemma sdstoupper_NUL [simp]: "NUL \<in> set (sdstoupper s) \<longleftrightarrow> NUL \<in> set s"
  by (induction s) (auto simp: sdstoupper_def eq_commute [of NUL])

lemma replay_record_lines:
  assumes "split_on LF data = ls" and "NUL \<notin> set data" and "data \<noteq> []" and "2 < length ls"
  shows "replay_record data cv =
           (let commandIR = sdstoupper (ls ! 2) in
            if commandIR = ''SET'' then if 6 < length ls then Some (commandIR, ls ! 6) else None
            else if commandIR = ''INCR'' then Some (commandIR, show_int (to_int32 (c_atoi (snd cv) + 1)))
            else Some (commandIR, snd cv))"
proof -
  have nul: "NUL \<notin> set l" if "l \<in> set ls" for l
    using that assms(1,2) set_split_on [of l LF data] by blast
  have "ls ! 2 \<in> set ls" "6 < length ls \<Longrightarrow> ls ! 6 \<in> set ls"
    using assms(4) by simp_all
  with assms nul show ?thesis
    by (simp add: replay_record_def log_line_def c_streq_def Let_def)
qed

text \<open>The records the indexers store, line by line.\<close>

lemma split_aof_log:
  assumes "\<forall>s \<in> set ss. clean s"
  shows "split_on LF (aof_log ss) =
           (CHR ''*'' # show_nat (length ss) @ [CR]) #
           (if ss = [] then [[]] else concat (map (\<lambda>s. [CHR ''$'' # show_nat (length s) @ [CR], s]) ss))"
proof -
  have join: "ss \<noteq> [] \<Longrightarrow> split_on LF (sdsjoinsds (map log_arg ss) ''\<newline>'') =
          concat (map (\<lambda>s. [CHR ''$'' # show_nat (length s) @ [CR], s]) ss)"
    using assms
  proof (induction ss)
    case (Cons s ss)
    have arg: "split_on LF (log_arg s @ r) = (CHR ''$'' # show_nat (length s) @ [CR]) # split_on LF (s @ r)" for r
      by (simp add: log_arg_def header_line_def split_on_append)
    show ?case
    proof (cases "ss = []")
      case True
      with Cons.prems arg [of "[]"] show ?thesis by simp
    next
      case False
      with Cons arg [of "LF # sdsjoinsds (map log_arg ss) ''\<newline>''"] show ?thesis
        by (simp add: sdsjoinsds_Cons)
    qed
  qed simp
  have "split_on LF (header_line c n @ r) = (c # show_nat n @ [CR]) # split_on LF r" if "c \<noteq> LF" for c n r
    using that by (simp add: header_line_def split_on_append)
  then show ?thesis
    using join by (simp add: aof_log_def)
qed

lemma aof_log_no_NUL: "\<forall>s \<in> set ss. NUL \<notin> set s \<Longrightarrow> NUL \<notin> set (aof_log ss)"
proof -
  assume "\<forall>s \<in> set ss. NUL \<notin> set s"
  then have "NUL \<notin> set (sdsjoinsds (map log_arg ss) ''\<newline>'')"
  proof (induction ss)
    case (Cons s ss)
    then show ?case
      by (cases "ss = []") (auto simp: sdsjoinsds_Cons log_arg_def)
  qed simp
  then show ?thesis
    by (simp add: aof_log_def)
qed

lemma aof_log_nonempty [simp]: "aof_log ss \<noteq> []"
  by (simp add: aof_log_def)

lemma replay_aof_log:
  assumes "\<forall>s \<in> set (c # ss). clean s"
  shows "replay_record (aof_log (c # ss)) cv =
           (if sdstoupper c = ''SET'' then if 2 \<le> length ss then Some (''SET'', ss ! 1) else None
            else if sdstoupper c = ''INCR'' then Some (''INCR'', show_int (to_int32 (c_atoi (snd cv) + 1)))
            else Some (sdstoupper c, snd cv))"
proof -
  let ?ls = "split_on LF (aof_log (c # ss))"
  let ?tail = "concat (map (\<lambda>s. [CHR ''$'' # show_nat (length s) @ [CR], s]) ss)"
  have ls: "?ls = (CHR ''*'' # show_nat (length (c # ss)) @ [CR]) # (CHR ''$'' # show_nat (length c) @ [CR]) # c # ?tail"
    using split_aof_log [OF assms] by simp
  have len: "length ?tail = 2 * length ss"
    by (induction ss) auto
  have "?tail ! 3 = ss ! 1" if "2 \<le> length ss"
    using that by (cases ss; cases "tl ss") (auto simp: numeral_3_eq_3)
  then have six: "?ls ! 6 = ss ! 1" if "2 \<le> length ss"
    using that by (simp add: ls numeral_eq_Suc)
  have two: "?ls ! 2 = c" "length ?ls = 2 * length ss + 3"
    using len by (simp_all add: ls numeral_eq_Suc)
  have "NUL \<notin> set (aof_log (c # ss))"
    using assms by (intro aof_log_no_NUL) auto
  then show ?thesis
    using replay_record_lines [OF refl, of "aof_log (c # ss)" cv] two six by (auto simp: Let_def)
qed

lemma replay_set_log_record:
  assumes "set_log_record glen k v = Some data" and "clean k" and "clean v"
  shows "replay_record data cv = Some (''SET'', v)" and "NUL \<notin> set data"
proof -
  have data: "data = ''*3\<newline>$3\<newline>SET\<newline>$'' @ show_int (glen k) @ ''\<newline>'' @ k @ ''\<newline>$'' @ show_int (glen v) @ ''\<newline>'' @ v"
    using assms by (simp add: set_log_record_def Let_def split: if_splits)
  show nul: "NUL \<notin> set data"
    using assms(2,3) by (simp add: data)
  have "split_on LF data = [''*3'', ''$3'', ''SET'', CHR ''$'' # show_int (glen k), k, CHR ''$'' # show_int (glen v), v]"
    using assms(2,3) by (simp add: data split_on_append)
  then show "replay_record data cv = Some (''SET'', v)"
    using replay_record_lines [OF refl nul, of cv] data by (simp add: sdstoupper_def c_toupper_def)
qed

section \<open>The values the indexed log stands for\<close>

definition kv_of :: "('db \<Rightarrow> string \<Rightarrow> string list) \<Rightarrow> 'db \<Rightarrow> kv" where
  "kv_of records db k = (if NUL \<in> set k then None else replayed (records db (dbt k)))"

text \<open>Every record can be replayed, the last one of a key is a \<^verbatim>\<open>SET\<close> or an \<^verbatim>\<open>INCR\<close>, and the keys end
  with their zero byte.\<close>

definition good_records :: "string list \<Rightarrow> bool" where
  "good_records ds \<longleftrightarrow> ds = [] \<or> (\<exists>c v. replay_records ds ([], ''0'') = Some (c, v) \<and> (c = ''SET'' \<or> c = ''INCR''))"

definition good_index :: "('db \<Rightarrow> string \<Rightarrow> string list) \<Rightarrow> 'db \<Rightarrow> bool" where
  "good_index records db \<longleftrightarrow> (\<forall>k. good_records (records db k) \<and> (records db k \<noteq> [] \<longrightarrow> dbt k = k))"

lemma replay_records_append:
  "replay_records (xs @ ys) cv = Option.bind (replay_records xs cv) (replay_records ys)"
  by (induction xs arbitrary: cv) (auto split: bind_splits)

lemma good_records_Nil [simp]: "good_records []"
  by (simp add: good_records_def)

lemma replayed_Nil [simp]: "replayed [] = None"
  by (simp add: replayed_def)

lemma good_records_set:
  assumes "good_records ds" and "\<And>cv. replay_record d cv = Some (''SET'', v)"
  shows "good_records (ds @ [d])" and "replayed (ds @ [d]) = Some v"
proof -
  obtain cv where "replay_records ds ([], ''0'') = Some cv"
    using assms(1) by (auto simp: good_records_def)
  then have "replay_records (ds @ [d]) ([], ''0'') = Some (''SET'', v)"
    by (simp add: replay_records_append assms(2))
  then show "good_records (ds @ [d])" and "replayed (ds @ [d]) = Some v"
    by (simp_all add: good_records_def replayed_def)
qed

lemma good_records_incr:
  assumes "good_records ds" and "\<And>cv. replay_record d cv = Some (''INCR'', show_int (to_int32 (c_atoi (snd cv) + 1)))"
  shows "good_records (ds @ [d])" and "replayed (ds @ [d]) = Some (incr_value (replayed ds))"
proof -
  obtain c v where cv: "replay_records ds ([], ''0'') = Some (c, v)"
    using assms(1) by (cases "ds = []") (auto simp: good_records_def)
  then have "replay_records (ds @ [d]) ([], ''0'') = Some (''INCR'', show_int (to_int32 (c_atoi v + 1)))"
    by (simp add: replay_records_append assms(2))
  moreover have "ds = [] \<Longrightarrow> v = ''0''"
    using cv by simp
  ultimately show "good_records (ds @ [d])" and "replayed (ds @ [d]) = Some (incr_value (replayed ds))"
    using cv by (auto simp: good_records_def replayed_def incr_value_def)
qed

text \<open>\<^verbatim>\<open>SETCHECKPOINT\<close> records count for the asynchronous indexer only.\<close>

fun kv_step_cp :: "string list \<Rightarrow> kv \<Rightarrow> kv" where
  "kv_step_cp [c, k, v] m = (if sdstoupper c = ''SETCHECKPOINT'' then m(k \<mapsto> v) else kv_step [c, k, v] m)"
| "kv_step_cp ss m = kv_step ss m"

text \<open>The effect of an element of the list of records to index.\<close>

definition ri_kv :: "recordToIndex \<Rightarrow> kv \<Rightarrow> kv" where
  "ri_kv ri m = (if ri_command ri = ''SET'' \<or> ri_command ri = ''SETCHECKPOINT'' then m(ri_key ri \<mapsto> ri_value ri)
                 else if ri_command ri = ''DEL'' then m(ri_key ri := None) else m)"

context indexed_log
begin

lemma kv_of_set:
  assumes "good_index records db" and "clean k" and "\<And>cv. replay_record d cv = Some (''SET'', v)" and "NUL \<notin> set d"
  shows "kv_of records (add_log B db k d) = (kv_of records db)(k \<mapsto> v)"
    and "good_index records (add_log B db k d)"
    and "kv_of records (add_log B (del_log B db k) k d) = (kv_of records db)(k \<mapsto> v)"
    and "good_index records (add_log B (del_log B db k) k d)"
proof -
  have key: "NUL \<notin> set k' \<Longrightarrow> cstr k' = k \<longleftrightarrow> k' = k" for k'
    by simp
  have good: "good_records (records db k')" and stored: "records db k' \<noteq> [] \<Longrightarrow> dbt k' = k'" for k'
    using assms(1) by (simp_all add: good_index_def)
  note set = good_records_set [OF good assms(3)] good_records_set [OF good_records_Nil assms(3)]
  show "kv_of records (add_log B db k d) = (kv_of records db)(k \<mapsto> v)"
    using assms(2,4) set by (auto simp: kv_of_def add_records fun_eq_iff key)
  show "good_index records (add_log B db k d)"
    using assms(2,4) set good stored by (auto simp: good_index_def add_records)
  show "kv_of records (add_log B (del_log B db k) k d) = (kv_of records db)(k \<mapsto> v)"
    using assms(2,4) set by (auto simp: kv_of_def record_laws fun_eq_iff key)
  show "good_index records (add_log B (del_log B db k) k d)"
    using assms(2,4) set good stored by (auto simp: good_index_def record_laws)
qed

lemma kv_of_incr:
  assumes "good_index records db" and "clean k" and "NUL \<notin> set d"
    and "\<And>cv. replay_record d cv = Some (''INCR'', show_int (to_int32 (c_atoi (snd cv) + 1)))"
  shows "kv_of records (add_log B db k d) = (kv_of records db)(k \<mapsto> incr_value (kv_of records db k))"
    and "good_index records (add_log B db k d)"
proof -
  have good: "good_records (records db k')" and stored: "records db k' \<noteq> [] \<Longrightarrow> dbt k' = k'" for k'
    using assms(1) by (simp_all add: good_index_def)
  note incr = good_records_incr [OF good assms(4)]
  show "kv_of records (add_log B db k d) = (kv_of records db)(k \<mapsto> incr_value (kv_of records db k))"
    using assms(2,3) incr by (auto simp: kv_of_def add_records fun_eq_iff)
  show "good_index records (add_log B db k d)"
    using assms(2,3) incr good stored by (auto simp: good_index_def add_records)
qed

lemma kv_of_del:
  assumes "good_index records db" and "clean k"
  shows "kv_of records (del_log B db k) = (kv_of records db)(k := None)"
    and "good_index records (del_log B db k)"
  using assms by (auto simp: kv_of_def good_index_def del_records fun_eq_iff)

text \<open>A step of the initial indexer refines a step of the key-value map.\<close>

lemma initial_step_kv:
  assumes "wf_record ss" and "good_index records db"
  shows "kv_of records (fst (initial_step B (advance n (record_vars ss st)) db)) = kv_step ss (kv_of records db)"
    and "good_index records (fst (initial_step B (advance n (record_vars ss st)) db))"
proof -
  obtain c args where ss: "ss = c # args"
    using assms(1) by (cases ss) auto
  have clean: "\<forall>s \<in> set (c # args). clean s"
    using assms(1) ss by simp
  have nul: "NUL \<notin> set (aof_log (c # args))"
    using clean by (intro aof_log_no_NUL) auto
  have vars: "r_command (advance n (record_vars ss st)) = c" "r_log (advance n (record_vars ss st)) = aof_log ss"
    using clean by (simp_all add: ss advance_def)
  have key: "r_key (advance n (record_vars ss st)) = k" if "args = k # args'" for k args'
    using clean that by (simp add: ss advance_def)
  note replay = replay_aof_log [OF clean]
  note step = initial_step_def [of B "advance n (record_vars ss st)" db, unfolded vars Let_def]
  consider "sdstoupper c = ''SET''" | "sdstoupper c = ''INCR''" | "sdstoupper c = ''DEL''"
    | "sdstoupper c \<noteq> ''SET''" "sdstoupper c \<noteq> ''INCR''" "sdstoupper c \<noteq> ''DEL''"
    by blast
  then have "kv_of records (fst (initial_step B (advance n (record_vars ss st)) db)) = kv_step ss (kv_of records db) \<and>
             good_index records (fst (initial_step B (advance n (record_vars ss st)) db))"
  proof cases
    case 1
    then obtain k v where args: "args = [k, v]"
      using assms(1) ss by (auto simp: length_Suc_conv numeral_2_eq_2)
    then have "replay_record (aof_log ss) cv = Some (''SET'', v)" for cv
      using replay 1 ss by simp
    then show ?thesis
      unfolding step using kv_of_set(3,4) [OF assms(2), of k "aof_log ss" v] nul 1 args clean key ss by simp
  next
    case 2
    then obtain k where args: "args = [k]"
      using assms(1) ss by (auto simp: length_Suc_conv)
    then have "replay_record (aof_log ss) cv = Some (''INCR'', show_int (to_int32 (c_atoi (snd cv) + 1)))" for cv
      using replay 2 ss by simp
    then show ?thesis
      unfolding step using kv_of_incr [OF assms(2), of k "aof_log ss"] nul 2 args clean key ss by simp
  next
    case 3
    then obtain k args' where args: "args = k # args'"
      using assms(1) ss by (cases args) auto
    have "kv_step ss m = m(k := None)" for m
      using 3 args ss by (cases args'; cases "tl args'") auto
    then show ?thesis
      unfolding step using kv_of_del [OF assms(2), of k] 3 args clean key ss by simp
  next
    case 4
    have "kv_step ss m = m" for m
      using 4 ss by (cases "(ss, m)" rule: kv_step.cases) auto
    then show ?thesis
      unfolding step using assms(2) 4 by simp
  qed
  then show "kv_of records (fst (initial_step B (advance n (record_vars ss st)) db)) = kv_step ss (kv_of records db)"
    and "good_index records (fst (initial_step B (advance n (record_vars ss st)) db))"
    by blast+
qed

lemma initial_loop_kv:
  assumes "\<forall>ss \<in> set log. wf_record ss" and "good_index records db" and "\<forall>r \<in> set_option rep. good_index records r"
  shows "\<exists>st' db' rep' m'.
           initial_loop B repl st (concat (map aof_record log)) db rep n m = Inr (st', db', rep', n + length log, m') \<and>
           r_seek st' = r_seek st + of_nat (length (concat (map aof_record log))) \<and>
           kv_of records db' = fold kv_step log (kv_of records db) \<and> good_index records db' \<and>
           (rep = None \<longleftrightarrow> rep' = None) \<and>
           (\<forall>r r'. rep = Some r \<and> rep' = Some r' \<longrightarrow>
              kv_of records r' = (if repl then fold kv_step log (kv_of records r) else kv_of records r) \<and>
              good_index records r')"
  using assms
proof (induction log arbitrary: st db rep n m)
  case Nil
  then show ?case by (auto simp: initial_loop.simps c_fgets_def)
next
  case (Cons ss log)
  have wf: "wf_record ss"
    using Cons.prems(1) by simp
  then have sized: "sized_args ss"
    by (cases ss) auto
  have wfs: "\<forall>ss \<in> set log. wf_record ss"
    using Cons.prems(1) by simp
  define st1 where "st1 = advance (length (aof_record ss)) (record_vars ss st)"
  have line: "c_fgets 128 (concat (map aof_record (ss # log))) =
                Some (header_line (CHR ''*'') (length ss), concat (map bulk ss) @ concat (map aof_record log))"
    using aof_record_line [OF sized] by simp
  have rec: "read_record st (header_line (CHR ''*'') (length ss)) (concat (map bulk ss) @ concat (map aof_record log)) =
               Inr (st1, concat (map aof_record log))"
    using read_record_aof [OF sized] by (simp add: st1_def)
  obtain db1 i where step: "initial_step B st1 db = (db1, i)"
    by fastforce
  have db1: "kv_of records db1 = kv_step ss (kv_of records db)" "good_index records db1"
    using initial_step_kv [OF wf Cons.prems(2), of "length (aof_record ss)" st] step by (simp_all add: st1_def)
  define rep1 where "rep1 = (if repl then map_option (\<lambda>r. fst (initial_step B st1 r)) rep else rep)"
  have rep1: "\<forall>r \<in> set_option rep1. good_index records r"
    using Cons.prems(3) initial_step_kv(2) [OF wf] by (auto simp: rep1_def st1_def)
  have rep1_kv: "rep = Some r \<Longrightarrow> \<exists>r1. rep1 = Some r1 \<and>
      kv_of records r1 = (if repl then kv_step ss (kv_of records r) else kv_of records r)" for r
    using Cons.prems(3) initial_step_kv(1) [OF wf] by (auto simp: rep1_def st1_def)
  define st2 where "st2 = st1\<lparr>r_command := sdstoupper (r_command st1)\<rparr>"
  have "initial_loop B repl st (concat (map aof_record (ss # log))) db rep n m =
          initial_loop B repl st2 (concat (map aof_record log)) db1 rep1 (n + 1) (m + i)"
    using rec step by (subst initial_loop.simps) (simp only: line option.case prod.case sum.case rec step Let_def
        rep1_def [symmetric] st2_def [symmetric])
  moreover obtain st' db' rep' m' where out:
    "initial_loop B repl st2 (concat (map aof_record log)) db1 rep1 (n + 1) (m + i) = Inr (st', db', rep', n + 1 + length log, m')"
    "r_seek st' = r_seek st2 + of_nat (length (concat (map aof_record log)))"
    "kv_of records db' = fold kv_step log (kv_of records db1)" "good_index records db'"
    "rep1 = None \<longleftrightarrow> rep' = None"
    "\<forall>r r'. rep1 = Some r \<and> rep' = Some r' \<longrightarrow>
       kv_of records r' = (if repl then fold kv_step log (kv_of records r) else kv_of records r) \<and> good_index records r'"
    using Cons.IH [OF wfs db1(2) rep1, of st2 "n + 1" "m + i"] by blast
  moreover have "r_seek st2 = r_seek st + of_nat (length (aof_record ss))"
  proof -
    have "r_seek (store_args j ts st) = r_seek st" for j ts st
      by (induction ts arbitrary: j st) (auto simp: store_arg_def)
    then show ?thesis
      by (simp add: st2_def st1_def advance_def record_vars_def)
  qed
  moreover have "rep = None \<longleftrightarrow> rep1 = None"
    by (simp add: rep1_def)
  moreover have "kv_of records r' = (if repl then fold kv_step (ss # log) (kv_of records r) else kv_of records r) \<and>
                 good_index records r'" if "rep = Some r" "rep' = Some r'" for r r'
  proof -
    obtain r1 where "rep1 = Some r1" "kv_of records r1 = (if repl then kv_step ss (kv_of records r) else kv_of records r)"
      using rep1_kv \<open>rep = Some r\<close> by blast
    with out(6) \<open>rep' = Some r'\<close> show ?thesis by simp
  qed
  ultimately show ?case
    using db1(1) out(3,4,5) by (intro exI [of _ st'] exI [of _ db'] exI [of _ rep'] exI [of _ m']) simp
qed

text \<open>So does a step of \<open>writeToIndexedLog\<close>, except for \<^verbatim>\<open>INCR\<close>.\<close>

lemma write_step_kv:
  assumes "good_index records db" and "clean k" and "clean v" and "length k < 50" and "length v < 50"
    and "\<And>s. in_int64 (glen s)" and "NUL \<notin> set c" and "c \<noteq> ''INCR''"
  shows "\<exists>db' n. write_step B glen \<lparr>ri_command = c, ri_key = k, ri_value = v\<rparr> db = Some (db', n) \<and>
           kv_of records db' = ri_kv \<lparr>ri_command = c, ri_key = k, ri_value = v\<rparr> (kv_of records db) \<and>
           good_index records db'"
proof -
  have "length (show_int (glen s)) \<le> 20" for s
    using assms(6) by (rule length_show_int)
  from this [of k] this [of v] obtain data where data: "set_log_record glen k v = Some data"
    using assms(2-5) by (simp add: set_log_record_def Let_def)
  note replay = replay_set_log_record [OF data assms(2,3)]
  note set = kv_of_set [OF assms(1,2) replay(1) replay(2)]
  consider "c = ''SET''" | "c = ''SETCHECKPOINT''" | "c = ''DEL''"
    | "c \<noteq> ''SET''" "c \<noteq> ''SETCHECKPOINT''" "c \<noteq> ''DEL''"
    by blast
  then show ?thesis
  proof cases
    case 1
    then show ?thesis using set(1,2) data by (simp add: write_step_def c_streq_def ri_kv_def)
  next
    case 2
    then show ?thesis using set(3,4) data by (simp add: write_step_def c_streq_def ri_kv_def)
  next
    case 3
    then show ?thesis using kv_of_del [OF assms(1,2)] by (simp add: write_step_def c_streq_def ri_kv_def)
  next
    case 4
    then show ?thesis using assms(1,7,8) by (simp add: write_step_def c_streq_def ri_kv_def)
  qed
qed

end

end
