(* ===== verification/Indexer_Threads.thy ===== *)
theory Indexer_Threads
  imports Log_Replay
begin

text \<open>
  The threads that index while the server runs (\<^verbatim>\<open>src/src/instant_recovery.c\<close>):
  \<open>indexesSequentialLogToIndexedLogV2\<close>, which collects the new records of the log in a list and
  writes the list to the indexed log, its predecessor \<open>indexesSequentialLogToIndexedLogV1\<close>, and
  \<open>synchronousIndexing\<close>, which is called with the bytes just written to the log.

  A turn of the main loop of a thread is a function of what the log file holds at that moment.
  Other threads stop an indexer by setting \<^verbatim>\<open>server.indexer_state\<close>; what the tests of that
  variable see in a turn is an argument.  The main theorem about V2: however the log grows between
  the turns, and wherever a turn meets the end of the file inside of a record, no record is lost
  and none is indexed twice.
\<close>

section \<open>Version 2\<close>

record signals =
  sg_wait :: bool
  sg_main :: bool
  sg_batch :: "nat \<Rightarrow> bool"
  sg_after :: bool
  sg_write :: "nat \<Rightarrow> bool"

definition no_stop :: signals where
  "no_stop = \<lparr>sg_wait = True, sg_main = True, sg_batch = (\<lambda>i. True), sg_after = True, sg_write = (\<lambda>i. True)\<rparr>"

datatype v2_batch_result =
    Batch_done rstate ri_list
  | Batch_stopped rstate ri_list
  | Batch_retry rstate ri_list
  | Batch_exit
  | Batch_undefined

text \<open>The inner loop, from the record whose first line \<open>buf\<close> was read to the end of the file.\<close>

function v2_batch :: "(nat \<Rightarrow> bool) \<Rightarrow> nat \<Rightarrow> rstate \<Rightarrow> ri_list \<Rightarrow> string \<Rightarrow> string \<Rightarrow> v2_batch_result" where
  "v2_batch alive i st lst buf inp =
     (if \<not> alive i then Batch_stopped st lst
      else
        let command_start_seek = r_seek st in
        (case read_record st buf inp of
           Inl (Readerr True) \<Rightarrow> Batch_retry (st\<lparr>r_seek := command_start_seek\<rparr>) lst
         | Inl _ \<Rightarrow> Batch_exit
         | Inr (st, inp) \<Rightarrow>
             (let st = st\<lparr>r_command := sdstoupper (r_command st)\<rparr> in
              case addRecordToIndex lst (r_command st) (r_key st) (r_value st) of
                None \<Rightarrow> Batch_undefined
              | Some lst \<Rightarrow>
                  (case c_fgets 128 inp of
                     None \<Rightarrow> Batch_done st lst
                   | Some (buf, inp) \<Rightarrow> v2_batch alive (i + 1) st lst buf inp))))"
  by pat_completeness auto
termination
  by (relation "measure (\<lambda>(alive, i, st, lst, buf, inp). length inp)")
    (auto dest!: read_record_shorter c_fgets_shorter)

declare v2_batch.simps [simp del]

record 'db v2 =
  v_rd :: rstate
  v_list :: ri_list
  v_db :: 'db
  v_fs :: fs
  v_server_seek :: "64 word"
  v_count :: nat
  v_indexed :: nat
  v_report :: "(int \<times> int \<times> nat \<times> nat) list"

datatype 'db v2_result = V2_continue "'db v2" | V2_stop "'db v2" | V2_exit | V2_undefined

text \<open>The state before the main loop.\<close>

definition v2_start :: "'db \<Rightarrow> fs \<Rightarrow> 64 word \<Rightarrow> 'db v2" where
  "v2_start db f server_seek =
     \<lparr>v_rd = empty_rstate\<lparr>r_seek := of_int (readFinalLogSeek FINAL_LOG_SEEK f)\<rparr>,
      v_list = insertFirstRecordToIndex, v_db = db, v_fs = f, v_server_seek = server_seek,
      v_count = 0, v_indexed = 0, v_report = []\<rparr>"

text \<open>The part after a batch was read.\<close>

definition v2_write :: "('db, 'c) bdb \<Rightarrow> (string \<Rightarrow> int) \<Rightarrow> bool \<Rightarrow> int \<times> int \<Rightarrow> signals \<Rightarrow> 'db v2 \<Rightarrow> 'db v2_result" where
  "v2_write B glen report_on clock sg v =
     (case v_list v of
        None \<Rightarrow> V2_undefined
      | Some [] \<Rightarrow> V2_continue v
      | Some ris \<Rightarrow>
          (case writeToIndexedLog B glen (sg_write sg) ris (r_seek (v_rd v)) (v_db v) (v_fs v) (v_server_seek v) of
             None \<Rightarrow> V2_undefined
           | Some (signal, db, f, server_seek, n, m) \<Rightarrow>
               (let v = v\<lparr>v_db := db, v_fs := f, v_server_seek := server_seek,
                          v_report := (if report_on then v_report v @ [(fst clock, snd clock, n, m)] else v_report v),
                          v_count := v_count v + n, v_indexed := v_indexed v + m\<rparr>
                in if \<not> signal then V2_stop v
                   else V2_continue (v\<lparr>v_list := insertFirstRecordToIndex\<rparr>))))"

definition v2_round :: "('db, 'c) bdb \<Rightarrow> (string \<Rightarrow> int) \<Rightarrow> bool \<Rightarrow> int \<times> int \<Rightarrow> signals \<Rightarrow> string \<Rightarrow> 'db v2 \<Rightarrow> 'db v2_result" where
  "v2_round B glen report_on clock sg aof v =
     (if \<not> sg_wait sg then V2_stop v
      else
        (case c_fgets 128 (file_from (r_seek (v_rd v)) aof) of
           None \<Rightarrow> V2_continue v
         | Some (buf, inp) \<Rightarrow>
             if \<not> sg_main sg then V2_stop v
             else
               (case v2_batch (sg_batch sg) 0 (v_rd v) (v_list v) buf inp of
                  Batch_retry st lst \<Rightarrow> V2_continue (v\<lparr>v_rd := st, v_list := lst\<rparr>)
                | Batch_stopped st lst \<Rightarrow> V2_stop (v\<lparr>v_rd := st, v_list := lst\<rparr>)
                | Batch_exit \<Rightarrow> V2_exit
                | Batch_undefined \<Rightarrow> V2_undefined
                | Batch_done st lst \<Rightarrow>
                    (let v = v\<lparr>v_rd := st, v_list := lst\<rparr> in
                     if \<not> sg_after sg then V2_stop v else v2_write B glen report_on clock sg v))))"

text \<open>The thread over a sequence of turns, each with the content of the log and the signals of
  that moment; \<^verbatim>\<open>indexesSequentialLogToIndexedLogV2\<close> after its start.\<close>

fun v2_run :: "('db, 'c) bdb \<Rightarrow> (string \<Rightarrow> int) \<Rightarrow> bool \<Rightarrow> (signals \<times> (int \<times> int) \<times> string) list \<Rightarrow> 'db v2 \<Rightarrow> 'db v2_result" where
  "v2_run B glen report_on [] v = V2_continue v"
| "v2_run B glen report_on ((sg, clock, aof) # turns) v =
     (case v2_round B glen report_on clock sg aof v of
        V2_continue v \<Rightarrow> v2_run B glen report_on turns v
      | r \<Rightarrow> r)"

text \<open>The guard at the start of the thread and its end.\<close>

definition indexesSequentialLogToIndexedLogV2 ::
    "('db, 'c) bdb \<Rightarrow> 'db \<Rightarrow> (string \<Rightarrow> int) \<Rightarrow> bool \<Rightarrow> bool \<Rightarrow> ix_config \<Rightarrow> 64 word \<Rightarrow> 'db disk \<Rightarrow>
     (signals \<times> (int \<times> int) \<times> string) list \<Rightarrow> 'db v2_result option" where
  "indexesSequentialLogToIndexedLogV2 B empty_db glen indexer_on report_on cfg server_seek dk turns =
     (if indexer_on then None
      else if fs_files (d_fs dk) (aof_filename cfg) = None then Some V2_exit
      else (case fst (openBerkeleyDB empty_db (indexedlog_filename cfg) True dk) of
              None \<Rightarrow> None
            | Some db \<Rightarrow>
                Some (case v2_run B glen report_on turns (v2_start db (d_fs dk) server_seek) of
                        V2_stop v \<Rightarrow> V2_stop (v\<lparr>v_list := snd (clearListRecordToIndex (v_list v))\<rparr>)
                      | r \<Rightarrow> r)))"

section \<open>Version 1\<close>

definition v1_step :: "('db, 'c) bdb \<Rightarrow> rstate \<Rightarrow> 'db \<Rightarrow> ('db \<times> nat) option" where
  "v1_step B st db =
     (let command = r_command st; key = r_key st in
      if sdscmp command ''SET'' = 0 then Some (add_log B db key (r_log st), 1)
      else if sdscmp command ''INCR'' = 0 then Some (add_log B db key (r_log st), 1)
      else if sdscmp command ''DEL'' = 0 then Some (del_log B db key, 1)
      else if sdscmp command ''SETCHECKPOINT'' = 0
      then map_option (\<lambda>d. (add_log B (del_log B db key) key d, 1))
             (createSetLogRecord (int \<circ> length) key (r_value st))
      else Some (db, 0))"

datatype 'db v1_result = V1_end rstate 'db fs nat nat | V1_stop rstate 'db fs nat nat | V1_exit | V1_undefined

text \<open>From a position to the end of the log; there the position is stored.\<close>

function v1_loop :: "('db, 'c) bdb \<Rightarrow> (nat \<Rightarrow> bool) \<Rightarrow> rstate \<Rightarrow> string \<Rightarrow> 'db \<Rightarrow> fs \<Rightarrow> nat \<Rightarrow> nat \<Rightarrow> 'db v1_result" where
  "v1_loop B alive st inp db f n m =
     (case c_fgets 128 inp of
        None \<Rightarrow> V1_end st db (snd (writeFinalLogSeek FINAL_LOG_SEEK (r_seek st) f)) n m
      | Some (buf, inp) \<Rightarrow>
          (case read_record st buf inp of
             Inl _ \<Rightarrow> V1_exit
           | Inr (st, inp) \<Rightarrow>
               (let st = st\<lparr>r_command := sdstoupper (r_command st)\<rparr> in
                case v1_step B st db of
                  None \<Rightarrow> V1_undefined
                | Some (db, k) \<Rightarrow>
                    if \<not> alive n then V1_stop st db f (n + 1) (m + k)
                    else v1_loop B alive st inp db f (n + 1) (m + k))))"
  by pat_completeness auto
termination
  by (relation "measure (\<lambda>(B, alive, st, inp, db, f, n, m). length inp)")
    (auto dest: next_record_shorter)

declare v1_loop.simps [simp del]

section \<open>Synchronous indexing\<close>

text \<open>\<^verbatim>\<open>strcpy\<close> into an array of 50 bytes and removal of the last character (the carriage return).\<close>

definition copy_chop :: "string \<Rightarrow> string option" where
  "copy_chop l = (if l = [] \<or> 50 \<le> length l then None else Some (butlast l))"

definition sync_log_record :: "string \<Rightarrow> string \<Rightarrow> string" where
  "sync_log_record key value =
     ''*3\<newline>$3\<newline>SET\<newline>$'' @ show_nat (length key) @ ''\<newline>'' @ key @ ''\<newline>$'' @ show_nat (length value) @ ''\<newline>'' @ value"

text \<open>One record at line \<open>k\<close>: the indexed log and the next line, or that the loop is left
  (\<^term>\<open>Inl\<close>).\<close>

definition sync_step :: "('db, 'c) bdb \<Rightarrow> string list \<Rightarrow> nat \<Rightarrow> 'db \<Rightarrow> ('db + 'db \<times> int) option" where
  "sync_step B ls k db =
     (if cstr (ls ! k) = [] then Some (Inl db)
      else if 50 \<le> c_strlen (ls ! k) then None
      else
        let argc = c_atoi (tl (cstr (ls ! k))) in
        case Option.bind (if k + 2 < length ls then Some (cstr (ls ! (k + 2))) else None) copy_chop of
          None \<Rightarrow> None
        | Some command \<Rightarrow>
            if command = [] then Some (Inl db)
            else
              (case Option.bind (if k + 4 < length ls then Some (cstr (ls ! (k + 4))) else None) copy_chop of
                 None \<Rightarrow> None
               | Some key \<Rightarrow>
                   if c_strcaseeq command ''SET''
                   then
                     (case Option.bind (if k + 6 < length ls then Some (cstr (ls ! (k + 6))) else None) copy_chop of
                        None \<Rightarrow> None
                      | Some value \<Rightarrow>
                          Some (Inr (add_log B (del_log B db key) key (sync_log_record key value),
                                     int k + 2 * argc + 1)))
                   else Some (Inr (db, int k + 2 * argc + 1))))"

text \<open>Since the number of arguments is not checked the loop may go back; it is bounded by \<open>fuel\<close>.\<close>

fun sync_loop :: "nat \<Rightarrow> ('db, 'c) bdb \<Rightarrow> string list \<Rightarrow> int \<Rightarrow> 'db \<Rightarrow> 'db option" where
  "sync_loop 0 B ls k db = None"
| "sync_loop (Suc fuel) B ls k db =
     (if int (length ls) \<le> k then Some db
      else if k < 0 then None
      else case sync_step B ls (nat k) db of
             None \<Rightarrow> None
           | Some (Inl db) \<Rightarrow> Some db
           | Some (Inr (db, k)) \<Rightarrow> sync_loop fuel B ls k db)"

definition synchronousIndexing :: "nat \<Rightarrow> ('db, 'c) bdb \<Rightarrow> bool \<Rightarrow> bool \<Rightarrow> string \<Rightarrow> 'db option \<Rightarrow> 'db option option" where
  "synchronousIndexing fuel B ir_state synchronous buf opened =
     (if ir_state \<and> synchronous
      then (case opened of
              None \<Rightarrow> Some None
            | Some db \<Rightarrow>
                (case sdssplitlen (sdsnew buf) ''\<newline>'' of
                   None \<Rightarrow> None
                 | Some ls \<Rightarrow> map_option Some (sync_loop fuel B ls 0 db)))
      else Some opened)"

section \<open>No record is lost by version 2\<close>

text \<open>Records the list can hold: no \<^verbatim>\<open>INCR\<close>, and texts that fit into the arrays.\<close>

definition v2_record :: "string list \<Rightarrow> bool" where
  "v2_record ss \<longleftrightarrow> wf_record ss \<and> length (hd ss) < 20 \<and> (\<forall>s \<in> set (take 2 (tl ss)). length s < 50) \<and>
                  sdstoupper (hd ss) \<noteq> ''INCR'' \<and> (sdstoupper (hd ss) = ''SETCHECKPOINT'' \<longrightarrow> length ss = 3)"

definition small_vars :: "rstate \<Rightarrow> bool" where
  "small_vars st \<longleftrightarrow> clean (r_key st) \<and> length (r_key st) < 50 \<and> clean (r_value st) \<and> length (r_value st) < 50"

definition lists_record :: "string list \<Rightarrow> recordToIndex \<Rightarrow> bool" where
  "lists_record ss ri \<longleftrightarrow>
     ri_command ri = sdstoupper (hd ss) \<and> NUL \<notin> set (ri_command ri) \<and> ri_command ri \<noteq> ''INCR'' \<and>
     clean (ri_key ri) \<and> length (ri_key ri) < 50 \<and> clean (ri_value ri) \<and> length (ri_value ri) < 50 \<and>
     (\<forall>m. ri_kv ri m = kv_step_cp ss m)"

lemma v2_record_wf: "v2_record ss \<Longrightarrow> wf_record ss" "v2_record ss \<Longrightarrow> sized_args ss"
  by (cases ss; simp add: v2_record_def)+

text \<open>The state after a record was read.\<close>

definition read_state :: "string list \<Rightarrow> rstate \<Rightarrow> rstate" where
  "read_state ss st =
     (advance (length (aof_record ss)) (record_vars ss st))\<lparr>r_command := sdstoupper (r_command (record_vars ss st))\<rparr>"

lemma r_seek_record_vars [simp]: "r_seek (record_vars ss st) = r_seek st"
proof -
  have "r_seek (store_args j ss st) = r_seek st" for j
    by (induction ss arbitrary: j st) (auto simp: store_arg_def)
  then show ?thesis
    by (simp add: record_vars_def)
qed

lemma r_seek_read_state [simp]: "r_seek (read_state ss st) = r_seek st + of_nat (length (aof_record ss))"
  by (simp add: read_state_def advance_def)

lemma read_state_lists:
  assumes "v2_record ss" and "small_vars st"
  obtains ri where "addRecordToIndex (Some ris) (r_command (read_state ss st)) (r_key (read_state ss st))
                      (r_value (read_state ss st)) = Some (Some (ris @ [ri]))"
    and "lists_record ss ri" and "small_vars (read_state ss st)"
proof -
  obtain c args where ss: "ss = c # args" "wf_record (c # args)"
    using assms(1) by (cases ss) (auto simp: v2_record_def)
  then have clean: "\<forall>s \<in> set (c # args). clean s" and c: "length c < 20" "sdstoupper c \<noteq> ''INCR''"
    using assms(1) by (auto simp: v2_record_def)
  let ?k = "r_key (read_state ss st)" and ?v = "r_value (read_state ss st)"
  have cmd: "r_command (read_state ss st) = sdstoupper c"
    using clean by (simp add: read_state_def ss(1))
  consider "args = []" | k where "args = [k]" | k v args' where "args = k # v # args'"
    by (metis list.exhaust)
  then have vars: "clean ?k" "length ?k < 50" "clean ?v" "length ?v < 50"
      "args \<noteq> [] \<Longrightarrow> ?k = hd args" "2 \<le> length args \<Longrightarrow> ?v = args ! 1"
    using assms clean ss(1)
    by (cases; auto simp: read_state_def small_vars_def v2_record_def advance_def)+
  define ri where "ri = \<lparr>ri_command = sdstoupper c, ri_key = ?k, ri_value = ?v\<rparr>"
  have "addRecordToIndex (Some ris) (r_command (read_state ss st)) ?k ?v = Some (Some (ris @ [ri]))"
    using vars c(1) clean by (simp add: addRecordToIndex_def cmd c_strlen_def ri_def)
  moreover have "ri_kv ri m = kv_step_cp ss m" for m
  proof -
    consider "sdstoupper c = ''SET''" | "sdstoupper c = ''SETCHECKPOINT''" | "sdstoupper c = ''DEL''"
      | "sdstoupper c \<noteq> ''SET''" "sdstoupper c \<noteq> ''SETCHECKPOINT''" "sdstoupper c \<noteq> ''DEL''"
      by blast
    then show ?thesis
    proof cases
      case 1
      then obtain k v where "args = [k, v]"
        using ss(2) by (auto simp: length_Suc_conv numeral_2_eq_2)
      with 1 vars(5,6) show ?thesis by (simp add: ri_kv_def ri_def ss(1))
    next
      case 2
      then obtain k v where "args = [k, v]"
        using assms(1) ss(1) by (auto simp: v2_record_def length_Suc_conv numeral_2_eq_2 numeral_3_eq_3)
      with 2 vars(5,6) show ?thesis by (simp add: ri_kv_def ri_def ss(1))
    next
      case 3
      then obtain k args' where args: "args = k # args'"
        using ss(2) by (cases args) auto
      have "kv_step_cp ss m = m(k := None)"
        using 3 args ss(1) by (cases args'; cases "tl args'") auto
      with 3 args vars(5) show ?thesis by (simp add: ri_kv_def ri_def)
    next
      case 4
      have "kv_step_cp ss m = m"
        using 4 c(2) ss(1) by (cases "(ss, m)" rule: kv_step.cases) auto
      with 4 show ?thesis by (simp add: ri_kv_def ri_def)
    qed
  qed
  ultimately show thesis
    using that [of ri] vars(1-4) clean c(2) by (simp add: lists_record_def ri_def ss(1) small_vars_def)
qed

lemma read_record_state:
  assumes "v2_record ss"
  shows "c_fgets 128 (aof_record ss @ r) = Some (header_line (CHR ''*'') (length ss), concat (map bulk ss) @ r)"
    and "read_record st (header_line (CHR ''*'') (length ss)) (concat (map bulk ss) @ r) =
           Inr (advance (length (aof_record ss)) (record_vars ss st), r)"
  using aof_record_line [OF v2_record_wf(2) [OF assms]] read_record_aof [OF v2_record_wf(2) [OF assms]] by simp_all

text \<open>A batch over the part of the log that is on disk.\<close>

lemma v2_batch_prefix:
  assumes "\<forall>ss \<in> set log. v2_record ss" and "small_vars st"
    and "c_fgets 128 (take n (concat (map aof_record log))) = Some (buf, inp)"
  shows "\<exists>got left new st'.
           log = got @ left \<and> list_all2 lists_record got new \<and> small_vars st' \<and>
           r_seek st' = r_seek st + of_nat (length (concat (map aof_record got))) \<and>
           (v2_batch (\<lambda>i. True) i st (Some ris) buf inp = Batch_done st' (Some (ris @ new)) \<and>
              (length (concat (map aof_record log)) \<le> n \<longrightarrow> left = []) \<and> got \<noteq> [] \<or>
            v2_batch (\<lambda>i. True) i st (Some ris) buf inp = Batch_retry st' (Some (ris @ new)) \<and> left \<noteq> [] \<and>
              n < length (concat (map aof_record log)))"
  using assms
proof (induction log arbitrary: n st i ris buf inp)
  case Nil
  then show ?case by (simp add: c_fgets_def)
next
  case (Cons ss log)
  have ss: "v2_record ss" and rec: "\<forall>ss \<in> set log. v2_record ss"
    using Cons.prems(1) by simp_all
  note unfold = v2_batch.simps [of "\<lambda>i. True" i st "Some ris" buf inp]
  let ?L = "concat (map aof_record log)"
  show ?case
  proof (cases "n < length (aof_record ss)")
    case True
    let ?p = "take n (aof_record ss)" and ?q = "drop n (aof_record ss)"
    have get: "c_fgets 128 ?p = Some (buf, inp)"
      using Cons.prems(3) True by simp
    then have "?p \<noteq> []"
      by (metis c_fgets_def option.distinct(1))
    then have "read_record st buf inp = Inl (Readerr True)"
      using read_record_torn [of ?p ?q ss st] True v2_record_wf(2) [OF ss] get by fastforce
    then have "v2_batch (\<lambda>i. True) i st (Some ris) buf inp = Batch_retry st (Some (ris @ []))"
      by (simp add: unfold)
    with True Cons.prems(2) show ?thesis
      by (intro exI [of _ "[]"] exI [of _ "ss # log"] exI [of _ st]) auto
  next
    case False
    define n' where "n' = n - length (aof_record ss)"
    have "c_fgets 128 (aof_record ss @ take n' ?L) = Some (buf, inp)"
      using Cons.prems(3) False by (simp add: n'_def)
    then have buf: "buf = header_line (CHR ''*'') (length ss)" and inp: "inp = concat (map bulk ss) @ take n' ?L"
      using read_record_state(1) [OF ss] by auto
    obtain ri where add: "addRecordToIndex (Some ris) (r_command (read_state ss st)) (r_key (read_state ss st))
                            (r_value (read_state ss st)) = Some (Some (ris @ [ri]))"
        and ri: "lists_record ss ri" and small: "small_vars (read_state ss st)"
      using read_state_lists [OF ss Cons.prems(2), of ris] by metis
    define x where "x = advance (length (aof_record ss)) (record_vars ss st)"
    have vars: "x\<lparr>r_command := sdstoupper (r_command x)\<rparr> = read_state ss st"
      by (simp add: x_def read_state_def advance_def)
    have add': "addRecordToIndex (Some ris) (sdstoupper (r_command x)) (r_key x) (r_value x) = Some (Some (ris @ [ri]))"
      using add by (simp flip: vars)
    have step: "v2_batch (\<lambda>i. True) i st (Some ris) buf inp =
                  (case c_fgets 128 (take n' ?L) of
                     None \<Rightarrow> Batch_done (read_state ss st) (Some (ris @ [ri]))
                   | Some (buf, inp) \<Rightarrow> v2_batch (\<lambda>i. True) (i + 1) (read_state ss st) (Some (ris @ [ri])) buf inp)"
      unfolding buf inp by (subst v2_batch.simps) (simp add: read_record_state(2) [OF ss] x_def [symmetric] Let_def add' flip: vars split: option.split)
    show ?thesis
    proof (cases "c_fgets 128 (take n' ?L)")
      case None
      then have "take n' ?L = []"
        by (auto simp: c_fgets_def Let_def split: if_splits)
      then have "length (concat (map aof_record (ss # log))) \<le> n \<longrightarrow> log = []"
        using False by (cases log) (auto simp: n'_def)
      with None step ri small show ?thesis
        by (intro exI [of _ "[ss]"] exI [of _ log] exI [of _ "[ri]"] exI [of _ "read_state ss st"]) simp
    next
      case (Some p)
      obtain buf' inp' where p: "p = (buf', inp')"
        by fastforce
      obtain got left new st' where IH: "log = got @ left" "list_all2 lists_record got new" "small_vars st'"
          "r_seek st' = r_seek (read_state ss st) + of_nat (length (concat (map aof_record got)))"
          "v2_batch (\<lambda>i. True) (i + 1) (read_state ss st) (Some (ris @ [ri])) buf' inp' =
             Batch_done st' (Some ((ris @ [ri]) @ new)) \<and> (length ?L \<le> n' \<longrightarrow> left = []) \<and> got \<noteq> [] \<or>
           v2_batch (\<lambda>i. True) (i + 1) (read_state ss st) (Some (ris @ [ri])) buf' inp' =
             Batch_retry st' (Some ((ris @ [ri]) @ new)) \<and> left \<noteq> [] \<and> n' < length ?L"
        using Cons.IH [OF rec small Some [unfolded p], of "i + 1" "ris @ [ri]"] by blast
      have bound: "length ?L \<le> n' \<longleftrightarrow> length (concat (map aof_record (ss # log))) \<le> n"
        using False by (auto simp: n'_def)
      show ?thesis
        using IH step Some p ri bound
        by (intro exI [of _ "ss # got"] exI [of _ left] exI [of _ "ri # new"] exI [of _ st']) (auto simp: not_le)
    qed
  qed
qed

text \<open>Writing a list.\<close>

context indexed_log
begin

lemma write_loop_kv:
  assumes "list_all2 lists_record got new" and "good_index records db" and "\<And>s. in_int64 (glen s)"
  shows "\<exists>db' m'. write_loop B glen (\<lambda>i. True) i new db m = Some (True, db', i + length new, m') \<and>
           kv_of records db' = fold kv_step_cp got (kv_of records db) \<and> good_index records db'"
  using assms(1,2)
proof (induction got arbitrary: new db i m)
  case (Cons ss got)
  then obtain ri new' where new: "new = ri # new'" "lists_record ss ri" "list_all2 lists_record got new'"
    by (auto simp: list_all2_Cons1)
  let ?ri = "\<lparr>ri_command = ri_command ri, ri_key = ri_key ri, ri_value = ri_value ri\<rparr>"
  obtain db1 k where step: "write_step B glen ?ri db = Some (db1, k)"
      "kv_of records db1 = ri_kv ?ri (kv_of records db)" "good_index records db1"
    using write_step_kv [OF Cons.prems(2), of "ri_key ri" "ri_value ri" glen "ri_command ri"] new(2) assms(3)
    by (auto simp: lists_record_def)
  have ri: "?ri = ri"
    by simp
  have step': "write_step B glen ri db = Some (db1, k)" "kv_of records db1 = kv_step_cp ss (kv_of records db)"
    using step(1,2) [unfolded ri] new(2) by (simp_all add: lists_record_def)
  obtain db' m' where "write_loop B glen (\<lambda>i. True) (i + 1) new' db1 (m + k) = Some (True, db', i + 1 + length new', m')"
      "kv_of records db' = fold kv_step_cp got (kv_of records db1)" "good_index records db'"
    using Cons.IH [OF new(3) step(3), of "i + 1" "m + k"] by blast
  then show ?case
    using step' new(1) by simp
qed simp

end

text \<open>What holds between two turns: the records \<open>fin\<close> are in the indexed log, the records \<open>pend\<close> are
  in the list, the position is behind them, and the stored position is behind \<open>fin\<close>.\<close>

definition log_len :: "string list list \<Rightarrow> nat" where
  "log_len log = length (concat (map aof_record log))"

lemma log_len_simps [simp]:
  "log_len [] = 0" "log_len (a @ b) = log_len a + log_len b" "log_len (ss # b) = length (aof_record ss) + log_len b"
  by (simp_all add: log_len_def)

definition v2_inv :: "('db \<Rightarrow> string \<Rightarrow> string list) \<Rightarrow> string list list \<Rightarrow> kv \<Rightarrow> string list list \<Rightarrow> string list list \<Rightarrow>
    string list list \<Rightarrow> 'db v2 \<Rightarrow> bool" where
  "v2_inv records log kv0 fin pend left v \<longleftrightarrow>
     log = fin @ pend @ left \<and> (pend \<noteq> [] \<longrightarrow> left \<noteq> []) \<and>
     (\<exists>ris. v_list v = Some ris \<and> list_all2 lists_record pend ris) \<and>
     small_vars (v_rd v) \<and> r_seek (v_rd v) = of_nat (log_len (fin @ pend)) \<and>
     kv_of records (v_db v) = fold kv_step_cp fin kv0 \<and> good_index records (v_db v) \<and>
     \<not> fs_readonly (v_fs v) FINAL_LOG_SEEK \<and>
     readFinalLogSeek FINAL_LOG_SEEK (v_fs v) = int (log_len fin)"

lemma unat_of_nat_63: "n < 2 ^ 63 \<Longrightarrow> unat (of_nat n :: 64 word) = n"
  by (simp add: unat_of_nat)

lemma file_from_log:
  assumes "log_len (a @ b) < 2 ^ 63"
  shows "file_from (of_nat (log_len a)) (take n (concat (map aof_record (a @ b)))) =
           take (n - log_len a) (concat (map aof_record b))"
proof -
  have len: "log_len a < 2 ^ 63"
    using assms by simp
  then have "unat (of_nat (log_len a) :: 64 word) = log_len a"
    by (rule unat_of_nat_63)
  moreover have "0 \<le> sint (of_nat (log_len a) :: 64 word)"
    using len by (simp add: sint_uint unsigned_of_nat take_bit_nat_eq_self take_bit_int_eq_self bit_iff_odd)
  moreover have "drop (log_len a) (take n (concat (map aof_record (a @ b)))) =
                   take (n - log_len a) (concat (map aof_record b))"
    unfolding drop_take by (simp add: log_len_def)
  ultimately show ?thesis
    by (simp add: file_from_def)
qed

context indexed_log
begin

lemma v2_round_inv:
  assumes "v2_inv records log kv0 fin pend left v" and "\<forall>ss \<in> set log. v2_record ss" and "log_len log < 2 ^ 63"
    and "\<And>s. in_int64 (glen s)"
  shows "\<exists>v' fin' pend' left'.
           v2_round B glen report clock no_stop (take n (concat (map aof_record log))) v = V2_continue v' \<and>
           v2_inv records log kv0 fin' pend' left' v' \<and>
           (log_len log \<le> n \<longrightarrow> fin' = log)"
proof -
  have log: "log = (fin @ pend) @ left" and seek: "r_seek (v_rd v) = of_nat (log_len (fin @ pend))"
    and small: "small_vars (v_rd v)" and good: "good_index records (v_db v)"
    using assms(1) by (simp_all add: v2_inv_def)
  obtain ris where ris: "v_list v = Some ris" "list_all2 lists_record pend ris"
    using assms(1) by (auto simp: v2_inv_def)
  define k where "k = n - log_len (fin @ pend)"
  have reads: "file_from (r_seek (v_rd v)) (take n (concat (map aof_record log))) = take k (concat (map aof_record left))"
    using file_from_log [of "fin @ pend" left n] assms(3) by (simp add: log seek k_def)
  have left_rec: "\<forall>ss \<in> set left. v2_record ss"
    using assms(2) log by auto
  show ?thesis
  proof (cases "c_fgets 128 (take k (concat (map aof_record left)))")
    case None
    then have "take k (concat (map aof_record left)) = []"
      by (auto simp: c_fgets_def Let_def split: if_splits)
    then have "log_len log \<le> n \<longrightarrow> left = []"
    proof (cases left)
      case (Cons ss rest)
      have "0 < length (aof_record ss)"
        by simp
      with Cons \<open>take k (concat (map aof_record left)) = []\<close> show ?thesis
        by (simp add: log k_def del: length_greater_0_conv)
    qed simp
    then have "log_len log \<le> n \<longrightarrow> fin = log"
      using assms(1) by (auto simp: v2_inv_def)
    with None reads assms(1) show ?thesis
      by (intro exI [of _ v] exI [of _ fin] exI [of _ pend] exI [of _ left]) (simp add: v2_round_def no_stop_def)
  next
    case (Some p)
    obtain buf inp where p: "p = (buf, inp)"
      by fastforce
    obtain got rest new st' where batch: "left = got @ rest" "list_all2 lists_record got new" "small_vars st'"
        "r_seek st' = r_seek (v_rd v) + of_nat (length (concat (map aof_record got)))"
        "v2_batch (\<lambda>i. True) 0 (v_rd v) (Some ris) buf inp = Batch_done st' (Some (ris @ new)) \<and>
           (length (concat (map aof_record left)) \<le> k \<longrightarrow> rest = []) \<and> got \<noteq> [] \<or>
         v2_batch (\<lambda>i. True) 0 (v_rd v) (Some ris) buf inp = Batch_retry st' (Some (ris @ new)) \<and> rest \<noteq> [] \<and>
           k < length (concat (map aof_record left))"
      using v2_batch_prefix [OF left_rec small Some [unfolded p], of 0 ris] by blast
    have seek': "r_seek st' = of_nat (log_len (fin @ pend @ got))"
      using batch(4) seek by (simp add: log_len_def)
    have lists: "list_all2 lists_record (pend @ got) (ris @ new)"
      using ris(2) batch(2) by (rule list_all2_appendI)
    show ?thesis
      using batch(5)
    proof
      assume retry: "v2_batch (\<lambda>i. True) 0 (v_rd v) (Some ris) buf inp = Batch_retry st' (Some (ris @ new)) \<and> rest \<noteq> [] \<and>
           k < length (concat (map aof_record left))"
      let ?v = "v\<lparr>v_rd := st', v_list := Some (ris @ new)\<rparr>"
      have "v2_round B glen report clock no_stop (take n (concat (map aof_record log))) v = V2_continue ?v"
        using retry reads Some p ris(1) by (simp add: v2_round_def no_stop_def)
      moreover have "v2_inv records log kv0 fin (pend @ got) rest ?v"
        using assms(1) retry lists batch(1,3) seek' by (simp add: v2_inv_def)
      moreover have "\<not> log_len log \<le> n"
        using retry by (auto simp: log k_def log_len_def)
      ultimately show ?thesis by blast
    next
      assume fine: "v2_batch (\<lambda>i. True) 0 (v_rd v) (Some ris) buf inp = Batch_done st' (Some (ris @ new)) \<and>
           (length (concat (map aof_record left)) \<le> k \<longrightarrow> rest = []) \<and> got \<noteq> []"
      let ?v = "v\<lparr>v_rd := st', v_list := Some (ris @ new)\<rparr>"
      obtain r rs where ne: "ris @ new = r # rs"
        using fine batch(2) by (cases "ris @ new") auto
      obtain db' m' where wr: "write_loop B glen (\<lambda>i. True) 0 (ris @ new) (v_db v) 0 = Some (True, db', 0 + length (ris @ new), m')"
          "kv_of records db' = fold kv_step_cp (pend @ got) (kv_of records (v_db v))" "good_index records db'"
        using write_loop_kv [OF lists good, of glen 0 0] assms(4) by blast
      define v' where "v' = v\<lparr>v_rd := st', v_list := Some [], v_db := db',
          v_fs := snd (writeFinalLogSeek FINAL_LOG_SEEK (r_seek st') (v_fs v)), v_server_seek := r_seek st',
          v_report := (if report then v_report v @ [(fst clock, snd clock, length (ris @ new), m')] else v_report v),
          v_count := v_count v + length (ris @ new), v_indexed := v_indexed v + m'\<rparr>"
      have "v2_round B glen report clock no_stop (take n (concat (map aof_record log))) v = V2_continue v'"
        using fine reads Some p ris(1) wr(1) ne
        by (simp add: v2_round_def no_stop_def v2_write_def writeToIndexedLog_def insertFirstRecordToIndex_def v'_def)
      moreover have "v2_inv records log kv0 (fin @ pend @ got) [] rest v'"
      proof -
        have len: "log_len (fin @ pend @ got) < 2 ^ 63"
          using assms(3) log batch(1) by simp
        then have u: "unat (r_seek st') = log_len (fin @ pend @ got)"
          unfolding seek' by (rule unat_of_nat_63)
        with len have "unat (r_seek st') < 2 ^ 63"
          by (simp only: u)
        with u have "readFinalLogSeek FINAL_LOG_SEEK (v_fs v') = int (log_len (fin @ pend @ got))"
          using readFinalLogSeek_write [of "v_fs v" FINAL_LOG_SEEK "r_seek st'"] assms(1) by (simp add: v'_def v2_inv_def)
        moreover have "\<not> fs_readonly (v_fs v') FINAL_LOG_SEEK"
          using assms(1) by (simp add: v'_def v2_inv_def writeFinalLogSeek_def write_file_def)
        ultimately show ?thesis
          using assms(1) batch(1,3) seek' wr(2,3) by (simp add: v2_inv_def v'_def)
      qed
      moreover have "log_len log \<le> n \<longrightarrow> fin @ pend @ got = log"
        using fine batch(1) by (auto simp: log k_def log_len_def)
      ultimately show ?thesis by blast
    qed
  qed
qed

lemma v2_run_inv:
  assumes "v2_inv records log kv0 fin pend left v" and "\<forall>ss \<in> set log. v2_record ss" and "log_len log < 2 ^ 63"
    and "\<And>s. in_int64 (glen s)"
  shows "\<exists>v' fin' pend' left'.
           v2_run B glen report (map (\<lambda>(clock, n). (no_stop, clock, take n (concat (map aof_record log)))) turns) v = V2_continue v' \<and>
           v2_inv records log kv0 fin' pend' left' v' \<and>
           (turns \<noteq> [] \<and> log_len log \<le> snd (last turns) \<longrightarrow> fin' = log)"
  using assms(1)
proof (induction turns arbitrary: fin pend left v)
  case Nil
  then show ?case by auto
next
  case (Cons a turns)
  obtain clock n where a: "a = (clock, n)"
    by fastforce
  obtain v1 fin1 pend1 left1 where one:
      "v2_round B glen report clock no_stop (take n (concat (map aof_record log))) v = V2_continue v1"
      "v2_inv records log kv0 fin1 pend1 left1 v1" "log_len log \<le> n \<longrightarrow> fin1 = log"
    using v2_round_inv [OF Cons.prems assms(2,3), of glen report clock n] assms(4) by blast
  show ?case
  proof (cases "turns = []")
    case True
    with one a show ?thesis by auto
  next
    case False
    with Cons.IH [OF one(2)] one(1) a show ?thesis by auto
  qed
qed

end

section \<open>Synchronous indexing\<close>

text \<open>The lines of a record in the log, each with its carriage return.\<close>

definition rec_lines :: "string list \<Rightarrow> string list" where
  "rec_lines ss = (CHR ''*'' # show_nat (length ss) @ [CR]) #
                  concat (map (\<lambda>s. [CHR ''$'' # show_nat (length s) @ [CR], s @ [CR]]) ss)"

lemma length_rec_lines: "length (rec_lines ss) = 2 * length ss + 1"
  by (simp add: rec_lines_def) (induction ss; simp)

lemma split_on_line: "c \<notin> set l \<Longrightarrow> split_on c (l @ c # r) = l # split_on c r"
  by simp

lemma split_header_line: "c \<noteq> LF \<Longrightarrow> split_on LF (header_line c n @ r) = (c # show_nat n @ [CR]) # split_on LF r"
  using split_on_line [of LF "c # show_nat n @ [CR]" r] by (simp add: header_line_def)

lemma split_bulk: "clean s \<Longrightarrow> split_on LF (bulk s @ r) = (CHR ''$'' # show_nat (length s) @ [CR]) # (s @ [CR]) # split_on LF r"
  using split_on_line [of LF "s @ [CR]" r] by (simp add: bulk_def split_header_line)

lemma split_bulks:
  "\<forall>s \<in> set ss. clean s \<Longrightarrow>
   split_on LF (concat (map bulk ss) @ r) = concat (map (\<lambda>s. [CHR ''$'' # show_nat (length s) @ [CR], s @ [CR]]) ss) @ split_on LF r"
  by (induction ss) (simp_all add: split_bulk)

lemma split_log:
  "\<forall>ss \<in> set log. \<forall>s \<in> set ss. clean s \<Longrightarrow>
   split_on LF (concat (map aof_record log)) = concat (map rec_lines log) @ [[]]"
proof (induction log)
  case (Cons ss log)
  then show ?case
    by (simp add: aof_record_def split_header_line split_bulks rec_lines_def)
qed simp

lemma log_no_NUL: "\<forall>ss \<in> set log. \<forall>s \<in> set ss. clean s \<Longrightarrow> NUL \<notin> set (concat (map aof_record log))"
  by (induction log) (auto simp: aof_record_def bulk_def)

text \<open>Records with a key whose texts fit into the arrays.\<close>

definition sync_record :: "string list \<Rightarrow> bool" where
  "sync_record ss \<longleftrightarrow> (\<forall>s \<in> set ss. clean s) \<and> 2 \<le> length ss \<and> length ss \<le> 2147483647 \<and> hd ss \<noteq> [] \<and>
     (\<forall>s \<in> set (take 3 ss). length s < 49) \<and> (c_strcaseeq (hd ss) ''SET'' \<longrightarrow> 3 \<le> length ss)"

definition sync_kv :: "string list \<Rightarrow> kv \<Rightarrow> kv" where
  "sync_kv ss m = (if c_strcaseeq (hd ss) ''SET'' then m(ss ! 1 \<mapsto> ss ! 2) else m)"

lemma copy_chop_line [simp]: "length s < 49 \<Longrightarrow> copy_chop (s @ [CR]) = Some s"
  by (simp add: copy_chop_def)

lemma replay_sync_log_record:
  assumes "clean k" and "clean v"
  shows "replay_record (sync_log_record k v) cv = Some (''SET'', v)" and "NUL \<notin> set (sync_log_record k v)"
proof -
  show nul: "NUL \<notin> set (sync_log_record k v)"
    using assms by (simp add: sync_log_record_def)
  have "split_on LF (sync_log_record k v) =
          [''*3'', ''$3'', ''SET'', CHR ''$'' # show_nat (length k), k, CHR ''$'' # show_nat (length v), v]"
    using assms by (simp add: sync_log_record_def split_on_append)
  then show "replay_record (sync_log_record k v) cv = Some (''SET'', v)"
    using replay_record_lines [OF refl nul, of cv]
    by (simp add: sdstoupper_def c_toupper_def) (simp add: sync_log_record_def)
qed

lemma sync_step_line:
  assumes "sync_record ss" and "ls = pre @ rec_lines ss @ post"
  shows "sync_step B ls (length pre) db =
           Some (Inr (if c_strcaseeq (hd ss) ''SET''
                      then add_log B (del_log B db (ss ! 1)) (ss ! 1) (sync_log_record (ss ! 1) (ss ! 2)) else db,
                      int (length (pre @ rec_lines ss))))"
proof -
  obtain c k args where ss: "ss = c # k # args"
    using assms(1) by (cases ss; cases "tl ss") (auto simp: sync_record_def)
  have cl: "clean c" "clean k" "length c < 49" "length k < 49" "c \<noteq> []"
    using assms(1) by (auto simp: sync_record_def ss numeral_3_eq_3)
  have at: "ls ! (length pre + i) = rec_lines ss ! i" if "i < length (rec_lines ss)" for i
    using that by (simp add: assms(2) nth_append)
  have len: "length (rec_lines ss) = 2 * length ss + 1"
    by (rule length_rec_lines)
  have head: "ls ! length pre = CHR ''*'' # show_nat (length ss) @ [CR]"
    using at [of 0] len by (simp add: rec_lines_def)
  have cmd: "ls ! (length pre + 2) = c @ [CR]" and key: "ls ! (length pre + 4) = k @ [CR]"
    using at [of 2] at [of 4] len by (simp_all add: rec_lines_def ss numeral_eq_Suc)
  have more: "length pre + 2 < length ls" "length pre + 4 < length ls"
    using len by (simp_all add: assms(2) ss)
  have short: "c_strlen (ls ! length pre) < 50"
    using assms(1) length_show_nat_le [of "length ss" 18] by (simp add: head c_strlen_def sync_record_def)
  have argc: "c_atoi (tl (cstr (ls ! length pre))) = int (length ss)"
    using assms(1) by (simp add: head sync_record_def)
  have after: "int (length pre) + 2 * int (length ss) + 1 = int (length (pre @ rec_lines ss))"
    by (simp add: len)
  show ?thesis
  proof (cases "c_strcaseeq c ''SET''")
    case True
    then obtain v args' where args: "args = v # args'" "clean v" "length v < 49"
      using assms(1) by (cases args) (auto simp: sync_record_def ss numeral_3_eq_3)
    have val: "ls ! (length pre + 6) = v @ [CR]"
      using at [of 6] len by (simp add: rec_lines_def ss args numeral_eq_Suc)
    have "length pre + 6 < length ls"
      using len by (simp add: assms(2) ss args)
    with True args val cl cmd key more short argc after show ?thesis
      by (simp add: sync_step_def Let_def) (simp add: head ss)
  next
    case False
    with cl cmd key more short argc after show ?thesis
      by (simp add: sync_step_def Let_def) (simp add: head ss)
  qed
qed

context indexed_log
begin

lemma sync_loop_kv:
  assumes "\<forall>ss \<in> set todo. sync_record ss" and "good_index records db"
    and "ls = concat (map rec_lines fin) @ concat (map rec_lines todo) @ [[]]"
  shows "\<exists>db'. sync_loop (Suc (length todo + fuel)) B ls (int (length (concat (map rec_lines fin)))) db = Some db' \<and>
           kv_of records db' = fold sync_kv todo (kv_of records db) \<and> good_index records db'"
  using assms
proof (induction todo arbitrary: fin db)
  case Nil
  then show ?case
    by (simp add: sync_step_def nth_append)
next
  case (Cons ss todo)
  let ?pre = "concat (map rec_lines fin)"
  have rec: "sync_record ss"
    using Cons.prems(1) by simp
  define db1 where "db1 = (if c_strcaseeq (hd ss) ''SET''
    then add_log B (del_log B db (ss ! 1)) (ss ! 1) (sync_log_record (ss ! 1) (ss ! 2)) else db)"
  have step: "sync_step B ls (length ?pre) db = Some (Inr (db1, int (length (?pre @ rec_lines ss))))"
    using sync_step_line [OF rec, of ls ?pre "concat (map rec_lines todo) @ [[]]" B db] Cons.prems(3)
    by (simp add: db1_def)
  have db1: "kv_of records db1 = sync_kv ss (kv_of records db) \<and> good_index records db1"
  proof (cases "c_strcaseeq (hd ss) ''SET''")
    case True
    then have "3 \<le> length ss" "\<forall>s \<in> set ss. clean s"
      using rec by (simp_all add: sync_record_def)
    then have "clean (ss ! 1)" "clean (ss ! 2)"
      by simp_all
    then show ?thesis
      using True kv_of_set(3,4) [OF Cons.prems(2), of "ss ! 1" "sync_log_record (ss ! 1) (ss ! 2)" "ss ! 2"]
        replay_sync_log_record
      by (simp add: db1_def sync_kv_def)
  next
    case False
    then show ?thesis
      using Cons.prems(2) by (simp add: db1_def sync_kv_def)
  qed
  have "int (length ?pre) < int (length ls)"
    using Cons.prems(3) by simp
  then have "sync_loop (Suc (length (ss # todo) + fuel)) B ls (int (length ?pre)) db =
        sync_loop (Suc (length todo + fuel)) B ls (int (length (?pre @ rec_lines ss))) db1"
    using step by simp
  moreover obtain db' where
    "sync_loop (Suc (length todo + fuel)) B ls (int (length (concat (map rec_lines (fin @ [ss]))))) db1 = Some db'"
    "kv_of records db' = fold sync_kv todo (kv_of records db1)" "good_index records db'"
    using Cons.IH [of db1 "fin @ [ss]"] Cons.prems(1,3) db1 by auto
  ultimately show ?case
    using db1 by simp
qed

lemma synchronousIndexing_kv:
  assumes "\<forall>ss \<in> set log. sync_record ss" and "good_index records db" and "log \<noteq> []" and "length log < fuel"
  shows "\<exists>db'. synchronousIndexing fuel B True True (concat (map aof_record log)) (Some db) = Some (Some db') \<and>
           kv_of records db' = fold sync_kv log (kv_of records db) \<and> good_index records db'"
proof -
  have clean: "\<forall>ss \<in> set log. \<forall>s \<in> set ss. clean s"
    using assms(1) by (auto simp: sync_record_def)
  obtain k where fuel: "fuel = Suc (length log + k)"
    using assms(4) by (metis less_iff_Suc_add)
  have "concat (map aof_record log) \<noteq> []"
    using assms(3) by (cases log) auto
  then have "sdssplitlen (sdsnew (concat (map aof_record log))) ''\<newline>'' = Some (concat (map rec_lines log) @ [[]])"
    using split_log [OF clean] log_no_NUL [OF clean] by simp
  then show ?thesis
    using sync_loop_kv [OF assms(1,2), of "concat (map rec_lines log) @ [[]]" "[]" k] fuel
    by (auto simp: synchronousIndexing_def)
qed

end

section \<open>Version 1\<close>

text \<open>Records version 1 can index: it keeps the text of an \<^verbatim>\<open>INCR\<close> record, and builds a new one
  for \<^verbatim>\<open>SETCHECKPOINT\<close> only.\<close>

definition v1_record :: "string list \<Rightarrow> bool" where
  "v1_record ss \<longleftrightarrow> wf_record ss \<and>
     (sdstoupper (hd ss) = ''SETCHECKPOINT'' \<longrightarrow> length ss = 3 \<and> length (ss ! 1) < 50 \<and> length (ss ! 2) < 50)"

context indexed_log
begin

lemma v1_step_kv:
  assumes "v1_record ss" and "good_index records db"
  shows "\<exists>db' n. v1_step B (read_state ss st) db = Some (db', n) \<and>
           kv_of records db' = kv_step_cp ss (kv_of records db) \<and> good_index records db'"
proof -
  obtain c args where ss: "ss = c # args" "wf_record (c # args)"
    using assms(1) by (cases ss) (auto simp: v1_record_def)
  have clean: "\<forall>s \<in> set (c # args). clean s"
    using ss by simp
  have vars: "r_command (read_state ss st) = sdstoupper c" "r_log (read_state ss st) = aof_log ss"
    using clean by (simp_all add: ss(1) read_state_def advance_def)
  have key: "r_key (read_state ss st) = k" if "args = k # args'" for k args'
    using clean that by (simp add: ss(1) read_state_def advance_def)
  have val: "r_value (read_state ss st) = v" if "args = k # v # args'" for k v args'
    using clean that by (simp add: ss(1) read_state_def advance_def)
  have nul: "NUL \<notin> set (aof_log ss)"
    using clean by (auto simp: ss(1) intro!: aof_log_no_NUL)
  note replay = replay_aof_log [OF clean]
  note step = v1_step_def [of B "read_state ss st" db, unfolded vars Let_def]
  consider "sdstoupper c = ''SET''" | "sdstoupper c = ''INCR''" | "sdstoupper c = ''DEL''"
    | "sdstoupper c = ''SETCHECKPOINT''"
    | "sdstoupper c \<notin> {''SET'', ''INCR'', ''DEL'', ''SETCHECKPOINT''}"
    by blast
  then show ?thesis
  proof cases
    case 1
    then obtain k v where args: "args = [k, v]"
      using ss(2) by (auto simp: length_Suc_conv numeral_2_eq_2)
    then have "replay_record (aof_log ss) cv = Some (''SET'', v)" for cv
      using replay 1 ss(1) by simp
    then show ?thesis
      unfolding step using kv_of_set(1,2) [OF assms(2), of k "aof_log ss" v] nul 1 args clean key ss(1) by simp
  next
    case 2
    then obtain k where args: "args = [k]"
      using ss(2) by (auto simp: length_Suc_conv)
    then have "replay_record (aof_log ss) cv = Some (''INCR'', show_int (to_int32 (c_atoi (snd cv) + 1)))" for cv
      using replay 2 ss(1) by simp
    then show ?thesis
      unfolding step using kv_of_incr [OF assms(2), of k "aof_log ss"] nul 2 args clean key ss(1) by simp
  next
    case 3
    then obtain k args' where args: "args = k # args'"
      using ss(2) by (cases args) auto
    have "kv_step_cp ss m = m(k := None)" for m
      using 3 args ss(1) by (cases args'; cases "tl args'") auto
    then show ?thesis
      unfolding step using kv_of_del [OF assms(2), of k] 3 args clean key by simp
  next
    case 4
    then obtain k v where args: "args = [k, v]" and len: "length k < 50" "length v < 50"
      using assms(1) ss(1) by (auto simp: v1_record_def length_Suc_conv numeral_2_eq_2 numeral_3_eq_3)
    have "length (show_int ((int \<circ> length) s)) \<le> 20" if "length s < 50" for s :: string
      using that length_show_int [of "int (length s)"] by (simp add: in_int64_def)
    from this [OF len(1)] this [OF len(2)] obtain data where data: "set_log_record (int \<circ> length) k v = Some data"
      using len args clean by (simp add: set_log_record_def Let_def)
    have kv: "clean k" "clean v"
      using args clean by simp_all
    note rep = replay_set_log_record [OF data kv]
    have "createSetLogRecord (int \<circ> length) k v = Some data"
      using data rep(2) by (simp add: createSetLogRecord_def)
    then show ?thesis
      unfolding step using kv_of_set(3,4) [OF assms(2) kv(1) rep] 4 args key val ss(1) by simp
  next
    case 5
    have "kv_step_cp ss m = m" for m
      using 5 ss(1) by (cases "(ss, m)" rule: kv_step.cases) auto
    then show ?thesis
      unfolding step using assms(2) 5 by simp
  qed
qed

lemma v1_loop_kv:
  assumes "\<forall>ss \<in> set log. v1_record ss" and "good_index records db"
  shows "\<exists>st' db' m'. v1_loop B (\<lambda>n. True) st (concat (map aof_record log)) db f n m =
             V1_end st' db' (snd (writeFinalLogSeek FINAL_LOG_SEEK (r_seek st') f)) (n + length log) m' \<and>
           r_seek st' = r_seek st + of_nat (log_len log) \<and>
           kv_of records db' = fold kv_step_cp log (kv_of records db) \<and> good_index records db'"
  using assms
proof (induction log arbitrary: st db n m)
  case Nil
  then show ?case by (auto simp: v1_loop.simps c_fgets_def)
next
  case (Cons ss log)
  let ?L = "concat (map aof_record log)"
  have rec: "v1_record ss" and recs: "\<forall>ss \<in> set log. v1_record ss"
    using Cons.prems(1) by simp_all
  then have sized: "sized_args ss"
    by (cases ss) (auto simp: v1_record_def)
  obtain db1 k where step: "v1_step B (read_state ss st) db = Some (db1, k)"
      "kv_of records db1 = kv_step_cp ss (kv_of records db)" "good_index records db1"
    using v1_step_kv [OF rec Cons.prems(2)] by blast
  define x where "x = advance (length (aof_record ss)) (record_vars ss st)"
  have vars: "x\<lparr>r_command := sdstoupper (r_command x)\<rparr> = read_state ss st"
    by (simp add: x_def read_state_def advance_def)
  have "v1_loop B (\<lambda>n. True) st (concat (map aof_record (ss # log))) db f n m =
          v1_loop B (\<lambda>n. True) (read_state ss st) ?L db1 f (n + 1) (m + k)"
    using step(1)
    by (subst v1_loop.simps)
      (simp add: aof_record_line [OF sized] read_record_aof [OF sized] x_def [symmetric] Let_def flip: vars)
  moreover obtain st' db' m' where
    "v1_loop B (\<lambda>n. True) (read_state ss st) ?L db1 f (n + 1) (m + k) =
       V1_end st' db' (snd (writeFinalLogSeek FINAL_LOG_SEEK (r_seek st') f)) (n + 1 + length log) m'"
    "r_seek st' = r_seek (read_state ss st) + of_nat (log_len log)"
    "kv_of records db' = fold kv_step_cp log (kv_of records db1)" "good_index records db'"
    using Cons.IH [OF recs step(3), of "read_state ss st" "n + 1" "m + k"] by blast
  ultimately show ?case
    using step(2) by (auto simp: add.assoc)
qed

end

end
