(* ===== verification/Indexing_Correctness.thy ===== *)
theory Indexing_Correctness
  imports Indexer_Threads
begin

text \<open>
  What the indexers achieve, for any Berkeley DB: the whole run of the indexer at restart, with the
  files it reads and writes, the thread that follows the log (version 2) over any sequence of
  turns, and the synchronous indexing.  The abstraction of an indexed log is the key-value map
  \<open>kv_of\<close> of the theory \<open>Log_Replay\<close>; the abstraction of a part of the sequential log is the fold
  of \<open>kv_step\<close> over its records.
\<close>

section \<open>Indexing at restart\<close>

text \<open>The indexed log of the configuration holds what the records \<open>fin\<close> of the log make of an
  empty map, and the stored position is behind them; \<open>new\<close> are the records behind it.\<close>

definition disk_ready :: "('db \<Rightarrow> string \<Rightarrow> string list) \<Rightarrow> ix_config \<Rightarrow> string list list \<Rightarrow> string list list \<Rightarrow> 'db disk \<Rightarrow> bool" where
  "disk_ready records cfg fin new dk \<longleftrightarrow>
     fs_files (d_fs dk) (aof_filename cfg) = Some (concat (map aof_record (fin @ new))) \<and>
     (\<exists>db. d_dbs dk (indexedlog_filename cfg) = Store db \<and> good_index records db \<and>
           kv_of records db = fold kv_step fin (\<lambda>_. None)) \<and>
     readFinalLogSeek FINAL_LOG_SEEK (d_fs dk) = int (log_len fin)"

text \<open>A log that the restart can read, and files it can write.\<close>

definition log_usable :: "ix_config \<Rightarrow> string list list \<Rightarrow> 'db disk \<Rightarrow> bool" where
  "log_usable cfg log dk \<longleftrightarrow> log \<noteq> [] \<and> (\<forall>ss \<in> set log. wf_record ss) \<and> log_len log < 2 ^ 63 \<and>
     \<not> indexedlog_replicated cfg \<and> \<not> fs_readonly (d_fs dk) FINAL_LOG_SEEK \<and> aof_filename cfg \<noteq> FINAL_LOG_SEEK"

context indexed_log
begin

lemma initial_run:
  assumes "initial_position empty_db cfg dk = (int (log_len fin), cfg, dk)"
    and "openBerkeleyDB empty_db (indexedlog_filename cfg) True dk = (Some db, dk')" and "d_fs dk' = d_fs dk"
    and "good_index records db" and "log_usable cfg (fin @ new) dk"
    and "fs_files (d_fs dk) (aof_filename cfg) = Some (concat (map aof_record (fin @ new)))"
  shows "\<exists>out db'. initialIndexesSequentialLogToIndexedLog B empty_db cfg dk = Inr out \<and> io_return out = length new \<and>
           d_dbs (io_disk out) (indexedlog_filename cfg) = Store db' \<and> good_index records db' \<and>
           kv_of records db' = fold kv_step new (kv_of records db) \<and>
           readFinalLogSeek FINAL_LOG_SEEK (d_fs (io_disk out)) = int (log_len (fin @ new)) \<and>
           fs_files (d_fs (io_disk out)) (aof_filename cfg) = fs_files (d_fs dk) (aof_filename cfg)"
proof -
  let ?log = "concat (map aof_record (fin @ new))"
  let ?st = "empty_rstate\<lparr>r_seek := of_nat (log_len fin)\<rparr>"
  have use: "?log \<noteq> []" "\<forall>ss \<in> set new. wf_record ss" "log_len (fin @ new) < 2 ^ 63" "\<not> indexedlog_replicated cfg"
      "\<not> fs_readonly (d_fs dk) FINAL_LOG_SEEK" "aof_filename cfg \<noteq> FINAL_LOG_SEEK"
    using assms(5) by (auto simp: log_usable_def)
  have ff: "file_from (of_nat (log_len fin)) ?log = concat (map aof_record new)"
    using file_from_log [OF use(3), of "length ?log"] by (simp add: log_len_def)
  obtain st' db' m' where loop:
    "initial_loop B False ?st (concat (map aof_record new)) db None 0 0 = Inr (st', db', None, length new, m')"
    "r_seek st' = of_nat (log_len fin) + of_nat (log_len new)"
    "kv_of records db' = fold kv_step new (kv_of records db)" "good_index records db'"
    using initial_loop_kv [OF use(2) assms(4), of None False ?st 0 0] by (auto simp: log_len_def)
  let ?f = "snd (writeFinalLogSeek FINAL_LOG_SEEK (r_seek st') (d_fs dk))"
  have seek: "r_seek st' = of_nat (log_len (fin @ new))"
    using loop(2) by simp
  then have "unat (r_seek st') = log_len (fin @ new)"
    using unat_of_nat_63 [OF use(3)] by (simp only:)
  then have "readFinalLogSeek FINAL_LOG_SEEK ?f = int (log_len (fin @ new))"
    using readFinalLogSeek_write [OF use(5), of "r_seek st'"] use(3) by (simp only:)
  moreover have "fs_files ?f (aof_filename cfg) = fs_files (d_fs dk) (aof_filename cfg)"
    using use(6) by (simp add: writeFinalLogSeek_def write_file_def)
  moreover have "initialIndexesSequentialLogToIndexedLog B empty_db cfg dk =
      Inr \<lparr>io_return = length new, io_seek = Some (r_seek st', length new, m'), io_replicated = False,
           io_disk = (store_logs cfg db' None dk')\<lparr>d_fs := ?f\<rparr>\<rparr>"
    unfolding initialIndexesSequentialLogToIndexedLog_def
    using assms(1-3,6) use(1,4) ff loop(1) by (simp add: Let_def del: of_nat_add map_append concat_append)
  ultimately show ?thesis
    using loop(3,4) by (simp add: store_logs_def Let_def)
qed

lemma initial_indexing_step:
  assumes "disk_ready records cfg fin new dk" and "log_usable cfg (fin @ new) dk"
  shows "\<exists>out. initialIndexesSequentialLogToIndexedLog B empty_db cfg dk = Inr out \<and> io_return out = length new \<and>
           disk_ready records cfg (fin @ new) [] (io_disk out)"
proof -
  obtain db where db: "d_dbs dk (indexedlog_filename cfg) = Store db" "good_index records db"
      "kv_of records db = fold kv_step fin (\<lambda>_. None)"
    using assms(1) by (auto simp: disk_ready_def)
  have "initial_position empty_db cfg dk = (int (log_len fin), cfg, dk)"
    using assms(1) db(1) by (simp add: initial_position_def disk_ready_def openBerkeleyDB_def)
  moreover have "openBerkeleyDB empty_db (indexedlog_filename cfg) True dk = (Some db, dk)"
    using db(1) by (simp add: openBerkeleyDB_def)
  ultimately show ?thesis
    using initial_run [of empty_db cfg dk fin db dk new] assms db by (fastforce simp: disk_ready_def)
qed

text \<open>Without an indexed log and without a stored position everything is indexed again.\<close>

lemma initial_rebuild_step:
  assumes "d_dbs dk (indexedlog_filename cfg) = Missing" and "readFinalLogSeek FINAL_LOG_SEEK (d_fs dk) = -1"
    and "fs_files (d_fs dk) (aof_filename cfg) = Some (concat (map aof_record log))" and "log_usable cfg log dk"
    and "\<And>k. records empty_db k = []"
  shows "\<exists>out. initialIndexesSequentialLogToIndexedLog B empty_db cfg dk = Inr out \<and> io_return out = length log \<and>
           disk_ready records cfg log [] (io_disk out)"
proof -
  have empty: "good_index records empty_db" "kv_of records empty_db = (\<lambda>_. None)"
    using assms(5) by (auto simp: good_index_def kv_of_def)
  have "initial_position empty_db cfg dk = (int (log_len []), cfg, dk)"
    using assms(1,2,4) by (simp add: initial_position_def openBerkeleyDB_def log_usable_def)
  then show ?thesis
    using initial_run [of empty_db cfg dk "[]" empty_db "snd (openBerkeleyDB empty_db (indexedlog_filename cfg) True dk)" log] assms empty
    by (fastforce simp: disk_ready_def openBerkeleyDB_def)
qed

text \<open>With a stored position and a missing indexed log only the records behind it are indexed.\<close>

lemma initial_missing_index_step:
  assumes "d_dbs dk (indexedlog_filename cfg) = Missing" and "readFinalLogSeek FINAL_LOG_SEEK (d_fs dk) = int (log_len fin)"
    and "fs_files (d_fs dk) (aof_filename cfg) = Some (concat (map aof_record (fin @ new)))"
    and "log_usable cfg (fin @ new) dk" and "\<And>k. records empty_db k = []"
  shows "\<exists>out db'. initialIndexesSequentialLogToIndexedLog B empty_db cfg dk = Inr out \<and>
           d_dbs (io_disk out) (indexedlog_filename cfg) = Store db' \<and> kv_of records db' = fold kv_step new (\<lambda>_. None) \<and>
           readFinalLogSeek FINAL_LOG_SEEK (d_fs (io_disk out)) = int (log_len (fin @ new))"
proof -
  have empty: "good_index records empty_db" "kv_of records empty_db = (\<lambda>_. None)"
    using assms(5) by (auto simp: good_index_def kv_of_def)
  have "initial_position empty_db cfg dk = (int (log_len fin), cfg, dk)"
    using assms(1,2,4) by (simp add: initial_position_def openBerkeleyDB_def log_usable_def)
  then show ?thesis
    using initial_run [of empty_db cfg dk fin empty_db "snd (openBerkeleyDB empty_db (indexedlog_filename cfg) True dk)" new] assms empty
    by (fastforce simp: openBerkeleyDB_def)
qed

end

section \<open>Properties\<close>

definition test_cfg :: ix_config where
  "test_cfg = \<lparr>aof_filename = ''a.aof'', indexedlog_filename = ''index.db'', indexedlog_replicated_filename = ''replica.db'',
               indexedlog_replicated = False\<rparr>"

definition test_log :: "string list list" where
  "test_log = [[''SET'', ''k'', ''7''], [''SET'', ''n'', ''v''], [''DEL'', ''n'']]"

definition test_disk :: "string option \<Rightarrow> 'db db_file \<Rightarrow> 'db disk" where
  "test_disk seek index =
     \<lparr>d_fs = \<lparr>fs_files = (\<lambda>n. if n = ''a.aof'' then Some (concat (map aof_record test_log))
                             else if n = FINAL_LOG_SEEK then seek else None),
             fs_readonly = (\<lambda>_. False)\<rparr>,
      d_dbs = (\<lambda>n. if n = ''index.db'' then index else Missing)\<rparr>"


lemma test_log_records: "\<forall>ss \<in> set test_log. wf_record ss" "log_len test_log < 2 ^ 63"
  by (simp_all add: test_log_def sized_args_def sdstoupper_def c_toupper_def aof_record_def bulk_def header_line_def)

lemma test_log_usable: "log_usable test_cfg test_log (test_disk seek index)"
  using test_log_records by (simp add: log_usable_def test_cfg_def test_disk_def FINAL_LOG_SEEK_def) (simp add: test_log_def)

lemma test_disk_simps [simp]:
  "fs_files (d_fs (test_disk seek index)) ''a.aof'' = Some (concat (map aof_record test_log))"
  "fs_files (d_fs (test_disk seek index)) FINAL_LOG_SEEK = seek"
  "d_dbs (test_disk seek index) ''index.db'' = index"
  by (simp_all add: test_disk_def FINAL_LOG_SEEK_def)

lemma test_cfg_simps [simp]: "aof_filename test_cfg = ''a.aof''" "indexedlog_filename test_cfg = ''index.db''"
  by (simp_all add: test_cfg_def)

lemma read_stored_seek:
  "n < 2 ^ 63 \<Longrightarrow> fs_files f name = Some (le_bytes 8 n) \<Longrightarrow> readFinalLogSeek name f = int n"
  by (simp add: readFinalLogSeek_def le_val_bytes in_int64_def)



text \<open>(C18) Without an indexed log and without a stored position the whole log is indexed again, and the
  indexed log stands for all of its records.\<close>

theorem restart_rebuilds_index:
  assumes "berkeley_db B recs rest cur" and "recs empty_db = []"
    and "d_dbs dk (indexedlog_filename cfg) = Missing" and "readFinalLogSeek FINAL_LOG_SEEK (d_fs dk) = -1"
    and "fs_files (d_fs dk) (aof_filename cfg) = Some (concat (map aof_record log))" and "log_usable cfg log dk"
  shows "\<exists>out. initialIndexesSequentialLogToIndexedLog B empty_db cfg dk = Inr out \<and> io_return out = length log \<and>
           disk_ready (index_records recs) cfg log [] (io_disk out)"
  using berkeley_db_indexed_log [OF assms(1)] assms(3-6)
  by (rule indexed_log.initial_rebuild_step) (simp add: index_records_def assms(2))

theorem restart_rebuilds_index_witness:
  "\<exists>out. initialIndexesSequentialLogToIndexedLog btree_db [] test_cfg (test_disk None Missing) = Inr out \<and>
     io_return out = length test_log \<and> disk_ready (index_records btree_recs) test_cfg test_log [] (io_disk out)"
  by (rule restart_rebuilds_index [OF btree.berkeley_db_axioms])
    (use test_log_usable in \<open>simp_all add: readFinalLogSeek_def btree_recs_def\<close>)

text \<open>(C20) If the indexed log is gone but the position up to which it was filled is still stored, and there is
  no replica, the restart indexes only the records behind that position and stores the end of the
  log as the new position: the values of the records before it are not in the indexed log.\<close>

theorem restart_loses_missing_index:
  assumes "berkeley_db B recs rest cur" and "recs empty_db = []"
    and "d_dbs dk (indexedlog_filename cfg) = Missing" and "readFinalLogSeek FINAL_LOG_SEEK (d_fs dk) = int (log_len fin)"
    and "fs_files (d_fs dk) (aof_filename cfg) = Some (concat (map aof_record (fin @ new)))"
    and "log_usable cfg (fin @ new) dk"
  shows "\<exists>out db'. initialIndexesSequentialLogToIndexedLog B empty_db cfg dk = Inr out \<and>
           d_dbs (io_disk out) (indexedlog_filename cfg) = Store db' \<and>
           kv_of (index_records recs) db' = fold kv_step new (\<lambda>_. None) \<and>
           readFinalLogSeek FINAL_LOG_SEEK (d_fs (io_disk out)) = int (log_len (fin @ new))"
  using berkeley_db_indexed_log [OF assms(1)] assms(3-6)
  by (rule indexed_log.initial_missing_index_step) (simp add: index_records_def assms(2))

theorem restart_loses_missing_index_witness:
  "\<exists>out db'. initialIndexesSequentialLogToIndexedLog btree_db [] test_cfg
       (test_disk (Some (le_bytes 8 (log_len (take 1 test_log)))) Missing) = Inr out \<and>
     d_dbs (io_disk out) (indexedlog_filename test_cfg) = Store db' \<and>
     kv_of (index_records btree_recs) db' = fold kv_step (drop 1 test_log) (\<lambda>_. None) \<and>
     readFinalLogSeek FINAL_LOG_SEEK (d_fs (io_disk out)) = int (log_len (take 1 test_log @ drop 1 test_log))"
proof (rule restart_loses_missing_index [OF btree.berkeley_db_axioms])
  have "log_len (take 1 test_log) < 2 ^ 63"
    using test_log_records(2) by (simp add: test_log_def)
  then show "readFinalLogSeek FINAL_LOG_SEEK (d_fs (test_disk (Some (le_bytes 8 (log_len (take 1 test_log)))) Missing)) =
      int (log_len (take 1 test_log))"
    by (rule read_stored_seek) simp
qed (use test_log_usable in \<open>simp_all only: append_take_drop_id test_disk_simps test_cfg_simps, simp_all add: btree_recs_def\<close>)


lemma test_log_v2: "\<forall>ss \<in> set test_log. v2_record ss"
  using test_log_records(1) by (simp add: v2_record_def) (simp add: test_log_def sdstoupper_def c_toupper_def)


text \<open>(C21) The indexer thread stores an \<^verbatim>\<open>INCR\<close> record of the log as a \<^verbatim>\<open>SET\<close> record: the key gets the value of
  whatever record was read before it, not its own value incremented.\<close>

theorem v2_indexes_incr_as_set:
  assumes "berkeley_db B recs rest cur" and "good_index (index_records recs) db" and "clean k" and "length k < 50"
    and "small_vars st" and "\<And>s. in_int64 (glen s)"
  shows "\<exists>ri db' n.
           addRecordToIndex (Some []) (r_command (read_state [''INCR'', k] st)) (r_key (read_state [''INCR'', k] st))
             (r_value (read_state [''INCR'', k] st)) = Some (Some [ri]) \<and>
           write_step B glen ri db = Some (db', n) \<and>
           kv_of (index_records recs) db' = (kv_of (index_records recs) db)(k \<mapsto> r_value st)"
proof -
  let ?st = "read_state [''INCR'', k] st"
  have vars: "r_command ?st = ''INCR''" "r_key ?st = k" "r_value ?st = r_value st"
    using assms(3) by (simp_all add: read_state_def advance_def sdstoupper_def c_toupper_def record_vars_def store_arg_def)
  have v: "clean (r_value st)" "length (r_value st) < 50"
    using assms(5) by (simp_all add: small_vars_def)
  have len: "length (show_int (glen s)) \<le> 20" for s
    using assms(6) by (rule length_show_int)
  then obtain data where data: "set_log_record glen k (r_value st) = Some data"
    using assms(3,4) v len [of k] len [of "r_value st"] by (simp add: set_log_record_def Let_def)
  note replay = replay_set_log_record [OF data assms(3) v(1)]
  note set = indexed_log.kv_of_set(1) [OF berkeley_db_indexed_log [OF assms(1)] assms(2,3) replay(1) replay(2)]
  show ?thesis
    using vars v assms(3,4) data set by (simp add: addRecordToIndex_def c_strlen_def write_step_def c_streq_def)
qed

theorem v2_indexes_incr_as_set_witness:
  "\<exists>ri db' n.
     addRecordToIndex (Some []) (r_command (read_state [''INCR'', ''n''] (read_state [''SET'', ''k'', ''7''] empty_rstate)))
       (r_key (read_state [''INCR'', ''n''] (read_state [''SET'', ''k'', ''7''] empty_rstate)))
       (r_value (read_state [''INCR'', ''n''] (read_state [''SET'', ''k'', ''7''] empty_rstate))) = Some (Some [ri]) \<and>
     write_step btree_db (\<lambda>_. 0) ri [] = Some (db', n) \<and>
     kv_of (index_records btree_recs) db' =
       (kv_of (index_records btree_recs) [])(''n'' \<mapsto> r_value (read_state [''SET'', ''k'', ''7''] empty_rstate))"
  by (rule v2_indexes_incr_as_set [OF btree.berkeley_db_axioms])
    (simp_all add: good_index_def index_records_def btree_recs_def in_int64_def small_vars_def read_state_def advance_def)



end
