(* ===== verification/Keyspace.thy ===== *)
theory Keyspace
  imports Aof_Format "HOL-Library.Monad_Syntax"
begin

text \<open>
  The key space of the server (\<^verbatim>\<open>src/src/db.c\<close>) and the buffer of the append only file
  (\<^verbatim>\<open>feedAppendOnlyFile\<close> of \<^verbatim>\<open>src/src/aof.c\<close>, which a key that expires writes to).  The state is the
  part of \<^verbatim>\<open>struct redisServer\<close> and \<^verbatim>\<open>struct redisDb\<close> the string commands and the instant recovery
  work on, for one database.  Replication, keyspace notifications, Lua scripts, watched keys and
  the access time of objects are not represented.  A failed assertion is \<^term>\<open>None\<close>.

  The invariant \<open>wf_redis\<close> says that only existing keys have an expire time and that the objects
  are well formed.  The lemmas show that the operations keep it and never fail an assertion on
  a state that has it.
\<close>

section \<open>State\<close>

datatype aof_state = AOF_OFF | AOF_ON | AOF_WAIT_REWRITE

text \<open>The identity of a command's implementation (\<^verbatim>\<open>cmd->proc\<close>).\<close>

datatype cmd_proc =
    SetCommand | SetnxCommand | SetexCommand | PsetexCommand | GetCommand | GetsetCommand
  | SetrangeCommand | GetrangeCommand | MgetCommand | MsetCommand | MsetnxCommand
  | IncrCommand | DecrCommand | IncrbyCommand | DecrbyCommand | AppendCommand | StrlenCommand
  | DelCommand | UnlinkCommand | ExpireCommand | PexpireCommand | ExpireatCommand | PexpireatCommand
  | SelectCommand | SetIRCommand | SetCheckpointCommand | CheckpointEndCommand | BenchmarkEndCommand
  | OtherCommand string

record redis =
  db_dict :: "string \<Rightarrow> robj option"
  db_expires :: "string \<Rightarrow> int option"
  db_id :: int
  sv_dbnum :: int
  sv_cluster_enabled :: bool
  sv_dirty :: int
  sv_clock :: int
  sv_mstime :: int
  sv_fixed_time_expire :: nat
  sv_loading :: bool
  sv_masterhost :: bool
  sv_reader :: bool
  sv_lazyfree_lazy_expire :: bool
  stat_keyspace_hits :: nat
  stat_keyspace_misses :: nat
  stat_expiredkeys :: nat
  sv_aof_state :: aof_state
  sv_aof_selected_db :: int
  sv_aof_buf :: string

text \<open>\<open>sv_clock\<close> is what \<^verbatim>\<open>mstime()\<close> returns; \<open>sv_reader\<close> says that the current client is not the
  master and runs a read-only command.\<close>

section \<open>The append only file\<close>

definition catAppendOnlyExpireAtCommand :: "string \<Rightarrow> cmd_proc \<Rightarrow> robj \<Rightarrow> robj \<Rightarrow> int \<Rightarrow> string option" where
  "catAppendOnlyExpireAtCommand buf cmd key seconds now =
     do {
       dec \<leftarrow> Option.bind (getDecodedObject seconds) obj_ptr;
       let when = c_strtol dec;
       let when = (if cmd = ExpireCommand \<or> cmd = SetexCommand \<or> cmd = ExpireatCommand then to_int64 (when * 1000) else when);
       let when = (if cmd = ExpireCommand \<or> cmd = PexpireCommand \<or> cmd = SetexCommand \<or> cmd = PsetexCommand
                   then to_int64 (when + now) else when);
       catAppendOnlyGenericCommand buf [createStringObject ''PEXPIREAT'', key, createStringObjectFromLongLong when]
     }"

definition arg_at :: "nat \<Rightarrow> robj list \<Rightarrow> robj option" where
  "arg_at i argv = (if i < length argv then Some (argv ! i) else None)"

text \<open>The search for the arguments of \<^verbatim>\<open>EX\<close> and \<^verbatim>\<open>PX\<close>; the one found last counts.\<close>

fun find_expire :: "nat \<Rightarrow> nat \<Rightarrow> robj list \<Rightarrow> robj option \<Rightarrow> robj option \<Rightarrow> (robj option \<times> robj option) option" where
  "find_expire i 0 argv exarg pxarg = Some (exarg, pxarg)"
| "find_expire i (Suc left) argv exarg pxarg =
     do {
       a \<leftarrow> Option.bind (arg_at i argv) obj_ptr;
       exarg \<leftarrow> (if c_strcaseeq a ''ex'' then map_option Some (arg_at (i + 1) argv) else Some exarg);
       pxarg \<leftarrow> (if c_strcaseeq a ''px'' then map_option Some (arg_at (i + 1) argv) else Some pxarg);
       find_expire (i + 1) left argv exarg pxarg
     }"

definition select_record :: "int \<Rightarrow> string" where
  "select_record dictid =
     (let seldb = show_int dictid
      in ''*2'' @ CRLF @ ''$6'' @ CRLF @ ''SELECT'' @ CRLF @ ''$'' @ show_nat (length seldb) @ CRLF @ seldb @ CRLF)"

definition feedAppendOnlyFile :: "cmd_proc \<Rightarrow> int \<Rightarrow> robj list \<Rightarrow> redis \<Rightarrow> redis option" where
  "feedAppendOnlyFile cmd dictid argv s =
     do {
       let buf = (if dictid \<noteq> sv_aof_selected_db s then select_record dictid else []);
       buf \<leftarrow>
         (if cmd = ExpireCommand \<or> cmd = PexpireCommand \<or> cmd = ExpireatCommand then
            do { k \<leftarrow> arg_at 1 argv; t \<leftarrow> arg_at 2 argv; catAppendOnlyExpireAtCommand buf cmd k t (sv_clock s) }
          else if cmd = SetexCommand \<or> cmd = PsetexCommand then
            do {
              k \<leftarrow> arg_at 1 argv; t \<leftarrow> arg_at 2 argv; v \<leftarrow> arg_at 3 argv;
              buf \<leftarrow> catAppendOnlyGenericCommand buf [createStringObject ''SET'', k, v];
              catAppendOnlyExpireAtCommand buf cmd k t (sv_clock s)
            }
          else if cmd = SetCommand \<and> length argv > 3 then
            do {
              k \<leftarrow> arg_at 1 argv;
              buf \<leftarrow> catAppendOnlyGenericCommand buf (take 3 argv);
              (exarg, pxarg) \<leftarrow> find_expire 3 (length argv - 3) argv None None;
              if exarg \<noteq> None \<and> pxarg \<noteq> None then None
              else do {
                buf \<leftarrow> (case exarg of None \<Rightarrow> Some buf
                        | Some t \<Rightarrow> catAppendOnlyExpireAtCommand buf ExpireCommand k t (sv_clock s));
                case pxarg of None \<Rightarrow> Some buf
                | Some t \<Rightarrow> catAppendOnlyExpireAtCommand buf PexpireCommand k t (sv_clock s)
              }
            }
          else catAppendOnlyGenericCommand buf argv);
       Some (s\<lparr>sv_aof_selected_db := dictid,
               sv_aof_buf := (if sv_aof_state s = AOF_ON then sdscatlen (sv_aof_buf s) buf else sv_aof_buf s)\<rparr>)
     }"

section \<open>Expire times\<close>

definition removeExpire :: "string \<Rightarrow> redis \<Rightarrow> (bool \<times> redis) option" where
  "removeExpire key s =
     (if db_dict s key = None then None
      else Some (db_expires s key \<noteq> None, s\<lparr>db_expires := (db_expires s)(key := None)\<rparr>))"

definition setExpire :: "string \<Rightarrow> int \<Rightarrow> redis \<Rightarrow> redis option" where
  "setExpire key when s =
     (if db_dict s key = None then None else Some (s\<lparr>db_expires := (db_expires s)(key \<mapsto> when)\<rparr>))"

definition getExpire :: "string \<Rightarrow> redis \<Rightarrow> int option" where
  "getExpire key s =
     (case db_expires s key of
        None \<Rightarrow> Some (-1)
      | Some when \<Rightarrow> if db_dict s key = None then None else Some when)"

definition keyIsExpired :: "string \<Rightarrow> redis \<Rightarrow> bool option" where
  "keyIsExpired key s =
     do {
       when \<leftarrow> getExpire key s;
       Some (if when < 0 then False
             else if sv_loading s then False
             else (if sv_fixed_time_expire s > 0 then sv_mstime s else sv_clock s) > when)
     }"

definition propagateExpire :: "string \<Rightarrow> bool \<Rightarrow> redis \<Rightarrow> redis option" where
  "propagateExpire key lazy s =
     (if sv_aof_state s \<noteq> AOF_OFF
      then feedAppendOnlyFile DelCommand (db_id s)
             [createStringObject (if lazy then ''UNLINK'' else ''DEL''), createStringObject key] s
      else Some s)"

definition dbSyncDelete :: "string \<Rightarrow> redis \<Rightarrow> bool \<times> redis" where
  "dbSyncDelete key s =
     (db_dict s key \<noteq> None,
      s\<lparr>db_expires := (db_expires s)(key := None), db_dict := (db_dict s)(key := None)\<rparr>)"

text \<open>The asynchronous deletion differs in who frees the memory.\<close>

definition dbAsyncDelete :: "string \<Rightarrow> redis \<Rightarrow> bool \<times> redis" where
  "dbAsyncDelete key s =
     (db_dict s key \<noteq> None,
      s\<lparr>db_expires := (db_expires s)(key := None), db_dict := (db_dict s)(key := None)\<rparr>)"

definition expireIfNeeded :: "string \<Rightarrow> redis \<Rightarrow> (bool \<times> redis) option" where
  "expireIfNeeded key s =
     do {
       expired \<leftarrow> keyIsExpired key s;
       if \<not> expired then Some (False, s)
       else if sv_masterhost s then Some (True, s)
       else do {
         let s = s\<lparr>stat_expiredkeys := stat_expiredkeys s + 1\<rparr>;
         s \<leftarrow> propagateExpire key (sv_lazyfree_lazy_expire s) s;
         Some (if sv_lazyfree_lazy_expire s then dbAsyncDelete key s else dbSyncDelete key s)
       }
     }"

section \<open>Lookup and update\<close>

definition lookupKey :: "string \<Rightarrow> redis \<Rightarrow> robj option" where
  "lookupKey key s = db_dict s key"

definition lookupKeyRead :: "string \<Rightarrow> redis \<Rightarrow> (robj option \<times> redis) option" where
  "lookupKeyRead key s =
     do {
       (expired, s) \<leftarrow> expireIfNeeded key s;
       let missed = s\<lparr>stat_keyspace_misses := stat_keyspace_misses s + 1\<rparr>;
       if expired \<and> (\<not> sv_masterhost s \<or> sv_reader s) then Some (None, missed)
       else (case lookupKey key s of
               None \<Rightarrow> Some (None, missed)
             | Some val \<Rightarrow> Some (Some val, s\<lparr>stat_keyspace_hits := stat_keyspace_hits s + 1\<rparr>))
     }"

definition lookupKeyWrite :: "string \<Rightarrow> redis \<Rightarrow> (robj option \<times> redis) option" where
  "lookupKeyWrite key s = do { (_, s) \<leftarrow> expireIfNeeded key s; Some (lookupKey key s, s) }"

definition dbAdd :: "string \<Rightarrow> robj \<Rightarrow> redis \<Rightarrow> redis option" where
  "dbAdd key val s = (if db_dict s key \<noteq> None then None else Some (s\<lparr>db_dict := (db_dict s)(key \<mapsto> val)\<rparr>))"

definition dbOverwrite :: "string \<Rightarrow> robj \<Rightarrow> redis \<Rightarrow> redis option" where
  "dbOverwrite key val s = (if db_dict s key = None then None else Some (s\<lparr>db_dict := (db_dict s)(key \<mapsto> val)\<rparr>))"

definition setKey :: "string \<Rightarrow> robj \<Rightarrow> redis \<Rightarrow> redis option" where
  "setKey key val s =
     do {
       (old, s) \<leftarrow> lookupKeyWrite key s;
       s \<leftarrow> (if old = None then dbAdd key val s else dbOverwrite key val s);
       (_, s) \<leftarrow> removeExpire key s;
       Some s
     }"

definition dbExists :: "string \<Rightarrow> redis \<Rightarrow> bool" where
  "dbExists key s \<longleftrightarrow> db_dict s key \<noteq> None"

definition dbUnshareStringValue :: "string \<Rightarrow> robj \<Rightarrow> redis \<Rightarrow> (string \<times> redis) option" where
  "dbUnshareStringValue key val s =
     (case val of
        RawStr v \<Rightarrow> Some (v, s)
      | OtherObj t \<Rightarrow> None
      | _ \<Rightarrow> do {
          v \<leftarrow> Option.bind (getDecodedObject val) obj_ptr;
          s \<leftarrow> dbOverwrite key (createRawStringObject v) s;
          Some (v, s)
        })"

section \<open>The invariant\<close>

text \<open>A well-formed object whose string has at most 512 MB, the limit of \<^verbatim>\<open>checkStringLength\<close>.\<close>

definition good_obj :: "robj \<Rightarrow> bool" where
  "good_obj val \<longleftrightarrow> wf_robj val \<and> (case obj_str val of None \<Rightarrow> True | Some v \<Rightarrow> length v \<le> 512 * 1024 * 1024)"

definition wf_redis :: "redis \<Rightarrow> bool" where
  "wf_redis s \<longleftrightarrow> (\<forall>k. db_expires s k \<noteq> None \<longrightarrow> db_dict s k \<noteq> None) \<and>
                 (\<forall>k val. db_dict s k = Some val \<longrightarrow> good_obj val)"

lemma wf_redisD:
  assumes "wf_redis s"
  shows "db_expires s k = Some t \<Longrightarrow> \<exists>val. db_dict s k = Some val"
    and "db_dict s k = Some val \<Longrightarrow> good_obj val"
    and "db_dict s k = Some val \<Longrightarrow> wf_robj val"
  using assms by (auto simp: wf_redis_def good_obj_def)

lemma wf_redis_cong:
  "db_dict s' = db_dict s \<Longrightarrow> db_expires s' = db_expires s \<Longrightarrow> wf_redis s' = wf_redis s"
  by (simp add: wf_redis_def)

lemma wf_redis_put [intro]: "wf_redis s \<Longrightarrow> good_obj val \<Longrightarrow> wf_redis (s\<lparr>db_dict := (db_dict s)(k \<mapsto> val)\<rparr>)"
  by (auto simp: wf_redis_def)

lemma wf_redis_expire [intro]:
  "wf_redis s \<Longrightarrow> db_dict s k \<noteq> None \<Longrightarrow> wf_redis (s\<lparr>db_expires := (db_expires s)(k \<mapsto> t)\<rparr>)"
  by (auto simp: wf_redis_def)

lemma wf_redis_persist [intro]: "wf_redis s \<Longrightarrow> wf_redis (s\<lparr>db_expires := (db_expires s)(k := None)\<rparr>)"
  by (auto simp: wf_redis_def)

lemma dbDelete_same: "dbAsyncDelete key s = dbSyncDelete key s"
  by (simp add: dbAsyncDelete_def dbSyncDelete_def)

lemma wf_dbSyncDelete [intro]: "wf_redis s \<Longrightarrow> wf_redis (snd (dbSyncDelete k s))"
  by (auto simp: wf_redis_def dbSyncDelete_def)

text \<open>A sized string: its length fits into a signed 64-bit integer.\<close>

abbreviation sized :: "string \<Rightarrow> bool" where "sized s \<equiv> length s < 2 ^ 63"

text \<open>Argument objects and the strings they stand for.\<close>

abbreviation are_args :: "robj list \<Rightarrow> string list \<Rightarrow> bool" where
  "are_args \<equiv> list_all2 (\<lambda>x s. wf_robj x \<and> obj_str x = Some s)"

lemma feed_generic:
  assumes "are_args argv ss" and "sized_args ss"
    and "cmd \<notin> {ExpireCommand, PexpireCommand, ExpireatCommand, SetexCommand, PsetexCommand}"
    and "cmd = SetCommand \<longrightarrow> length argv \<le> 3"
  shows "feedAppendOnlyFile cmd dictid argv s =
           Some (s\<lparr>sv_aof_selected_db := dictid,
                   sv_aof_buf := (if sv_aof_state s = AOF_ON
                                  then sv_aof_buf s @ (if dictid \<noteq> sv_aof_selected_db s then select_record dictid else []) @ aof_record ss
                                  else sv_aof_buf s)\<rparr>)"
  using assms by (auto simp: feedAppendOnlyFile_def catAppendOnlyGenericCommand_eq)

lemma propagateExpire_ok:
  assumes "sized key"
  shows "\<exists>buf sel. propagateExpire key lazy s = Some (s\<lparr>sv_aof_selected_db := sel, sv_aof_buf := buf\<rparr>)"
proof (cases "sv_aof_state s = AOF_OFF")
  case False
  let ?ss = "[if lazy then ''UNLINK'' else ''DEL'', key]"
  have "are_args [createStringObject (if lazy then ''UNLINK'' else ''DEL''), createStringObject key] ?ss"
    by (simp del: if_split)
  moreover have "sized_args ?ss"
    using assms by (simp add: sized_args_def)
  ultimately have "\<exists>buf sel. feedAppendOnlyFile DelCommand (db_id s)
      [createStringObject (if lazy then ''UNLINK'' else ''DEL''), createStringObject key] s =
      Some (s\<lparr>sv_aof_selected_db := sel, sv_aof_buf := buf\<rparr>)"
    using feed_generic [where cmd = DelCommand and ss = ?ss] by blast
  with False show ?thesis by (simp add: propagateExpire_def)
next
  case True
  then have "propagateExpire key lazy s =
      Some (s\<lparr>sv_aof_selected_db := sv_aof_selected_db s, sv_aof_buf := sv_aof_buf s\<rparr>)"
    by (simp add: propagateExpire_def)
  then show ?thesis by blast
qed

text \<open>\<open>expireIfNeeded\<close> on a well-formed state: it succeeds and only removes the key.\<close>

lemma expireIfNeeded_ok:
  assumes "wf_redis s" and "sized key"
  obtains b s' where "expireIfNeeded key s = Some (b, s')" and "wf_redis s'"
    and "\<And>k. k \<noteq> key \<Longrightarrow> db_dict s' k = db_dict s k"
    and "db_dict s' key = db_dict s key \<or> db_dict s' key = None"
    and "sv_dirty s' = sv_dirty s"
proof -
  obtain expired where e: "keyIsExpired key s = Some expired"
    using wf_redisD(1) [OF assms(1)] by (fastforce simp: keyIsExpired_def getExpire_def split: option.splits)
  consider "\<not> expired" | "expired" "sv_masterhost s" | "expired" "\<not> sv_masterhost s"
    by blast
  then show thesis
  proof cases
    case 1
    with e assms(1) show thesis
      by (intro that [of False s]) (auto simp: expireIfNeeded_def)
  next
    case 2
    with e assms(1) show thesis
      by (intro that [of True s]) (auto simp: expireIfNeeded_def)
  next
    case 3
    let ?s1 = "s\<lparr>stat_expiredkeys := stat_expiredkeys s + 1\<rparr>"
    obtain buf sel where p: "propagateExpire key (sv_lazyfree_lazy_expire ?s1) ?s1 =
        Some (?s1\<lparr>sv_aof_selected_db := sel, sv_aof_buf := buf\<rparr>)"
      using propagateExpire_ok [OF assms(2)] by blast
    let ?s2 = "?s1\<lparr>sv_aof_selected_db := sel, sv_aof_buf := buf\<rparr>"
    have "expireIfNeeded key s = Some (dbSyncDelete key ?s2)"
      using 3 e p by (simp add: expireIfNeeded_def dbDelete_same Let_def)
    moreover have "wf_redis ?s2"
      using assms(1) by (simp add: wf_redis_def)
    ultimately show thesis
      using wf_dbSyncDelete [of ?s2 key]
      by (intro that [of "fst (dbSyncDelete key ?s2)" "snd (dbSyncDelete key ?s2)"])
        (auto simp: dbSyncDelete_def)
  qed
qed

section \<open>Every operation returns and keeps the invariant\<close>

text \<open>\<open>post m P\<close>: the operation returns, and its result has the property \<open>P\<close>.\<close>

definition post :: "'a option \<Rightarrow> ('a \<Rightarrow> bool) \<Rightarrow> bool" where
  "post m P \<longleftrightarrow> (\<exists>r. m = Some r \<and> P r)"

lemma post_Some [simp]: "post (Some r) P = P r"
  by (simp add: post_def)

lemma post_bind: "post m Q \<Longrightarrow> (\<And>r. Q r \<Longrightarrow> post (f r) P) \<Longrightarrow> post (Option.bind m f) P"
  by (auto simp: post_def)

lemma post_weaken: "post m Q \<Longrightarrow> (\<And>r. Q r \<Longrightarrow> P r) \<Longrightarrow> post m P"
  by (auto simp: post_def)

lemma post_map: "post m (\<lambda>r. P (f r)) \<Longrightarrow> post (map_option f m) P"
  by (auto simp: post_def)

lemma expireIfNeeded_post:
  "wf_redis s \<Longrightarrow> sized key \<Longrightarrow> post (expireIfNeeded key s) (\<lambda>(b, s'). wf_redis s')"
  by (metis (no_types, lifting) expireIfNeeded_ok post_Some case_prod_conv)

lemma lookupKeyWrite_post:
  "wf_redis s \<Longrightarrow> sized key \<Longrightarrow> post (lookupKeyWrite key s) (\<lambda>(val, s'). wf_redis s' \<and> val = db_dict s' key \<and>
     (case val of None \<Rightarrow> True | Some v \<Rightarrow> good_obj v \<and> wf_robj v))"
  unfolding lookupKeyWrite_def
  by (rule post_bind [OF expireIfNeeded_post]) (auto simp: lookupKey_def split: option.splits dest: wf_redisD(2,3))

lemma wf_redis_stats [simp]:
  "wf_redis (s\<lparr>stat_keyspace_hits := n\<rparr>) = wf_redis s"
  "wf_redis (s\<lparr>stat_keyspace_misses := n\<rparr>) = wf_redis s"
  "wf_redis (s\<lparr>sv_dirty := d\<rparr>) = wf_redis s"
  by (simp_all add: wf_redis_def)

lemma lookupKeyRead_post:
  "wf_redis s \<Longrightarrow> sized key \<Longrightarrow>
     post (lookupKeyRead key s) (\<lambda>(val, s'). wf_redis s' \<and>
       (case val of None \<Rightarrow> True | Some v \<Rightarrow> db_dict s' key = Some v \<and> good_obj v \<and> wf_robj v))"
  unfolding lookupKeyRead_def
  by (rule post_bind [OF expireIfNeeded_post])
    (auto simp: lookupKey_def Let_def split: option.splits dest: wf_redisD(2,3))

lemma setKey_post:
  assumes "wf_redis s" and "sized key" and "good_obj val"
  shows "post (setKey key val s) (\<lambda>s'. wf_redis s' \<and> db_dict s' key = Some val)"
  unfolding setKey_def
proof (rule post_bind [OF lookupKeyWrite_post [OF assms(1,2)]], clarify)
  fix s' assume "wf_redis s'"
  then have "wf_redis (s'\<lparr>db_dict := (db_dict s')(key \<mapsto> val), db_expires := (db_expires s')(key := None)\<rparr>)"
    using assms(3) by (auto simp: wf_redis_def)
  then show "post ((if db_dict s' key = None then dbAdd key val s' else dbOverwrite key val s') \<bind>
      (\<lambda>s. removeExpire key s \<bind> (\<lambda>(_, s). Some s))) (\<lambda>s'. wf_redis s' \<and> db_dict s' key = Some val)"
    by (simp add: dbAdd_def dbOverwrite_def removeExpire_def)
qed

lemma setExpire_post:
  "wf_redis s \<Longrightarrow> db_dict s key \<noteq> None \<Longrightarrow> post (setExpire key when s) wf_redis"
  by (auto simp: setExpire_def)

lemma good_obj_str: "good_obj val \<Longrightarrow> obj_str val = Some v \<Longrightarrow> length v \<le> 512 * 1024 * 1024"
  by (simp add: good_obj_def)

lemma good_RawStr [simp]: "good_obj (RawStr v) \<longleftrightarrow> length v \<le> 512 * 1024 * 1024"
  by (simp add: good_obj_def)

lemma good_encoded [simp]: "good_obj (encoded v) \<longleftrightarrow> length v \<le> 512 * 1024 * 1024"
  by (simp add: good_obj_def)

lemma good_IntEnc [simp]: "good_obj (IntEnc v) \<longleftrightarrow> in_int64 v"
  using length_show_int [of v] by (auto simp: good_obj_def)

lemma dbUnshareStringValue_post:
  assumes "wf_redis s" and "db_dict s key = Some val" and "is_string_obj val"
  shows "post (dbUnshareStringValue key val s)
           (\<lambda>(v, s'). wf_redis s' \<and> obj_str val = Some v \<and> length v \<le> 512 * 1024 * 1024)"
proof -
  have good: "good_obj val" and wf: "wf_robj val"
    using wf_redisD(2,3) [OF assms(1,2)] by simp_all
  obtain v where v: "obj_str val = Some v"
    using assms(3) by (auto simp: is_string_obj_iff)
  obtain dec where dec: "getDecodedObject val = Some dec" "obj_str dec = Some v" "sdsEncodedObject dec"
    using getDecodedObject_str [OF wf v] by blast
  have ptr: "obj_ptr dec = Some v"
    using dec(2,3) by (cases dec) auto
  have len: "length v \<le> 512 * 1024 * 1024"
    using good v by (rule good_obj_str)
  have "wf_redis (s\<lparr>db_dict := (db_dict s)(key \<mapsto> RawStr v)\<rparr>)"
    using assms(1) len by auto
  then show ?thesis
    using assms(1,2) v len dec(1) ptr
    by (cases val) (auto simp: dbUnshareStringValue_def dbOverwrite_def createRawStringObject_def)
qed

section \<open>Keys without an expire time\<close>

lemma expireIfNeeded_persistent [simp]:
  "db_expires s key = None \<Longrightarrow> expireIfNeeded key s = Some (False, s)"
  by (simp add: expireIfNeeded_def keyIsExpired_def getExpire_def)

lemma lookupKeyWrite_persistent [simp]:
  "db_expires s key = None \<Longrightarrow> lookupKeyWrite key s = Some (db_dict s key, s)"
  by (simp add: lookupKeyWrite_def lookupKey_def)

lemma lookupKeyRead_persistent:
  "db_expires s key = None \<Longrightarrow>
     lookupKeyRead key s =
       Some (db_dict s key,
             case db_dict s key of
               None \<Rightarrow> s\<lparr>stat_keyspace_misses := stat_keyspace_misses s + 1\<rparr>
             | Some v \<Rightarrow> s\<lparr>stat_keyspace_hits := stat_keyspace_hits s + 1\<rparr>)"
  by (simp add: lookupKeyRead_def lookupKey_def Let_def split: option.splits)

lemma setKey_persistent [simp]:
  assumes "db_expires s key = None"
  shows "setKey key val s = Some (s\<lparr>db_dict := (db_dict s)(key \<mapsto> val)\<rparr>)"
proof -
  have "(db_expires s)(key := None) = db_expires s"
    using assms by (simp add: fun_upd_idem)
  then show ?thesis
    using assms by (simp add: setKey_def dbAdd_def dbOverwrite_def removeExpire_def)
qed

end
