(* ===== verification/String_Commands.thy ===== *)
theory String_Commands
  imports Keyspace
begin

text \<open>
  The commands on strings (\<^verbatim>\<open>src/src/t_string.c\<close>), \<^verbatim>\<open>DEL\<close> and \<^verbatim>\<open>UNLINK\<close> (\<^verbatim>\<open>src/src/db.c\<close>) and the
  \<^verbatim>\<open>EXPIRE\<close> family (\<^verbatim>\<open>src/src/expire.c\<close>), among them the commands the instant recovery adds:
  \<^verbatim>\<open>setIR\<close>, \<^verbatim>\<open>setCheckpoint\<close>, \<^verbatim>\<open>checkpointEnd\<close> and \<^verbatim>\<open>benchmarkEnd\<close>.  A command works on the client
  (its arguments, which it may rewrite, and its replies) and on the key space; \<^term>\<open>None\<close> is a
  failed assertion, an allocation that cannot succeed or an access outside the arguments.
  \<^verbatim>\<open>INCRBYFLOAT\<close> is left out, it works on \<^verbatim>\<open>long double\<close>.  Signed overflow, where the code has it,
  wraps.  The laws of the commands are in the theory \<open>String_Command_Laws\<close>.
\<close>

section \<open>Clients and replies\<close>

datatype reply =
    R_ok | R_nullbulk | R_czero | R_cone | R_emptybulk | R_syntaxerr | R_wrongtypeerr
  | R_error string | R_ir_error string | R_bulk string | R_longlong int | R_multibulklen int

record client =
  cl_argv :: "robj list"
  cl_cmd :: cmd_proc
  cl_cmd_name :: string
  cl_fake :: bool
  cl_reply :: "reply list"

type_synonym command = "client \<Rightarrow> redis \<Rightarrow> (client \<times> redis) option"

text \<open>A client without a socket gets no reply (\<^verbatim>\<open>prepareClientToWrite\<close>).\<close>

definition addReply :: "reply \<Rightarrow> client \<Rightarrow> client" where
  "addReply r c = (if cl_fake c then c else c\<lparr>cl_reply := cl_reply c @ [r]\<rparr>)"

definition addReplyBulk :: "robj \<Rightarrow> client \<Rightarrow> client option" where
  "addReplyBulk val c = map_option (\<lambda>v. addReply (R_bulk v) c) (obj_str val)"

definition cl_key :: "nat \<Rightarrow> client \<Rightarrow> string option" where
  "cl_key i c = Option.bind (arg_at i (cl_argv c)) obj_ptr"

definition getLongLongFromObjectOrReply :: "robj option \<Rightarrow> (reply + int) option" where
  "getLongLongFromObjectOrReply val =
     do {
       (res, value) \<leftarrow> getLongLongFromObject val;
       Some (case res of C_OK \<Rightarrow> Inr value
                       | C_ERR \<Rightarrow> Inl (R_error ''value is not an integer or out of range''))
     }"

definition getLongFromObjectOrReply :: "robj option \<Rightarrow> (reply + int) option" where
  "getLongFromObjectOrReply val =
     do {
       res \<leftarrow> getLongLongFromObjectOrReply val;
       Some (case res of Inl e \<Rightarrow> Inl e
             | Inr value \<Rightarrow> if value < LLONG_MIN \<or> value > LLONG_MAX then Inl (R_error ''value is out of range'')
                            else Inr value)
     }"

text \<open>The argument is a \<^verbatim>\<open>long long\<close>; a size computed as \<^verbatim>\<open>size_t\<close> is converted.\<close>

definition checkStringLength :: "int \<Rightarrow> c_result" where
  "checkStringLength sz = (if sz > 512 * 1024 * 1024 then C_ERR else C_OK)"

definition length_error :: reply where
  "length_error = R_error ''string exceeds maximum allowed size (512MB)''"

text \<open>A string of zeros; no allocation of more than half the address space succeeds.\<close>

definition sdsnewlen_zero :: "nat \<Rightarrow> string option" where
  "sdsnewlen_zero n = (if n < 2 ^ 63 then Some (replicate n NUL) else None)"

section \<open>SET and its variants\<close>

datatype time_unit = UNIT_SECONDS | UNIT_MILLISECONDS

record set_opts =
  SET_NX :: bool
  SET_XX :: bool
  SET_EX :: bool
  SET_PX :: bool
  so_expire :: "robj option"
  so_unit :: time_unit

definition OBJ_SET_NO_FLAGS :: set_opts where
  "OBJ_SET_NO_FLAGS = \<lparr>SET_NX = False, SET_XX = False, SET_EX = False, SET_PX = False,
                       so_expire = None, so_unit = UNIT_SECONDS\<rparr>"

text \<open>The time to live in milliseconds, or the error reply.\<close>

definition expire_milliseconds :: "string \<Rightarrow> robj option \<Rightarrow> time_unit \<Rightarrow> (reply + int) option" where
  "expire_milliseconds name expire unit =
     (case expire of
        None \<Rightarrow> Some (Inr 0)
      | Some ex \<Rightarrow>
          do {
            res \<leftarrow> getLongLongFromObjectOrReply (Some ex);
            Some (case res of
                    Inl e \<Rightarrow> Inl e
                  | Inr ms \<Rightarrow>
                      if ms \<le> 0 then Inl (R_error (''invalid expire time in '' @ name))
                      else Inr (if unit = UNIT_SECONDS then to_int64 (ms * 1000) else ms))
          })"

text \<open>The test of the flags \<^verbatim>\<open>NX\<close> and \<^verbatim>\<open>XX\<close>: whether the command is aborted.\<close>

definition set_aborts :: "set_opts \<Rightarrow> string \<Rightarrow> redis \<Rightarrow> (bool \<times> redis) option" where
  "set_aborts flags key s =
     do {
       (exists, s) \<leftarrow> (if SET_NX flags then do { (val, s) \<leftarrow> lookupKeyWrite key s; Some (val \<noteq> None, s) }
                      else Some (False, s));
       if exists then Some (True, s)
       else if SET_XX flags then do { (val, s) \<leftarrow> lookupKeyWrite key s; Some (val = None, s) }
       else Some (False, s)
     }"

definition setGenericCommand :: "set_opts \<Rightarrow> string \<Rightarrow> robj \<Rightarrow> reply \<Rightarrow> reply \<Rightarrow> command" where
  "setGenericCommand flags key val ok_reply abort_reply c s =
     do {
       res \<leftarrow> expire_milliseconds (cl_cmd_name c) (so_expire flags) (so_unit flags);
       case res of
         Inl e \<Rightarrow> Some (addReply e c, s)
       | Inr milliseconds \<Rightarrow>
           do {
             (aborted, s) \<leftarrow> set_aborts flags key s;
             if aborted then Some (addReply abort_reply c, s)
             else do {
               s \<leftarrow> setKey key val s;
               let s = s\<lparr>sv_dirty := sv_dirty s + 1\<rparr>;
               s \<leftarrow> (if so_expire flags \<noteq> None then setExpire key (to_int64 (sv_clock s + milliseconds)) s else Some s);
               Some (addReply ok_reply c, s)
             }
           }
     }"

definition setGenericCommandNoUpdate :: "set_opts \<Rightarrow> string \<Rightarrow> reply \<Rightarrow> reply \<Rightarrow> command" where
  "setGenericCommandNoUpdate flags key ok_reply abort_reply c s =
     do {
       res \<leftarrow> expire_milliseconds (cl_cmd_name c) (so_expire flags) (so_unit flags);
       case res of
         Inl e \<Rightarrow> Some (addReply e c, s)
       | Inr milliseconds \<Rightarrow>
           do {
             (aborted, s) \<leftarrow> set_aborts flags key s;
             if aborted then Some (addReply abort_reply c, s)
             else do {
               let s = s\<lparr>sv_dirty := sv_dirty s + 1\<rparr>;
               s \<leftarrow> (if so_expire flags \<noteq> None then setExpire key (to_int64 (sv_clock s + milliseconds)) s else Some s);
               Some (addReply ok_reply c, s)
             }
           }
     }"

text \<open>The options from the fourth argument on; the inner \<^term>\<open>None\<close> is a syntax error.\<close>

fun set_options :: "set_opts \<Rightarrow> robj list \<Rightarrow> set_opts option option" where
  "set_options flags [] = Some (Some flags)"
| "set_options flags (x # rst) =
     (case obj_ptr x of
        None \<Rightarrow> None
      | Some a \<Rightarrow>
          if c_strcaseeq a ''nx'' \<and> \<not> SET_XX flags then set_options (flags\<lparr>SET_NX := True\<rparr>) rst
          else if c_strcaseeq a ''xx'' \<and> \<not> SET_NX flags then set_options (flags\<lparr>SET_XX := True\<rparr>) rst
          else
            (case rst of
               [] \<Rightarrow> Some None
             | next # opts' \<Rightarrow>
                 if c_strcaseeq a ''ex'' \<and> \<not> SET_PX flags
                 then set_options (flags\<lparr>SET_EX := True, so_unit := UNIT_SECONDS, so_expire := Some next\<rparr>) opts'
                 else if c_strcaseeq a ''px'' \<and> \<not> SET_EX flags
                 then set_options (flags\<lparr>SET_PX := True, so_unit := UNIT_MILLISECONDS, so_expire := Some next\<rparr>) opts'
                 else Some None))"

text \<open>The argument \<open>i\<close> is replaced by its encoding.\<close>

definition encode_arg :: "nat \<Rightarrow> client \<Rightarrow> (robj \<times> client) option" where
  "encode_arg i c =
     do {
       x \<leftarrow> arg_at i (cl_argv c);
       e \<leftarrow> tryObjectEncoding x;
       Some (e, c\<lparr>cl_argv := (cl_argv c)[i := e]\<rparr>)
     }"

definition setIRCommand :: command where
  "setIRCommand c s =
     do {
       opts \<leftarrow> set_options (OBJ_SET_NO_FLAGS\<lparr>SET_NX := True\<rparr>) (drop 3 (cl_argv c));
       case opts of
         None \<Rightarrow> Some (addReply R_syntaxerr c, s)
       | Some flags \<Rightarrow>
           do {
             key \<leftarrow> cl_key 1 c;
             (val, c) \<leftarrow> encode_arg 2 c;
             setGenericCommand flags key val R_ok R_nullbulk c s
           }
     }"

text \<open>The value becomes the third argument: a C string, so it ends at the first zero byte.\<close>

definition setCheckpointCommand :: command where
  "setCheckpointCommand c s =
     do {
       key \<leftarrow> cl_key 1 c;
       (a, s) \<leftarrow> lookupKeyRead key s;
       case a of
         None \<Rightarrow> Some (addReply (R_ir_error (''- key not found!'' @ CRLF)) c, s)
       | Some val \<Rightarrow>
           do {
             astr \<leftarrow> obj_bytes val;
             _ \<leftarrow> arg_at 2 (cl_argv c);
             let c = c\<lparr>cl_argv := (cl_argv c)[2 := RawStr (cstr astr)]\<rparr>;
             opts \<leftarrow> set_options (OBJ_SET_NO_FLAGS\<lparr>SET_XX := True\<rparr>) (drop 3 (cl_argv c));
             case opts of
               None \<Rightarrow> Some (addReply R_syntaxerr c, s)
             | Some flags \<Rightarrow> setGenericCommandNoUpdate flags key R_ok R_nullbulk c s
           }
     }"

definition checkpointEndCommand :: command where
  "checkpointEndCommand c s =
     do {
       opts \<leftarrow> set_options OBJ_SET_NO_FLAGS (drop 3 (cl_argv c));
       case opts of
         None \<Rightarrow> Some (addReply R_syntaxerr c, s)
       | Some flags \<Rightarrow> do { key \<leftarrow> cl_key 1 c; setGenericCommandNoUpdate flags key R_ok R_nullbulk c s }
     }"

definition benchmarkEndCommand :: command where
  "benchmarkEndCommand c s =
     do {
       opts \<leftarrow> set_options OBJ_SET_NO_FLAGS (drop 3 (cl_argv c));
       case opts of
         None \<Rightarrow> Some (addReply R_syntaxerr c, s)
       | Some flags \<Rightarrow> do { key \<leftarrow> cl_key 1 c; setGenericCommandNoUpdate flags key R_ok R_nullbulk c s }
     }"

definition setCommand :: command where
  "setCommand c s =
     do {
       opts \<leftarrow> set_options OBJ_SET_NO_FLAGS (drop 3 (cl_argv c));
       case opts of
         None \<Rightarrow> Some (addReply R_syntaxerr c, s)
       | Some flags \<Rightarrow>
           do {
             key \<leftarrow> cl_key 1 c;
             (val, c) \<leftarrow> encode_arg 2 c;
             setGenericCommand flags key val R_ok R_nullbulk c s
           }
     }"

definition setnxCommand :: command where
  "setnxCommand c s =
     do {
       key \<leftarrow> cl_key 1 c;
       (val, c) \<leftarrow> encode_arg 2 c;
       setGenericCommand (OBJ_SET_NO_FLAGS\<lparr>SET_NX := True\<rparr>) key val R_cone R_czero c s
     }"

definition setexCommand :: command where
  "setexCommand c s =
     do {
       key \<leftarrow> cl_key 1 c;
       (val, c) \<leftarrow> encode_arg 3 c;
       ex \<leftarrow> arg_at 2 (cl_argv c);
       setGenericCommand (OBJ_SET_NO_FLAGS\<lparr>so_expire := Some ex, so_unit := UNIT_SECONDS\<rparr>) key val R_ok R_nullbulk c s
     }"

definition psetexCommand :: command where
  "psetexCommand c s =
     do {
       key \<leftarrow> cl_key 1 c;
       (val, c) \<leftarrow> encode_arg 3 c;
       ex \<leftarrow> arg_at 2 (cl_argv c);
       setGenericCommand (OBJ_SET_NO_FLAGS\<lparr>so_expire := Some ex, so_unit := UNIT_MILLISECONDS\<rparr>) key val R_ok R_nullbulk c s
     }"

section \<open>Reading\<close>

definition getGenericCommand :: "client \<Rightarrow> redis \<Rightarrow> (c_result \<times> client \<times> redis) option" where
  "getGenericCommand c s =
     do {
       key \<leftarrow> cl_key 1 c;
       (val, s) \<leftarrow> lookupKeyRead key s;
       case val of
         None \<Rightarrow> Some (C_OK, addReply R_nullbulk c, s)
       | Some v \<Rightarrow>
           if \<not> is_string_obj v then Some (C_ERR, addReply R_wrongtypeerr c, s)
           else do { c \<leftarrow> addReplyBulk v c; Some (C_OK, c, s) }
     }"

definition getCommand :: command where
  "getCommand c s = map_option snd (getGenericCommand c s)"

definition getsetCommand :: command where
  "getsetCommand c s =
     do {
       (res, c, s) \<leftarrow> getGenericCommand c s;
       if res = C_ERR then Some (c, s)
       else do {
         key \<leftarrow> cl_key 1 c;
         (val, c) \<leftarrow> encode_arg 2 c;
         s \<leftarrow> setKey key val s;
         Some (c, s\<lparr>sv_dirty := sv_dirty s + 1\<rparr>)
       }
     }"

fun mget_loop :: "robj list \<Rightarrow> command" where
  "mget_loop [] c s = Some (c, s)"
| "mget_loop (x # rst) c s =
     do {
       key \<leftarrow> obj_ptr x;
       (val, s) \<leftarrow> lookupKeyRead key s;
       case val of
         None \<Rightarrow> mget_loop rst (addReply R_nullbulk c) s
       | Some v \<Rightarrow>
           if \<not> is_string_obj v then mget_loop rst (addReply R_nullbulk c) s
           else do { c \<leftarrow> addReplyBulk v c; mget_loop rst c s }
     }"

definition mgetCommand :: command where
  "mgetCommand c s = mget_loop (drop 1 (cl_argv c)) (addReply (R_multibulklen (int (length (cl_argv c)) - 1)) c) s"

definition strlenCommand :: command where
  "strlenCommand c s =
     do {
       key \<leftarrow> cl_key 1 c;
       (val, s) \<leftarrow> lookupKeyRead key s;
       case val of
         None \<Rightarrow> Some (addReply R_czero c, s)
       | Some v \<Rightarrow>
           if \<not> is_string_obj v then Some (addReply R_wrongtypeerr c, s)
           else do { n \<leftarrow> stringObjectLen v; Some (addReply (R_longlong (int n)) c, s) }
     }"

text \<open>The bounds after the conversion of negative indexes; \<open>len\<close> is unsigned.\<close>

definition range_bounds :: "nat \<Rightarrow> int \<Rightarrow> int \<Rightarrow> int \<times> int" where
  "range_bounds len start end =
     (let start = (if start < 0 then int len + start else start);
          end = (if end < 0 then int len + end else end);
          start = (if start < 0 then 0 else start);
          end = (if end < 0 then 0 else end);
          end = (if to_uint64 end \<ge> len then int len - 1 else end)
      in (start, end))"

definition getrangeCommand :: command where
  "getrangeCommand c s =
     do {
       a2 \<leftarrow> arg_at 2 (cl_argv c);
       start \<leftarrow> getLongLongFromObjectOrReply (Some a2);
       case start of
         Inl e \<Rightarrow> Some (addReply e c, s)
       | Inr start \<Rightarrow>
           do {
             a3 \<leftarrow> arg_at 3 (cl_argv c);
             end \<leftarrow> getLongLongFromObjectOrReply (Some a3);
             case end of
               Inl e \<Rightarrow> Some (addReply e c, s)
             | Inr end \<Rightarrow>
                 do {
                   key \<leftarrow> cl_key 1 c;
                   (val, s) \<leftarrow> lookupKeyRead key s;
                   case val of
                     None \<Rightarrow> Some (addReply R_emptybulk c, s)
                   | Some v \<Rightarrow>
                       if \<not> is_string_obj v then Some (addReply R_wrongtypeerr c, s)
                       else do {
                         str \<leftarrow> obj_bytes v;
                         if start < 0 \<and> end < 0 \<and> start > end then Some (addReply R_emptybulk c, s)
                         else (case range_bounds (length str) start end of (start, end) \<Rightarrow>
                           if start > end \<or> str = [] then Some (addReply R_emptybulk c, s)
                           else Some (addReply (R_bulk (take (nat (end - start + 1)) (drop (nat start) str))) c, s))
                       }
                 }
           }
     }"

section \<open>Updating\<close>

definition put_string :: "string \<Rightarrow> string \<Rightarrow> redis \<Rightarrow> redis" where
  "put_string key v s = s\<lparr>db_dict := (db_dict s)(key \<mapsto> RawStr v), sv_dirty := sv_dirty s + 1\<rparr>"

text \<open>The string object of \<open>key\<close>, which holds \<open>old\<close>, grows with zeros and takes the value in
  from \<open>offset\<close> on.\<close>

definition setrange_write :: "string \<Rightarrow> string \<Rightarrow> nat \<Rightarrow> string \<Rightarrow> client \<Rightarrow> redis \<Rightarrow> (client \<times> redis) option" where
  "setrange_write key old offset value c s =
     (if offset + length value \<ge> 2 ^ 63 then None
      else
        let grown = sdsgrowzero old (offset + length value);
            new = take offset grown @ value @ drop (offset + length value) grown
        in Some (addReply (R_longlong (int (length new))) c, put_string key new s))"

definition setrangeCommand :: command where
  "setrangeCommand c s =
     do {
       value \<leftarrow> cl_key 3 c;
       a2 \<leftarrow> arg_at 2 (cl_argv c);
       offset \<leftarrow> getLongFromObjectOrReply (Some a2);
       case offset of
         Inl e \<Rightarrow> Some (addReply e c, s)
       | Inr offset \<Rightarrow>
           if offset < 0 then Some (addReply (R_error ''offset is out of range'') c, s)
           else do {
             key \<leftarrow> cl_key 1 c;
             (val, s) \<leftarrow> lookupKeyWrite key s;
             case val of
               None \<Rightarrow>
                 if value = [] then Some (addReply R_czero c, s)
                 else if checkStringLength (to_int64 (offset + int (length value))) \<noteq> C_OK
                 then Some (addReply length_error c, s)
                 else do {
                   z \<leftarrow> sdsnewlen_zero (nat offset + length value);
                   s \<leftarrow> dbAdd key (RawStr z) s;
                   setrange_write key z (nat offset) value c s
                 }
             | Some v \<Rightarrow>
                 if \<not> is_string_obj v then Some (addReply R_wrongtypeerr c, s)
                 else do {
                   olen \<leftarrow> stringObjectLen v;
                   if value = [] then Some (addReply (R_longlong (int olen)) c, s)
                   else if checkStringLength (to_int64 (offset + int (length value))) \<noteq> C_OK
                   then Some (addReply length_error c, s)
                   else do {
                     (old, s) \<leftarrow> dbUnshareStringValue key v s;
                     setrange_write key old (nat offset) value c s
                   }
                 }
           }
     }"

definition appendCommand :: command where
  "appendCommand c s =
     do {
       key \<leftarrow> cl_key 1 c;
       (val, s) \<leftarrow> lookupKeyWrite key s;
       case val of
         None \<Rightarrow>
           do {
             (new, c) \<leftarrow> encode_arg 2 c;
             s \<leftarrow> dbAdd key new s;
             totlen \<leftarrow> stringObjectLen new;
             Some (addReply (R_longlong (int totlen)) c, s\<lparr>sv_dirty := sv_dirty s + 1\<rparr>)
           }
       | Some v \<Rightarrow>
           if \<not> is_string_obj v then Some (addReply R_wrongtypeerr c, s)
           else do {
             append \<leftarrow> cl_key 2 c;
             olen \<leftarrow> stringObjectLen v;
             if checkStringLength (to_int64 (int (olen + length append))) \<noteq> C_OK
             then Some (addReply length_error c, s)
             else do {
               (old, s) \<leftarrow> dbUnshareStringValue key v s;
               let new = sdscatlen old append;
               Some (addReply (R_longlong (int (length new))) c, put_string key new s)
             }
           }
     }"

fun mset_nx :: "robj list \<Rightarrow> redis \<Rightarrow> (bool \<times> redis) option" where
  "mset_nx (k # v # rst) s =
     do {
       key \<leftarrow> obj_ptr k;
       (val, s) \<leftarrow> lookupKeyWrite key s;
       if val \<noteq> None then Some (True, s) else mset_nx rst s
     }"
| "mset_nx _ s = Some (False, s)"

fun mset_loop :: "nat \<Rightarrow> nat \<Rightarrow> client \<Rightarrow> redis \<Rightarrow> (client \<times> redis) option" where
  "mset_loop j 0 c s = Some (c, s)"
| "mset_loop j (Suc left) c s =
     do {
       (val, c) \<leftarrow> encode_arg (j + 1) c;
       key \<leftarrow> cl_key j c;
       s \<leftarrow> setKey key val s;
       mset_loop (j + 2) left c s
     }"

definition msetGenericCommand :: "bool \<Rightarrow> command" where
  "msetGenericCommand nx c s =
     (let argc = length (cl_argv c)
      in if argc mod 2 = 0 then Some (addReply (R_error ''wrong number of arguments for MSET'') c, s)
         else do {
           (exists, s) \<leftarrow> (if nx then mset_nx (drop 1 (cl_argv c)) s else Some (False, s));
           if exists then Some (addReply R_czero c, s)
           else do {
             (c, s) \<leftarrow> mset_loop 1 ((argc - 1) div 2) c s;
             Some (addReply (if nx then R_cone else R_ok) c, s\<lparr>sv_dirty := sv_dirty s + int ((argc - 1) div 2)\<rparr>)
           }
         })"

definition msetCommand :: command where
  "msetCommand c s = msetGenericCommand False c s"

definition msetnxCommand :: command where
  "msetnxCommand c s = msetGenericCommand True c s"

text \<open>The integer object is changed in place or replaced; the value is the same.\<close>

definition incrDecrCommand :: "int \<Rightarrow> command" where
  "incrDecrCommand incr c s =
     do {
       key \<leftarrow> cl_key 1 c;
       (val, s) \<leftarrow> lookupKeyWrite key s;
       if (case val of None \<Rightarrow> False | Some v \<Rightarrow> \<not> is_string_obj v) then Some (addReply R_wrongtypeerr c, s)
       else do {
         res \<leftarrow> getLongLongFromObjectOrReply val;
         case res of
           Inl e \<Rightarrow> Some (addReply e c, s)
         | Inr oldvalue \<Rightarrow>
             if (incr < 0 \<and> oldvalue < 0 \<and> incr < LLONG_MIN - oldvalue) \<or>
                (incr > 0 \<and> oldvalue > 0 \<and> incr > LLONG_MAX - oldvalue)
             then Some (addReply (R_error ''increment or decrement would overflow'') c, s)
             else do {
               let value = to_int64 (oldvalue + incr);
               let new = createStringObjectFromLongLong value;
               s \<leftarrow> (if val \<noteq> None then dbOverwrite key new s else dbAdd key new s);
               Some (addReply (R_longlong value) c, s\<lparr>sv_dirty := sv_dirty s + 1\<rparr>)
             }
       }
     }"

definition incrCommand :: command where
  "incrCommand c s = incrDecrCommand 1 c s"

definition decrCommand :: command where
  "decrCommand c s = incrDecrCommand (-1) c s"

definition incrbyCommand :: command where
  "incrbyCommand c s =
     do {
       a2 \<leftarrow> arg_at 2 (cl_argv c);
       incr \<leftarrow> getLongLongFromObjectOrReply (Some a2);
       case incr of Inl e \<Rightarrow> Some (addReply e c, s) | Inr incr \<Rightarrow> incrDecrCommand incr c s
     }"

definition decrbyCommand :: command where
  "decrbyCommand c s =
     do {
       a2 \<leftarrow> arg_at 2 (cl_argv c);
       incr \<leftarrow> getLongLongFromObjectOrReply (Some a2);
       case incr of Inl e \<Rightarrow> Some (addReply e c, s) | Inr incr \<Rightarrow> incrDecrCommand (to_int64 (- incr)) c s
     }"

section \<open>Deleting and expiring\<close>

fun del_loop :: "bool \<Rightarrow> robj list \<Rightarrow> nat \<Rightarrow> redis \<Rightarrow> (nat \<times> redis) option" where
  "del_loop lazy [] numdel s = Some (numdel, s)"
| "del_loop lazy (x # rst) numdel s =
     do {
       key \<leftarrow> obj_ptr x;
       (_, s) \<leftarrow> expireIfNeeded key s;
       let (deleted, s) = (if lazy then dbAsyncDelete key s else dbSyncDelete key s);
       if deleted then del_loop lazy rst (numdel + 1) (s\<lparr>sv_dirty := sv_dirty s + 1\<rparr>)
       else del_loop lazy rst numdel s
     }"

definition delGenericCommand :: "bool \<Rightarrow> command" where
  "delGenericCommand lazy c s =
     do {
       (numdel, s) \<leftarrow> del_loop lazy (drop 1 (cl_argv c)) 0 s;
       Some (addReply (R_longlong (int numdel)) c, s)
     }"

definition delCommand :: command where
  "delCommand c s = delGenericCommand False c s"

definition unlinkCommand :: command where
  "unlinkCommand c s = delGenericCommand True c s"

text \<open>The state holds one database, \<open>db_id\<close>: a client that selects another one leaves the model.  The index
  is passed to \<open>selectDb\<close> as a 32-bit integer.\<close>

definition selectDb :: "int \<Rightarrow> redis \<Rightarrow> c_result option" where
  "selectDb index s =
     (if index < 0 \<or> index \<ge> sv_dbnum s then Some C_ERR else if index = db_id s then Some C_OK else None)"

definition selectCommand :: command where
  "selectCommand c s =
     do {
       a1 \<leftarrow> arg_at 1 (cl_argv c);
       res \<leftarrow> getLongFromObjectOrReply (Some a1);
       case res of
         Inl _ \<Rightarrow> Some (addReply (R_error ''invalid DB index'') c, s)
       | Inr index \<Rightarrow>
           if sv_cluster_enabled s \<and> index \<noteq> 0
           then Some (addReply (R_error ''SELECT is not allowed in cluster mode'') c, s)
           else do {
             selected \<leftarrow> selectDb (to_int32 index) s;
             Some (addReply (case selected of C_ERR \<Rightarrow> R_error ''DB index is out of range'' | C_OK \<Rightarrow> R_ok) c, s)
           }
     }"

text \<open>A key whose time is over is deleted, and the command becomes \<^verbatim>\<open>DEL\<close> or \<^verbatim>\<open>UNLINK\<close>.\<close>

definition expireGenericCommand :: "int \<Rightarrow> time_unit \<Rightarrow> command" where
  "expireGenericCommand basetime unit c s =
     do {
       k \<leftarrow> arg_at 1 (cl_argv c);
       key \<leftarrow> obj_ptr k;
       param \<leftarrow> arg_at 2 (cl_argv c);
       when \<leftarrow> getLongLongFromObjectOrReply (Some param);
       case when of
         Inl e \<Rightarrow> Some (addReply e c, s)
       | Inr when \<Rightarrow>
           do {
             let when = (if unit = UNIT_SECONDS then to_int64 (when * 1000) else when);
             let when = to_int64 (when + basetime);
             (val, s) \<leftarrow> lookupKeyWrite key s;
             if val = None then Some (addReply R_czero c, s)
             else if when \<le> sv_clock s \<and> \<not> sv_loading s \<and> \<not> sv_masterhost s then
               (let lazy = sv_lazyfree_lazy_expire s;
                    (deleted, s) = (if lazy then dbAsyncDelete key s else dbSyncDelete key s)
                in if \<not> deleted then None
                   else Some (addReply R_cone
                          (c\<lparr>cl_argv := [createStringObject (if lazy then ''UNLINK'' else ''DEL''), k],
                             cl_cmd := (if lazy then UnlinkCommand else DelCommand),
                             cl_cmd_name := (if lazy then ''unlink'' else ''del'')\<rparr>),
                        s\<lparr>sv_dirty := sv_dirty s + 1\<rparr>))
             else do {
               s \<leftarrow> setExpire key when s;
               Some (addReply R_cone c, s\<lparr>sv_dirty := sv_dirty s + 1\<rparr>)
             }
           }
     }"

definition expireCommand :: command where
  "expireCommand c s = expireGenericCommand (sv_clock s) UNIT_SECONDS c s"

definition expireatCommand :: command where
  "expireatCommand c s = expireGenericCommand 0 UNIT_SECONDS c s"

definition pexpireCommand :: command where
  "pexpireCommand c s = expireGenericCommand (sv_clock s) UNIT_MILLISECONDS c s"

definition pexpireatCommand :: command where
  "pexpireatCommand c s = expireGenericCommand 0 UNIT_MILLISECONDS c s"

section \<open>Dispatch\<close>

text \<open>The commands outside the model are passed in as \<open>oth\<close>.\<close>

fun cmd_run :: "(string \<Rightarrow> command) \<Rightarrow> cmd_proc \<Rightarrow> command" where
  "cmd_run oth SetCommand = setCommand"
| "cmd_run oth SetnxCommand = setnxCommand"
| "cmd_run oth SetexCommand = setexCommand"
| "cmd_run oth PsetexCommand = psetexCommand"
| "cmd_run oth GetCommand = getCommand"
| "cmd_run oth GetsetCommand = getsetCommand"
| "cmd_run oth SetrangeCommand = setrangeCommand"
| "cmd_run oth GetrangeCommand = getrangeCommand"
| "cmd_run oth MgetCommand = mgetCommand"
| "cmd_run oth MsetCommand = msetCommand"
| "cmd_run oth MsetnxCommand = msetnxCommand"
| "cmd_run oth IncrCommand = incrCommand"
| "cmd_run oth DecrCommand = decrCommand"
| "cmd_run oth IncrbyCommand = incrbyCommand"
| "cmd_run oth DecrbyCommand = decrbyCommand"
| "cmd_run oth AppendCommand = appendCommand"
| "cmd_run oth StrlenCommand = strlenCommand"
| "cmd_run oth DelCommand = delCommand"
| "cmd_run oth UnlinkCommand = unlinkCommand"
| "cmd_run oth ExpireCommand = expireCommand"
| "cmd_run oth PexpireCommand = pexpireCommand"
| "cmd_run oth ExpireatCommand = expireatCommand"
| "cmd_run oth PexpireatCommand = pexpireatCommand"
| "cmd_run oth SelectCommand = selectCommand"
| "cmd_run oth SetIRCommand = setIRCommand"
| "cmd_run oth SetCheckpointCommand = setCheckpointCommand"
| "cmd_run oth CheckpointEndCommand = checkpointEndCommand"
| "cmd_run oth BenchmarkEndCommand = benchmarkEndCommand"
| "cmd_run oth (OtherCommand name) = oth name"

text \<open>The entries of the command table for these commands: name, implementation and arity.  A
  negative arity is a minimum.  The other commands of the table are given by \<open>oth\<close>; the
  dictionary of the commands ignores the case of the name.\<close>

definition redisCommandTable :: "(string \<times> cmd_proc \<times> int) list" where
  "redisCommandTable =
     [(''get'', GetCommand, 2), (''set'', SetCommand, -3),
      (''setIR'', SetIRCommand, -3), (''setCheckpoint'', SetCheckpointCommand, 3),
      (''checkpointEnd'', CheckpointEndCommand, 3), (''benchmarkEnd'', BenchmarkEndCommand, 3),
      (''setnx'', SetnxCommand, 3), (''setex'', SetexCommand, 4), (''psetex'', PsetexCommand, 4),
      (''append'', AppendCommand, 3), (''strlen'', StrlenCommand, 2), (''del'', DelCommand, -2),
      (''unlink'', UnlinkCommand, -2), (''setrange'', SetrangeCommand, 4), (''getrange'', GetrangeCommand, 4),
      (''substr'', GetrangeCommand, 4),
      (''incr'', IncrCommand, 2), (''decr'', DecrCommand, 2), (''mget'', MgetCommand, -2),
      (''incrby'', IncrbyCommand, 3), (''decrby'', DecrbyCommand, 3), (''getset'', GetsetCommand, 3),
      (''mset'', MsetCommand, -3), (''msetnx'', MsetnxCommand, -3), (''select'', SelectCommand, 2),
      (''expire'', ExpireCommand, 3), (''expireat'', ExpireatCommand, 3),
      (''pexpire'', PexpireCommand, 3), (''pexpireat'', PexpireatCommand, 3)]"

definition lookupCommand :: "(string \<times> cmd_proc \<times> int) list \<Rightarrow> string \<Rightarrow> (string \<times> cmd_proc \<times> int) option" where
  "lookupCommand oth name = List.find (\<lambda>(n, _). map c_tolower n = map c_tolower name) (redisCommandTable @ oth)"

definition arity_ok :: "int \<Rightarrow> nat \<Rightarrow> bool" where
  "arity_ok arity argc \<longleftrightarrow> \<not> ((arity > 0 \<and> arity \<noteq> int argc) \<or> int argc < - arity)"

end
