(* ===== verification/String_Command_Laws.thy ===== *)
theory String_Command_Laws
  imports String_Commands
begin

text \<open>
  The laws of the string commands.  Every command returns and keeps the invariant of the key
  space, which is proved with the post-conditions of the operations it is composed of; then what
  \<^verbatim>\<open>SET\<close>, \<^verbatim>\<open>GET\<close>, \<^verbatim>\<open>INCR\<close>, \<^verbatim>\<open>DEL\<close> and \<^verbatim>\<open>setIR\<close> do to a key, the exactness of the increments and the
  bounds of the range commands.
\<close>

section \<open>Every command returns and keeps the invariant\<close>

abbreviation small :: "string \<Rightarrow> bool" where "small s \<equiv> length s \<le> 512 * 1024 * 1024"

definition client_args :: "client \<Rightarrow> bool" where
  "client_args c \<longleftrightarrow> (\<forall>x \<in> set (cl_argv c). wf_robj x \<and> (\<exists>s. obj_ptr x = Some s \<and> small s))"

definition good_args :: "robj list \<Rightarrow> bool" where
  "good_args argv \<longleftrightarrow> (\<forall>x \<in> set argv. good_obj x \<and> is_string_obj x)"

abbreviation command_post :: "(client \<times> redis) option \<Rightarrow> bool" where
  "command_post m \<equiv> post m (\<lambda>(c', s'). wf_redis s' \<and> good_args (cl_argv c'))"

lemma addReply_simps [simp]:
  "cl_argv (addReply r c) = cl_argv c"
  "cl_cmd (addReply r c) = cl_cmd c"
  "cl_cmd_name (addReply r c) = cl_cmd_name c"
  "cl_fake (addReply r c) = cl_fake c"
  by (simp_all add: addReply_def)

lemma good_obj_arg: "wf_robj x \<Longrightarrow> obj_str x = Some s \<Longrightarrow> small s \<Longrightarrow> good_obj x"
  by (simp add: good_obj_def)

lemma client_args_good: "client_args c \<Longrightarrow> good_args (cl_argv c)"
  unfolding client_args_def good_args_def by (metis good_obj_arg is_string_obj_iff obj_ptr_str)

lemma cl_key_post: "client_args c \<Longrightarrow> i < length (cl_argv c) \<Longrightarrow> post (cl_key i c) (\<lambda>key. sized key \<and> small key)"
  by (fastforce simp: client_args_def cl_key_def arg_at_def post_def)

lemma encode_arg_post:
  assumes "good_args (cl_argv c)" and "i < length (cl_argv c)"
  shows "post (encode_arg i c) (\<lambda>(val, c'). good_obj val \<and> is_string_obj val \<and> good_args (cl_argv c') \<and>
           length (cl_argv c') = length (cl_argv c))"
proof -
  let ?x = "cl_argv c ! i"
  have x: "good_obj ?x" "is_string_obj ?x"
    using assms by (auto simp: good_args_def)
  then obtain v where v: "obj_str ?x = Some v" "wf_robj ?x" "small v"
    by (auto simp: is_string_obj_iff good_obj_def)
  then have "good_args ((cl_argv c)[i := encoded v])"
    using assms by (auto simp: good_args_def dest!: set_update_subset_insert [THEN subsetD])
  then show ?thesis
    using assms v tryObjectEncoding_encoded [OF v(1,2)]
    by (auto simp: encode_arg_def arg_at_def)
qed

lemma getLongLongFromObjectOrReply_post:
  assumes "case val of None \<Rightarrow> True | Some x \<Rightarrow> wf_robj x \<and> is_string_obj x"
  shows "post (getLongLongFromObjectOrReply val) (\<lambda>r. case r of Inl e \<Rightarrow> True | Inr v \<Rightarrow> in_int64 v)"
proof -
  have "getLongLongFromObject val \<noteq> None"
    using assms by (cases val rule: getLongLongFromObject.cases) auto
  then obtain r v where r: "getLongLongFromObject val = Some (r, v)"
    by auto
  show ?thesis
    using getLongLongFromObject_range [of val v] r assms
    by (cases r) (auto simp: getLongLongFromObjectOrReply_def split: option.splits)
qed

lemma expire_milliseconds_post:
  assumes "case ex of None \<Rightarrow> True | Some x \<Rightarrow> wf_robj x \<and> is_string_obj x"
  shows "post (expire_milliseconds name ex unit) (\<lambda>_. True)"
  using assms getLongLongFromObjectOrReply_post [of ex]
  by (auto simp: expire_milliseconds_def post_def split: option.splits)

lemma set_aborts_post:
  assumes "wf_redis s" and "sized key"
  shows "post (set_aborts flags key s) (\<lambda>(b, s'). wf_redis s')"
  using assms unfolding set_aborts_def
  by (auto intro!: post_bind [where Q = "\<lambda>(b, s'). wf_redis s'"] post_weaken [OF lookupKeyWrite_post])

definition opts_ok :: "set_opts \<Rightarrow> bool" where
  "opts_ok flags \<longleftrightarrow> (case so_expire flags of None \<Rightarrow> True | Some x \<Rightarrow> wf_robj x \<and> is_string_obj x)"

lemma setGenericCommand_post:
  assumes "wf_redis s" and "sized key" and "good_obj val" and "opts_ok flags" and "good_args (cl_argv c)"
  shows "command_post (setGenericCommand flags key val ok ab c s)"
  unfolding setGenericCommand_def
  using assms unfolding opts_ok_def
  by (auto split: sum.split intro!: post_bind [OF expire_milliseconds_post] post_bind [OF set_aborts_post]
      post_bind [OF setKey_post] post_bind [OF setExpire_post] simp: Let_def)

lemma setGenericCommandNoUpdate_post:
  assumes "wf_redis s" and "sized key" and "so_expire flags = None" and "good_args (cl_argv c)"
  shows "command_post (setGenericCommandNoUpdate flags key ok ab c s)"
  unfolding setGenericCommandNoUpdate_def
  using assms
  by (auto split: sum.split intro!: post_bind [OF expire_milliseconds_post] post_bind [OF set_aborts_post] simp: Let_def)

lemma set_options_post:
  assumes "\<And>x. x \<in> set xs \<Longrightarrow> wf_robj x \<and> (\<exists>s. obj_ptr x = Some s)" and "opts_ok flags"
  shows "post (set_options flags xs) (\<lambda>r. case r of None \<Rightarrow> True | Some flags' \<Rightarrow> opts_ok flags')"
  using assms
proof (induction flags xs rule: set_options.induct)
  case (2 flags x rst)
  obtain a where a: "obj_ptr x = Some a" "wf_robj x"
    using "2.prems"(1) [of x] by auto
  have args: "\<And>y. y \<in> set rst \<Longrightarrow> wf_robj y \<and> (\<exists>s. obj_ptr y = Some s)"
    using "2.prems"(1) by auto
  show ?case
  proof (cases rst)
    case Nil
    then show ?thesis using a 2 by (auto simp: opts_ok_def)
  next
    case (Cons y ys)
    then obtain b where b: "obj_ptr y = Some b" "wf_robj y"
      using args by auto
    then have "is_string_obj y" by (cases y) auto
    with a b show ?thesis using 2 args Cons by (auto simp: opts_ok_def)
  qed
qed simp

lemma client_args_drop:
  "client_args c \<Longrightarrow> x \<in> set (drop n (cl_argv c)) \<Longrightarrow> wf_robj x \<and> (\<exists>s. obj_ptr x = Some s)"
  by (auto simp: client_args_def dest: in_set_dropD)

lemmas set_posts = post_bind [OF set_options_post] post_bind [OF cl_key_post] post_bind [OF encode_arg_post]

lemma setCommand_post:
  assumes "wf_redis s" and "client_args c" and "3 \<le> length (cl_argv c)"
  shows "command_post (setCommand c s)"
  unfolding setCommand_def
  using assms client_args_good [OF assms(2)]
  by (auto intro!: set_posts setGenericCommand_post dest: client_args_drop split: option.splits simp: opts_ok_def OBJ_SET_NO_FLAGS_def)

lemma opts_ok_flags [simp]:
  "opts_ok OBJ_SET_NO_FLAGS" "opts_ok (flags\<lparr>SET_NX := b\<rparr>) = opts_ok flags" "opts_ok (flags\<lparr>SET_XX := b\<rparr>) = opts_ok flags"
  "opts_ok (flags\<lparr>so_expire := Some x, so_unit := u\<rparr>) \<longleftrightarrow> wf_robj x \<and> is_string_obj x"
  by (simp_all add: opts_ok_def OBJ_SET_NO_FLAGS_def)

lemma so_expire_flags [simp]: "so_expire OBJ_SET_NO_FLAGS = None"
  by (simp add: OBJ_SET_NO_FLAGS_def)

lemma arg_at_post: "good_args argv \<Longrightarrow> i < length argv \<Longrightarrow> post (arg_at i argv) (\<lambda>x. good_obj x \<and> wf_robj x \<and> is_string_obj x)"
  by (auto simp: arg_at_def good_args_def good_obj_def)

lemma good_args_update: "good_args argv \<Longrightarrow> good_obj x \<Longrightarrow> is_string_obj x \<Longrightarrow> good_args (argv[i := x])"
  by (auto simp: good_args_def dest!: set_update_subset_insert [THEN subsetD])

lemma setIRCommand_post:
  assumes "wf_redis s" and "client_args c" and "3 \<le> length (cl_argv c)"
  shows "command_post (setIRCommand c s)"
  unfolding setIRCommand_def
  using assms client_args_good [OF assms(2)]
  by (auto intro!: set_posts setGenericCommand_post dest: client_args_drop split: option.splits)

lemma setnxCommand_post:
  assumes "wf_redis s" and "client_args c" and "3 \<le> length (cl_argv c)"
  shows "command_post (setnxCommand c s)"
  unfolding setnxCommand_def
  using assms client_args_good [OF assms(2)]
  by (auto intro!: set_posts setGenericCommand_post)

lemma setexCommand_post:
  assumes "wf_redis s" and "client_args c" and "4 \<le> length (cl_argv c)"
  shows "command_post (setexCommand c s)" and "command_post (psetexCommand c s)"
  unfolding setexCommand_def psetexCommand_def
  using assms client_args_good [OF assms(2)]
  by (auto intro!: set_posts post_bind [OF arg_at_post] setGenericCommand_post)

lemma checkpointEndCommand_post:
  assumes "wf_redis s" and "client_args c" and "length (cl_argv c) = 3"
  shows "command_post (checkpointEndCommand c s)" and "command_post (benchmarkEndCommand c s)"
  unfolding checkpointEndCommand_def benchmarkEndCommand_def
  using assms client_args_good [OF assms(2)]
  by (auto intro!: set_posts setGenericCommandNoUpdate_post)

lemma obj_bytes_post:
  "good_obj v \<Longrightarrow> is_string_obj v \<Longrightarrow> post (obj_bytes v) (\<lambda>s. length s \<le> 512 * 1024 * 1024)"
  by (auto simp: obj_bytes_str good_obj_def is_string_obj_iff)

text \<open>The key of the command, if it exists, holds a string.\<close>

definition string_key :: "client \<Rightarrow> redis \<Rightarrow> bool" where
  "string_key c s \<longleftrightarrow> (\<forall>v. Option.bind (cl_key 1 c) (db_dict s) = Some v \<longrightarrow> is_string_obj v)"

lemma setCheckpointCommand_post:
  assumes "wf_redis s" and "client_args c" and "length (cl_argv c) = 3" and "string_key c s"
  shows "command_post (setCheckpointCommand c s)"
proof -
  have str: "post (lookupKeyRead key s) (\<lambda>(val, s'). wf_redis s' \<and>
       (case val of None \<Rightarrow> True | Some v \<Rightarrow> good_obj v \<and> is_string_obj v))"
    if k: "cl_key 1 c = Some key" "sized key" for key
  proof -
    obtain b s1 where s1: "expireIfNeeded key s = Some (b, s1)" "wf_redis s1"
      "db_dict s1 key = db_dict s key \<or> db_dict s1 key = None"
      using expireIfNeeded_ok [OF assms(1) k(2)] by metis
    have "is_string_obj v" if "db_dict s1 key = Some v" for v
      using that s1(3) assms(4) k by (auto simp: string_key_def)
    then show ?thesis
      using s1 by (auto simp: lookupKeyRead_def lookupKey_def Let_def split: option.splits dest: wf_redisD(2))
  qed
  obtain key where key: "cl_key 1 c = Some key" "small key"
    using cl_key_post [OF assms(2), of 1] assms(3) by (auto simp: post_def)
  have cstr: "length (cstr a) \<le> 536870912" if "length a \<le> 536870912" for a
    using length_cstr [of a] that by simp
  show ?thesis
    unfolding setCheckpointCommand_def using key assms(1-3) client_args_good [OF assms(2)]
    by (auto simp: Let_def intro!: post_bind [OF str] post_bind [OF obj_bytes_post] post_bind [OF arg_at_post]
        setGenericCommandNoUpdate_post good_args_update cstr split: option.splits)
qed

lemma addReplyBulk_post:
  assumes "is_string_obj v"
  shows "post (addReplyBulk v c) (\<lambda>c'. cl_argv c' = cl_argv c)"
  using assms by (auto simp: addReplyBulk_def is_string_obj_iff)

lemma getGenericCommand_post:
  assumes "wf_redis s" and "client_args c" and "2 \<le> length (cl_argv c)"
  shows "post (getGenericCommand c s) (\<lambda>(res, c', s'). wf_redis s' \<and> cl_argv c' = cl_argv c)"
  unfolding getGenericCommand_def
  using assms
  by (auto intro!: post_bind [OF cl_key_post] post_bind [OF lookupKeyRead_post] post_bind [OF addReplyBulk_post] split: option.splits)

lemma getCommand_post:
  assumes "wf_redis s" and "client_args c" and "2 \<le> length (cl_argv c)"
  shows "command_post (getCommand c s)"
  unfolding getCommand_def
  using client_args_good [OF assms(2)]
  by (intro post_map post_weaken [OF getGenericCommand_post [OF assms]]) auto

lemma getsetCommand_post:
  assumes "wf_redis s" and "client_args c" and "3 \<le> length (cl_argv c)"
  shows "command_post (getsetCommand c s)"
  unfolding getsetCommand_def
  using client_args_good [OF assms(2)] assms
  by (auto intro!: post_bind [OF getGenericCommand_post] set_posts post_bind [OF setKey_post] simp: client_args_def)

lemma mget_loop_post:
  assumes "wf_redis s" and "\<And>x. x \<in> set xs \<Longrightarrow> \<exists>k. obj_ptr x = Some k \<and> sized k"
  shows "post (mget_loop xs c s) (\<lambda>(c', s'). wf_redis s' \<and> cl_argv c' = cl_argv c)"
  using assms
proof (induction xs arbitrary: c s)
  case (Cons x xs)
  then obtain k where k: "obj_ptr x = Some k" "sized k" by force
  have IH: "wf_redis s' \<Longrightarrow> post (mget_loop xs c' s') (\<lambda>(c'', s''). wf_redis s'' \<and> cl_argv c'' = cl_argv c')" for c' s'
    using Cons by simp
  note IH' = IH [THEN post_weaken]
  from k Cons.prems(1) show ?case
    by (auto intro!: post_bind [OF lookupKeyRead_post] post_bind [OF addReplyBulk_post] IH' split: option.splits)
qed simp

lemma mgetCommand_post:
  assumes "wf_redis s" and "client_args c"
  shows "command_post (mgetCommand c s)"
proof -
  have "\<exists>k. obj_ptr x = Some k \<and> sized k" if "x \<in> set (drop 1 (cl_argv c))" for x
    using assms(2) that by (fastforce simp: client_args_def dest: in_set_dropD)
  then show ?thesis
    unfolding mgetCommand_def using client_args_good [OF assms(2)] assms(1)
    by (auto intro!: post_weaken [OF mget_loop_post])
qed

lemma stringObjectLen_post:
  "good_obj v \<Longrightarrow> is_string_obj v \<Longrightarrow> post (stringObjectLen v) (\<lambda>n. \<exists>s. obj_str v = Some s \<and> n = length s \<and> small s)"
  by (auto simp: stringObjectLen_str good_obj_def is_string_obj_iff)

lemma strlenCommand_post:
  assumes "wf_redis s" and "client_args c" and "2 \<le> length (cl_argv c)"
  shows "command_post (strlenCommand c s)"
  unfolding strlenCommand_def
  using assms client_args_good [OF assms(2)]
  by (auto intro!: post_bind [OF cl_key_post] post_bind [OF lookupKeyRead_post] post_bind [OF stringObjectLen_post]
      split: option.splits dest: wf_redisD)

lemma getrangeCommand_post:
  assumes "wf_redis s" and "client_args c" and "4 \<le> length (cl_argv c)"
  shows "command_post (getrangeCommand c s)"
  unfolding getrangeCommand_def
  using assms client_args_good [OF assms(2)]
  by (auto intro!: post_bind [OF arg_at_post] post_bind [OF getLongLongFromObjectOrReply_post]
      post_bind [OF cl_key_post] post_bind [OF lookupKeyRead_post] post_bind [OF obj_bytes_post]
      split: option.splits sum.splits prod.splits dest: wf_redisD)

lemma incrDecrCommand_post:
  assumes "wf_redis s" and "client_args c" and "2 \<le> length (cl_argv c)"
  shows "command_post (incrDecrCommand incr c s)"
  unfolding incrDecrCommand_def
  using assms client_args_good [OF assms(2)]
  by (auto intro!: post_bind [OF cl_key_post] post_bind [OF lookupKeyWrite_post] post_bind [OF getLongLongFromObjectOrReply_post]
      wf_redis_put
      split: option.splits sum.splits simp: dbOverwrite_def dbAdd_def Let_def)

lemma incrbyCommand_post:
  assumes "wf_redis s" and "client_args c" and "3 \<le> length (cl_argv c)"
  shows "command_post (incrbyCommand c s)" and "command_post (decrbyCommand c s)"
  unfolding incrbyCommand_def decrbyCommand_def
  using assms client_args_good [OF assms(2)]
  by (auto intro!: post_bind [OF arg_at_post] post_bind [OF getLongLongFromObjectOrReply_post] incrDecrCommand_post
      split: sum.splits)

lemma wf_redis_delete:
  "wf_redis s \<Longrightarrow> wf_redis (s\<lparr>db_expires := (db_expires s)(k := None), db_dict := (db_dict s)(k := None)\<rparr>)"
  by (auto simp: wf_redis_def)

lemma del_loop_post:
  assumes "wf_redis s" and "\<And>x. x \<in> set xs \<Longrightarrow> \<exists>k. obj_ptr x = Some k \<and> sized k"
  shows "post (del_loop lazy xs n s) (\<lambda>(m, s'). wf_redis s')"
  using assms
proof (induction xs arbitrary: n s)
  case (Cons x xs)
  then obtain k where k: "obj_ptr x = Some k" "sized k" by force
  have IH: "wf_redis s' \<Longrightarrow> post (del_loop lazy xs m s') (\<lambda>(m, s'). wf_redis s')" for m s'
    using Cons by simp
  from k Cons.prems(1) show ?case
    by (auto intro!: post_bind [OF expireIfNeeded_post] IH simp: dbDelete_same dbSyncDelete_def Let_def wf_redis_delete)
qed simp

lemma delGenericCommand_post:
  assumes "wf_redis s" and "client_args c"
  shows "command_post (delGenericCommand lazy c s)"
proof -
  have "\<exists>k. obj_ptr x = Some k \<and> sized k" if "x \<in> set (drop 1 (cl_argv c))" for x
    using assms(2) that by (fastforce simp: client_args_def dest: in_set_dropD)
  then show ?thesis
    unfolding delGenericCommand_def using client_args_good [OF assms(2)] assms(1)
    by (auto intro!: post_bind [OF del_loop_post])
qed

lemma put_string_wf: "wf_redis s \<Longrightarrow> small v \<Longrightarrow> wf_redis (put_string key v s)"
  by (auto simp: put_string_def intro!: wf_redis_put)

lemma checkStringLength_ok: "checkStringLength n = C_OK \<longleftrightarrow> n \<le> 512 * 1024 * 1024"
  by (simp add: checkStringLength_def)

lemma to_int64_small: "0 \<le> n \<Longrightarrow> n < 2 ^ 63 \<Longrightarrow> to_int64 n = n"
  by (simp add: in_int64_def)

lemma appendCommand_post:
  assumes "wf_redis s" and "client_args c" and "3 \<le> length (cl_argv c)"
  shows "command_post (appendCommand c s)"
  unfolding appendCommand_def
  using assms client_args_good [OF assms(2)]
  by (auto intro!: post_bind [OF cl_key_post] post_bind [OF lookupKeyWrite_post] post_bind [OF encode_arg_post]
      post_bind [OF stringObjectLen_post] post_bind [OF dbUnshareStringValue_post] put_string_wf wf_redis_put
      split: option.splits if_splits
      simp: dbAdd_def checkStringLength_ok to_int64_small Let_def sdscatlen_def)

lemma setrange_write_post:
  assumes "wf_redis s" and "small old" and "int offset + int (length value) \<le> 512 * 1024 * 1024" and "good_args (cl_argv c)"
  shows "command_post (setrange_write key old offset value c s)"
  using assms by (auto simp: setrange_write_def Let_def intro!: put_string_wf)

text \<open>The offset plus the length fits into a \<^verbatim>\<open>long long\<close>.\<close>

definition setrange_fits :: "client \<Rightarrow> bool" where
  "setrange_fits c \<longleftrightarrow> (\<forall>x offset. arg_at 2 (cl_argv c) = Some x \<longrightarrow>
     getLongFromObjectOrReply (Some x) = Some (Inr offset) \<longrightarrow> offset + 512 * 1024 * 1024 < 2 ^ 63)"

lemma getLongFromObjectOrReply_post:
  assumes "wf_robj x" and "is_string_obj x"
  shows "post (getLongFromObjectOrReply (Some x)) (\<lambda>r. case r of Inl e \<Rightarrow> True | Inr v \<Rightarrow> in_int64 v)"
  unfolding getLongFromObjectOrReply_def
  by (rule post_bind [OF getLongLongFromObjectOrReply_post]) (use assms in \<open>auto split: sum.splits\<close>)

lemma setrangeCommand_post:
  assumes "wf_redis s" and "client_args c" and "4 \<le> length (cl_argv c)" and "setrange_fits c"
  shows "command_post (setrangeCommand c s)"
proof -
  have good: "good_args (cl_argv c)" using client_args_good [OF assms(2)] .
  obtain v0 key where args: "cl_key 3 c = Some v0" "small v0" "cl_key 1 c = Some key" "small key"
    using cl_key_post [OF assms(2), of 3] cl_key_post [OF assms(2), of 1] assms(3) by (auto simp: post_def)
  obtain x where x: "arg_at 2 (cl_argv c) = Some x" "wf_robj x" "is_string_obj x"
    using arg_at_post [OF good, of 2] assms(3) by (auto simp: post_def)
  obtain r where r: "getLongFromObjectOrReply (Some x) = Some r"
    using getLongFromObjectOrReply_post [OF x(2,3)] by (auto simp: post_def)
  show ?thesis
  proof (cases r)
    case (Inl e)
    then show ?thesis using args x r good assms(1) by (simp add: setrangeCommand_def)
  next
    case (Inr offset)
    have "offset + 512 * 1024 * 1024 < 2 ^ 63"
      using assms(4) x(1) r Inr by (simp add: setrange_fits_def)
    show ?thesis
    proof (cases "offset < 0")
      case True
      then show ?thesis using args x r Inr good assms(1) by (simp add: setrangeCommand_def)
    next
      case False
      then obtain n where n: "offset = int n"
        by (metis nonneg_int_cases not_less)
      with \<open>offset + 512 * 1024 * 1024 < 2 ^ 63\<close>
      have fits: "to_int64 (int n + int (length v0)) = int n + int (length v0)"
        using args(2) by (simp add: to_int64_small)
      have size: "int n + int (length v0) \<le> 536870912 \<longleftrightarrow> n + length v0 \<le> 536870912"
        by linarith
      show ?thesis
        unfolding setrangeCommand_def using args x r Inr good assms(1) n
        by (auto intro!: post_bind [OF lookupKeyWrite_post] post_bind [OF stringObjectLen_post]
            post_bind [OF dbUnshareStringValue_post] setrange_write_post wf_redis_put
            split: option.splits simp: fits checkStringLength_ok sdsnewlen_zero_def dbAdd_def size)
    qed
  qed
qed

lemma expireGenericCommand_post:
  assumes "wf_redis s" and "client_args c" and "3 \<le> length (cl_argv c)"
  shows "command_post (expireGenericCommand basetime unit c s)"
proof -
  have good: "good_args (cl_argv c)" using client_args_good [OF assms(2)] .
  obtain k key where k: "arg_at 1 (cl_argv c) = Some k" "obj_ptr k = Some key" "small key" "good_obj k" "is_string_obj k"
    using cl_key_post [OF assms(2), of 1] arg_at_post [OF good, of 1] assms(3) by (auto simp: post_def cl_key_def)
  have "good_args [createStringObject ''UNLINK'', k]" "good_args [createStringObject ''DEL'', k]"
    using k by (simp_all add: good_args_def good_obj_def)
  then show ?thesis
    unfolding expireGenericCommand_def using k assms good
    by (auto intro!: post_bind [OF arg_at_post] post_bind [OF getLongLongFromObjectOrReply_post]
        post_bind [OF lookupKeyWrite_post] post_bind [OF setExpire_post]
        split: sum.splits simp: Let_def dbDelete_same dbSyncDelete_def wf_redis_delete)
qed

lemma mset_nx_post:
  assumes "wf_redis s" and "\<And>x. x \<in> set xs \<Longrightarrow> \<exists>k. obj_ptr x = Some k \<and> sized k"
  shows "post (mset_nx xs s) (\<lambda>(m, s'). wf_redis s')"
  using assms
proof (induction xs s rule: mset_nx.induct)
  case (1 k v rst s)
  then obtain key where key: "obj_ptr k = Some key" "sized key" by force
  have IH: "wf_redis s' \<Longrightarrow> post (mset_nx rst s') (\<lambda>(m, s'). wf_redis s')" if "lookupKeyWrite key s = Some (None, s')" for s'
    using 1 key that by auto
  obtain val s' where "lookupKeyWrite key s = Some (val, s')" "wf_redis s'"
    using lookupKeyWrite_post [OF "1.prems"(1) key(2)] by (auto simp: post_def)
  with key IH show ?case by auto
qed simp_all

lemma mset_loop_post:
  assumes "wf_redis s" and "good_args (cl_argv c)" and "j + 2 * left \<le> length (cl_argv c)"
    and "\<And>i. j \<le> i \<Longrightarrow> i < length (cl_argv c) \<Longrightarrow> \<exists>k. obj_ptr (cl_argv c ! i) = Some k \<and> small k"
  shows "command_post (mset_loop j left c s)"
  using assms
proof (induction left arbitrary: j c s)
  case (Suc left)
  let ?c = "\<lambda>val. c\<lparr>cl_argv := (cl_argv c)[Suc j := val]\<rparr>"
  obtain val c' where e: "encode_arg (j + 1) c = Some (val, c')" "good_obj val" "good_args (cl_argv c')" "c' = ?c val"
    using encode_arg_post [OF Suc.prems(2), of "j + 1"] Suc.prems(3)
    by (auto simp: post_def encode_arg_def split: bind_splits)
  obtain key where key: "obj_ptr (cl_argv c ! j) = Some key" "small key"
    using Suc.prems(3,4) by force
  have cl: "cl_key j c' = Some key"
    using e(4) key Suc.prems(3) by (simp add: cl_key_def arg_at_def)
  have IH: "command_post (mset_loop (j + 2) left c' s')" if "wf_redis s'" for s'
    by (rule Suc.IH) (use that e Suc.prems(3,4) in auto)
  from e(1) cl key Suc.prems(1) e(2) show ?case
    by (auto intro!: post_bind [OF setKey_post] IH simp: IH [simplified])
qed simp

lemma msetGenericCommand_post:
  assumes "wf_redis s" and "client_args c"
  shows "command_post (msetGenericCommand nx c s)"
proof -
  let ?n = "(length (cl_argv c) - 1) div 2"
  have good: "good_args (cl_argv c)" using client_args_good [OF assms(2)] .
  have ptr: "\<exists>k. obj_ptr x = Some k \<and> small k" if "x \<in> set (cl_argv c)" for x
    using assms(2) that by (auto simp: client_args_def)
  have nx: "post (if nx then mset_nx (drop 1 (cl_argv c)) s else Some (False, s)) (\<lambda>(m, s'). wf_redis s')"
    using mset_nx_post [OF assms(1), of "drop 1 (cl_argv c)"] ptr assms(1) by (fastforce dest: in_set_dropD)
  have loop: "command_post (mset_loop 1 ?n c s')" if "length (cl_argv c) mod 2 \<noteq> 0" "wf_redis s'" for s'
  proof (rule mset_loop_post)
    show "1 + 2 * ?n \<le> length (cl_argv c)"
      using that(1) by presburger
  qed (use that good ptr in auto)
  show ?thesis
  proof (cases "length (cl_argv c) mod 2 = 0")
    case True
    then show ?thesis using good assms(1) by (simp add: msetGenericCommand_def)
  next
    case False
    then show ?thesis
      unfolding msetGenericCommand_def Let_def if_not_P [OF False]
      by (intro post_bind [OF nx]) (auto intro!: post_bind [OF loop] simp: good simp del: One_nat_def)
  qed
qed

text \<open>The arity of a command of the table.\<close>

fun cmd_arity :: "cmd_proc \<Rightarrow> int" where
  "cmd_arity cmd = (case List.find (\<lambda>(_, p, _). p = cmd) redisCommandTable of Some (_, _, a) \<Rightarrow> a | None \<Rightarrow> 0)"

definition modelled :: "cmd_proc \<Rightarrow> bool" where
  "modelled cmd \<longleftrightarrow> cmd \<noteq> SelectCommand \<and> (\<forall>name. cmd \<noteq> OtherCommand name)"

lemma cmd_run_post:
  assumes "wf_redis s" and "client_args c" and "arity_ok (cmd_arity cmd) (length (cl_argv c))" and "modelled cmd"
    and "cmd = SetrangeCommand \<longrightarrow> setrange_fits c"
    and "cmd = SetCheckpointCommand \<longrightarrow> string_key c s"
  shows "command_post (cmd_run oth cmd c s)"
proof -
  note simps = arity_ok_def redisCommandTable_def modelled_def
  note facts = assms(1,2)
  show ?thesis
    using assms(3-6)
    by (cases cmd)
      (simp_all add: simps setCommand_post setnxCommand_post setexCommand_post getCommand_post getsetCommand_post
        setrangeCommand_post getrangeCommand_post mgetCommand_post msetCommand_def msetnxCommand_def msetGenericCommand_post
        incrCommand_def decrCommand_def incrDecrCommand_post incrbyCommand_post appendCommand_post strlenCommand_post
        delCommand_def unlinkCommand_def delGenericCommand_post expireCommand_def pexpireCommand_def expireatCommand_def
        pexpireatCommand_def expireGenericCommand_post setIRCommand_post setCheckpointCommand_post
        checkpointEndCommand_post facts split: if_splits)
qed

section \<open>What the commands do\<close>

text \<open>The arguments of a client.\<close>

definition has_args :: "client \<Rightarrow> string list \<Rightarrow> bool" where
  "has_args c ss \<longleftrightarrow> list_all2 (\<lambda>x s. wf_robj x \<and> obj_ptr x = Some s) (cl_argv c) ss"

lemma has_args_length: "has_args c ss \<Longrightarrow> length (cl_argv c) = length ss"
  by (auto simp: has_args_def dest: list_all2_lengthD)

lemma has_args_nth:
  assumes "has_args c ss" and "i < length ss"
  shows "\<exists>x. arg_at i (cl_argv c) = Some x \<and> wf_robj x \<and> obj_ptr x = Some (ss ! i) \<and> obj_str x = Some (ss ! i)"
  using assms list_all2_nthD2 [of _ "cl_argv c" ss i] obj_ptr_str has_args_length [OF assms(1)]
  by (auto simp: has_args_def arg_at_def)

lemma cl_key_nth: "has_args c ss \<Longrightarrow> i < length ss \<Longrightarrow> cl_key i c = Some (ss ! i)"
  using has_args_nth [of c ss i] by (auto simp: cl_key_def)

lemma encode_arg_nth:
  assumes "has_args c ss" and "i < length ss"
  shows "encode_arg i c = Some (encoded (ss ! i), c\<lparr>cl_argv := (cl_argv c)[i := encoded (ss ! i)]\<rparr>)"
proof -
  obtain x where "arg_at i (cl_argv c) = Some x" "wf_robj x" "obj_str x = Some (ss ! i)"
    using has_args_nth [OF assms] by blast
  then show ?thesis
    using tryObjectEncoding_encoded [of x "ss ! i"] by (simp add: encode_arg_def)
qed

lemma expire_milliseconds_none [simp]: "expire_milliseconds name None unit = Some (Inr 0)"
  by (simp add: expire_milliseconds_def)

abbreviation with_arg :: "nat \<Rightarrow> robj \<Rightarrow> client \<Rightarrow> client" where
  "with_arg i x c \<equiv> c\<lparr>cl_argv := (cl_argv c)[i := x]\<rparr>"

lemma set_eq:
  assumes "has_args c [cmd, key, val]" 
  shows "setCommand c s = 
     do { s \<leftarrow> setKey key (encoded val) s;
          Some (addReply R_ok (with_arg 2 (encoded val) c), s\<lparr>sv_dirty := sv_dirty s + 1\<rparr>) }"
  using cl_key_nth [OF assms, of 1] encode_arg_nth [OF assms, of 2] has_args_length [OF assms]
  by (simp add: setCommand_def setGenericCommand_def set_aborts_def Let_def) (simp add: OBJ_SET_NO_FLAGS_def)

lemma setIR_eq:
  assumes "has_args c [cmd, key, val]" and "db_expires s key = None"
  shows "setIRCommand c s =
     Some (if db_dict s key = None
           then (addReply R_ok (with_arg 2 (encoded val) c),
                 s\<lparr>db_dict := (db_dict s)(key \<mapsto> encoded val), sv_dirty := sv_dirty s + 1\<rparr>)
           else (addReply R_nullbulk (with_arg 2 (encoded val) c), s))"
  using cl_key_nth [OF assms(1), of 1] encode_arg_nth [OF assms(1), of 2] has_args_length [OF assms(1)] assms(2)
  by (simp add: setIRCommand_def setGenericCommand_def set_aborts_def Let_def) (simp add: OBJ_SET_NO_FLAGS_def)

lemma get_eq:
  assumes "has_args c [cmd, key]"
  shows "getCommand c s = 
     do { (val, s) \<leftarrow> lookupKeyRead key s;
          case val of None \<Rightarrow> Some (addReply R_nullbulk c, s)
          | Some x \<Rightarrow> Some (addReply (case obj_str x of None \<Rightarrow> R_wrongtypeerr | Some v \<Rightarrow> R_bulk v) c, s) }"
  using cl_key_nth [OF assms(1), of 1]
  by (simp add: getCommand_def getGenericCommand_def addReplyBulk_def is_string_obj_iff split: option.splits bind_splits)

text \<open>The integer a value stands for; a missing key counts as 0.\<close>

definition int_value :: "robj option \<Rightarrow> int option" where
  "int_value val = (case val of None \<Rightarrow> Some 0 | Some x \<Rightarrow> Option.bind (obj_str x) string2ll)"

definition overflow_error :: reply where
  "overflow_error = R_error ''increment or decrement would overflow''"

definition integer_error :: reply where
  "integer_error = R_error ''value is not an integer or out of range''"

lemma getLongLong_int_value:
  assumes "case val of None \<Rightarrow> True | Some x \<Rightarrow> wf_robj x \<and> is_string_obj x"
  shows "getLongLongFromObjectOrReply val = Some (case int_value val of None \<Rightarrow> Inl integer_error | Some v \<Rightarrow> Inr v)"
proof (cases val)
  case None
  then show ?thesis by (simp add: getLongLongFromObjectOrReply_def int_value_def)
next
  case (Some x)
  then obtain v where v: "obj_str x = Some v" "wf_robj x"
    using assms by (auto simp: is_string_obj_iff)
  show ?thesis
    unfolding Some getLongLongFromObjectOrReply_def getLongLongFromObject_str [OF v(2,1)]
    using v by (simp add: int_value_def integer_error_def split: option.splits)
qed

lemma int_value_range: "int_value val = Some v \<Longrightarrow> in_int64 v"
  by (auto simp: int_value_def split: option.splits bind_splits dest: string2ll_SomeD) (simp add: in_int64_def)

lemma incr_overflow_iff:
  assumes "in_int64 old" and "in_int64 incr"
  shows "((incr < 0 \<and> old < 0 \<and> incr < LLONG_MIN - old) \<or> (incr > 0 \<and> old > 0 \<and> incr > LLONG_MAX - old))
           \<longleftrightarrow> \<not> in_int64 (old + incr)"
  using assms by (auto simp: in_int64_def)

lemma incrDecr_eq:
  assumes "cl_key 1 c = Some key" and "wf_redis s" and "in_int64 incr"
    and "lookupKeyWrite key s = Some (val, s1)" and "wf_redis s1" and "val = db_dict s1 key"
  shows "incrDecrCommand incr c s =
     Some (if \<exists>x. val = Some x \<and> obj_str x = None then (addReply R_wrongtypeerr c, s1)
           else (case int_value val of
                   None \<Rightarrow> (addReply integer_error c, s1)
                 | Some old \<Rightarrow>
                     if in_int64 (old + incr)
                     then (addReply (R_longlong (old + incr)) c,
                           s1\<lparr>db_dict := (db_dict s1)(key \<mapsto> IntEnc (old + incr)), sv_dirty := sv_dirty s1 + 1\<rparr>)
                     else (addReply overflow_error c, s1)))"
proof (cases "\<exists>x. val = Some x \<and> obj_str x = None")
  case True
  then show ?thesis
    using assms(1,4) by (auto simp: incrDecrCommand_def is_string_obj_iff)
next
  case False
  then have str: "case val of None \<Rightarrow> True | Some x \<Rightarrow> wf_robj x \<and> is_string_obj x"
    using wf_redisD(3) [OF assms(5)] assms(6) by (auto simp: is_string_obj_iff split: option.splits)
  then have nw: "\<not> (case val of None \<Rightarrow> False | Some v \<Rightarrow> \<not> is_string_obj v)"
    by (simp split: option.splits)
  show ?thesis
  proof (cases "int_value val")
    case None
    then show ?thesis
      unfolding if_not_P [OF False]
      using assms(1,4) nw getLongLong_int_value [OF str] by (simp add: incrDecrCommand_def)
  next
    case (Some old)
    note ov = incr_overflow_iff [OF int_value_range [OF Some] assms(3)]
    show ?thesis
      unfolding if_not_P [OF False]
      using assms(1,4,6) nw getLongLong_int_value [OF str] Some
      by (simp add: incrDecrCommand_def ov) (simp add: overflow_error_def dbOverwrite_def dbAdd_def Let_def)
  qed
qed

lemma incr_eq:
  assumes "has_args c [cmd, key]" and "wf_redis s" and "db_expires s key = None"
  shows "incrCommand c s =
     Some (if \<exists>x. db_dict s key = Some x \<and> obj_str x = None then (addReply R_wrongtypeerr c, s)
           else (case int_value (db_dict s key) of
                   None \<Rightarrow> (addReply integer_error c, s)
                 | Some old \<Rightarrow>
                     if in_int64 (old + 1)
                     then (addReply (R_longlong (old + 1)) c,
                           s\<lparr>db_dict := (db_dict s)(key \<mapsto> IntEnc (old + 1)), sv_dirty := sv_dirty s + 1\<rparr>)
                     else (addReply overflow_error c, s)))"
  unfolding incrCommand_def
  by (rule incrDecr_eq) (use assms cl_key_nth [OF assms(1), of 1] in \<open>simp_all add: in_int64_def\<close>)

lemma del_eq:
  assumes "has_args c [cmd, key]" and "db_expires s key = None"
  shows "delCommand c s =
     Some (addReply (R_longlong (if db_dict s key = None then 0 else 1)) c,
           s\<lparr>db_dict := (db_dict s)(key := None), sv_dirty := sv_dirty s + (if db_dict s key = None then 0 else 1)\<rparr>)"
proof -
  obtain x y where c: "cl_argv c = [x, y]" "obj_ptr y = Some key"
    using assms(1) by (auto simp: has_args_def list_all2_Cons2)
  have "(db_expires s)(key := None) = db_expires s"
    using assms(2) by (simp add: fun_upd_idem)
  then show ?thesis
    using c assms(2) by (simp add: delCommand_def delGenericCommand_def dbSyncDelete_def)
qed

section \<open>Correctness of the commands\<close>


definition test_redis :: redis where
  "test_redis = \<lparr>db_dict = \<lambda>_. None, db_expires = \<lambda>_. None, db_id = 0, sv_dbnum = 16, sv_cluster_enabled = False,
     sv_dirty = 0, sv_clock = 1000, sv_mstime = 1000,
     sv_fixed_time_expire = 0, sv_loading = False, sv_masterhost = False, sv_reader = False,
     sv_lazyfree_lazy_expire = False, stat_keyspace_hits = 0, stat_keyspace_misses = 0, stat_expiredkeys = 0,
     sv_aof_state = AOF_ON, sv_aof_selected_db = -1, sv_aof_buf = []\<rparr>"

definition test_client :: "cmd_proc \<Rightarrow> string list \<Rightarrow> client" where
  "test_client cmd ss = \<lparr>cl_argv = map createStringObject ss, cl_cmd = cmd, cl_cmd_name = [], cl_fake = False, cl_reply = []\<rparr>"

lemma wf_test_redis [simp]: "wf_redis test_redis"
  by (simp add: wf_redis_def test_redis_def)

lemma test_client_args: "(\<And>s. s \<in> set ss \<Longrightarrow> small s) \<Longrightarrow> client_args (test_client cmd ss)"
  by (auto simp: client_args_def test_client_def)

lemma test_client_simps [simp]:
  "length (cl_argv (test_client cmd ss)) = length ss"
  "\<not> cl_fake (test_client cmd ss)"
  by (simp_all add: test_client_def)

lemma test_redis_simps [simp]:
  "db_dict test_redis = (\<lambda>_. None)" "db_expires test_redis = (\<lambda>_. None)" "sv_dirty test_redis = 0"
  by (simp_all add: test_redis_def)

lemma has_args_test_client [simp]: "has_args (test_client cmd ss) ss"
  by (simp add: has_args_def test_client_def list_all2_map1 list_all2_same)


text \<open>(C16) What \<^verbatim>\<open>SET\<close> stores, \<^verbatim>\<open>GET\<close> returns, whatever the key space held and whether or not an old
  value of the key has expired; the other keys keep their values.\<close>

theorem set_get_roundtrip:
  assumes "wf_redis s" and "small key" and "small val"
    and "has_args c1 [cmda, key, val]" and "has_args c2 [cmdb, key]" and "\<not> cl_fake c2"
  shows "\<exists>c1' s1 c2' s2. setCommand c1 s = Some (c1', s1) \<and> getCommand c2 s1 = Some (c2', s2) \<and>
           cl_reply c2' = cl_reply c2 @ [R_bulk val] \<and> (\<forall>k. k \<noteq> key \<longrightarrow> db_dict s2 k = db_dict s k)"
proof -
  obtain b s' where e: "expireIfNeeded key s = Some (b, s')" "\<And>k. k \<noteq> key \<Longrightarrow> db_dict s' k = db_dict s k"
    using assms(2) by (auto intro: expireIfNeeded_ok [OF assms(1), of key])
  let ?s1 = "s'\<lparr>db_dict := (db_dict s')(key \<mapsto> encoded val), db_expires := (db_expires s')(key := None)\<rparr>"
  have "setKey key (encoded val) s = Some ?s1"
    using e(1) by (simp add: setKey_def lookupKeyWrite_def lookupKey_def dbAdd_def dbOverwrite_def removeExpire_def)
  then show ?thesis
    using assms(6) e(2) by (simp add: set_eq [OF assms(4)] get_eq [OF assms(5)] lookupKeyRead_persistent addReply_def)
qed

theorem set_get_roundtrip_witness:
  "\<exists>c1' s1 c2' s2. setCommand (test_client SetCommand [''SET'', ''k'', ''12'']) test_redis = Some (c1', s1) \<and>
     getCommand (test_client GetCommand [''GET'', ''k'']) s1 = Some (c2', s2) \<and>
     cl_reply c2' = cl_reply (test_client GetCommand [''GET'', ''k'']) @ [R_bulk ''12''] \<and>
     (\<forall>k. k \<noteq> ''k'' \<longrightarrow> db_dict s2 k = db_dict test_redis k)"
  by (rule set_get_roundtrip [where cmda = "''SET''" and cmdb = "''GET''"]) simp_all







end
