(* ===== verification/Restorer.thy ===== *)
theory Restorer
  imports String_Command_Laws Indexing_Correctness
begin

text \<open>
  The state of the server that the instant recovery works on, the hash of the restored keys, and
  the recovery of one key on demand (\<open>loadRecordFromIndexedLog\<close> of
  \<^verbatim>\<open>src/src/instant_recovery.c\<close>), which a command on a key that is not yet in memory runs first.
  A hash is the list of its entries in the order of their insertion, which is the order
  \<^verbatim>\<open>uthash\<close> iterates in.  \<^term>\<open>None\<close> is the end of the process, a loop over a cursor that never
  ends, or undefined behaviour; \<^verbatim>\<open>sprintf\<close> into the sds \<^verbatim>\<open>valueIR\<close>, which does not grow, is taken to
  fit into the space the allocator gives.

  The main lemma: over any Berkeley DB, the key gets exactly the value its log records stand for,
  unless it is in memory already, and it is marked as restored.
\<close>

section \<open>State\<close>

record commandExecuted =
  ce_key :: string
  ce_command :: string
  ce_startTime :: int
  ce_finishTime :: int
  ce_latency :: int
  ce_type :: char

record 'db ir_server =
  sv_redis :: redis
  instant_recovery_state :: bool
  instant_recovery_performing :: bool
  instant_recovery_performing_stop :: bool
  instant_recovery_synchronous :: bool
  starts_log_indexing :: string
  indexer_threads :: nat
  hash_restored_tuples :: "string list"
  hash_keys_access :: "(string \<times> nat) list"
  accessed_tuples_logger_state :: bool
  generate_executed_commands_csv :: bool
  cmd_executed_List :: "commandExecuted list"
  count_tuples_not_in_log :: nat
  count_tuples_loaded_ondemand :: nat
  count_tuples_already_loaded :: nat
  count_tuples_loaded_incr :: nat
  count_inconsistent_load_incr :: nat
  stat_numcommands :: nat
  ir_cfg :: ix_config
  ir_disk :: "'db disk"

section \<open>The hash of the restored keys\<close>

definition addRestoredTuple :: "string \<Rightarrow> 'db ir_server \<Rightarrow> 'db ir_server" where
  "addRestoredTuple key s = s\<lparr>hash_restored_tuples := hash_restored_tuples s @ [cstr key]\<rparr>"

definition isRestoredTuple :: "string \<Rightarrow> 'db ir_server \<Rightarrow> bool" where
  "isRestoredTuple key s \<longleftrightarrow> cstr key \<in> set (hash_restored_tuples s)"

definition clearHashRestoredTuples :: "'db ir_server \<Rightarrow> 'db ir_server" where
  "clearHashRestoredTuples s = s\<lparr>hash_restored_tuples := []\<rparr>"

definition printRestoredTuples :: "'db ir_server \<Rightarrow> string" where
  "printRestoredTuples s =
     ''Keys of restored tuples = '' @ concat (map (\<lambda>k. k @ '', '') (hash_restored_tuples s)) @ [LF]"

definition countRestoredRecords :: "'db ir_server \<Rightarrow> nat" where
  "countRestoredRecords s = length (hash_restored_tuples s)"

section \<open>Recovery of one key\<close>

text \<open>The loop over the log records of the key, from the one that holds \<open>data\<close>.\<close>

partial_function (option) load_dups :: "('db, 'c) bdb \<Rightarrow> 'db \<Rightarrow> 'c \<Rightarrow> string \<Rightarrow> string \<times> string \<Rightarrow> (string \<times> string) option" where
  "load_dups B dbp cursorp data cv =
     (case replay_record data cv of
        None \<Rightarrow> None
      | Some cv \<Rightarrow>
          (case bdb_cget B dbp cursorp DB_NEXT_DUP of
             None \<Rightarrow> Some cv
           | Some ((_, data), cursorp) \<Rightarrow> load_dups B dbp cursorp data cv))"

text \<open>The lines \<^verbatim>\<open>*3\<close>, \<^verbatim>\<open>$5\<close>, \<^verbatim>\<open>SETIR\<close>, and so on, read back as the arguments of the fake client.\<close>

definition restore_argv :: "string \<Rightarrow> string \<Rightarrow> robj list" where
  "restore_argv key_searched valueIR =
     [RawStr ''SETIR'', RawStr (cstr key_searched), RawStr (cstr valueIR)]"

definition fake_client :: "cmd_proc \<Rightarrow> string \<Rightarrow> robj list \<Rightarrow> client" where
  "fake_client cmd name argv =
     \<lparr>cl_argv = argv, cl_cmd = cmd, cl_cmd_name = name, cl_fake = True, cl_reply = []\<rparr>"

text \<open>What the server needs besides: Berkeley DB, an empty database, the commands outside the model
  and their entries of the command table.\<close>

record ('db, 'c) env =
  en_bdb :: "('db, 'c) bdb"
  en_empty :: 'db
  en_other :: "string \<Rightarrow> command"
  en_table :: "(string \<times> cmd_proc \<times> int) list"

definition loadRecordFromIndexedLog :: "('db, 'c) env \<Rightarrow> string \<Rightarrow> 'db ir_server \<Rightarrow> (int \<times> 'db ir_server) option" where
  "loadRecordFromIndexedLog E key_searched s =
     do {
       (opened, dk) \<leftarrow> openIndexedLog (en_empty E) (indexedlog_filename (ir_cfg s)) (CHR ''W'') (ir_disk s);
       let s = s\<lparr>ir_disk := dk\<rparr>;
       case opened of
         None \<Rightarrow> Some (0, s)
       | Some dbp \<Rightarrow>
           (case bdb_cget (en_bdb E) dbp (bdb_cursor (en_bdb E) dbp) (DB_SET (dbt key_searched)) of
              None \<Rightarrow>
                Some (0, (addRestoredTuple key_searched s)\<lparr>count_tuples_not_in_log := count_tuples_not_in_log s + 1\<rparr>)
            | Some ((_, data), cursorp) \<Rightarrow>
                do {
                  (commandIR, valueIR) \<leftarrow> load_dups (en_bdb E) dbp cursorp data ([], ''0'');
                  (name, cmd, _) \<leftarrow> lookupCommand (en_table E) ''SETIR'';
                  (c, r) \<leftarrow> cmd_run (en_other E) cmd (fake_client cmd name (restore_argv key_searched valueIR)) (sv_redis s);
                  if cl_reply c \<noteq> [] then None
                  else Some (1, (addRestoredTuple key_searched s)
                        \<lparr>sv_redis := r, count_tuples_loaded_ondemand := count_tuples_loaded_ondemand s + 1\<rparr>)
                })
     }"

section \<open>The value of the log records\<close>

lemma replay_record_cstr [simp]: "replay_record (cstr d) cv = replay_record d cv"
  by (simp add: replay_record_def sdsnew_def)

lemma replay_records_cstr [simp]: "replay_records (map cstr ds) cv = replay_records ds cv"
proof (induction ds arbitrary: cv)
  case (Cons d ds)
  then have "replay_records (map cstr ds) = replay_records ds" by blast
  then show ?case by simp
qed simp

lemma lower_SETIR:
  "map c_tolower ''SETIR'' = ''setir''" "map c_tolower ''setIR'' = ''setir''"
  "map c_tolower ''get'' = ''get''" "map c_tolower ''set'' = ''set''"
  by (simp_all add: c_tolower_def char_of_def bit_0)

lemma lookup_SETIR:
  "lookupCommand tab ''SETIR'' = Some (''setIR'', SetIRCommand, -3)"
  "lookupCommand tab ''setIR'' = Some (''setIR'', SetIRCommand, -3)"
  unfolding lookupCommand_def redisCommandTable_def append_Cons find.simps case_prod_conv lower_SETIR
  by simp_all

context berkeley_db
begin

lemma load_dups_rest:
  assumes "cur c = Some k"
  shows "load_dups B db c d cv =
           replay_records (d # map snd (takeWhile (\<lambda>p. fst p = k) (rest db c))) cv"
  using assms
proof (induction "rest db c" arbitrary: c d cv)
  case Nil
  then have "bdb_cget B db c DB_NEXT_DUP = None"
    using cget_none [of db c DB_NEXT_DUP] by simp
  with Nil show ?case by (subst load_dups.simps) (auto split: option.splits)
next
  case (Cons p r)
  note r = Cons.hyps(2) [symmetric]
  show ?case
  proof (cases "fst p = k")
    case True
    then obtain c' where c': "bdb_cget B db c DB_NEXT_DUP = Some (p, c')" "rest db c' = r" "cur c' = Some (fst p)"
      using cgetE [of c db DB_NEXT_DUP p r] r Cons.prems by auto
    have "load_dups B db c' (snd p) cv' = replay_records (snd p # map snd (takeWhile (\<lambda>p. fst p = k) (rest db c'))) cv'" for cv'
      using Cons.hyps(1) [of c' "snd p" cv'] c' True by simp
    with c' True show ?thesis
      by (subst load_dups.simps) (auto simp: r split: option.splits prod.splits)
  next
    case False
    then have "bdb_cget B db c DB_NEXT_DUP = None"
      using cget_none [of db c DB_NEXT_DUP] r Cons.prems by auto
    with False show ?thesis
      by (subst load_dups.simps) (auto simp: r split: option.splits)
  qed
qed

lemma set_cursor:
  "(case bdb_cget B db c (DB_SET key) of None \<Rightarrow> None | Some ((_, d), c') \<Rightarrow> load_dups B db c' d cv) =
     (if dups key (recs db) = [] then None else replay_records (dups key (recs db)) cv)"
proof (cases "dropWhile (\<lambda>p. fst p \<noteq> key) (recs db)")
  case Nil
  then have "bdb_cget B db c (DB_SET key) = None"
    using cget_none [of db c "DB_SET key"] by (simp only: cursor_next.simps list.case)
  moreover have "dups key (recs db) = []"
    using Nil by (auto simp: dups_eq_Nil dropWhile_eq_Nil_conv)
  ultimately show ?thesis by simp
next
  case (Cons p r)
  then obtain c' where c': "bdb_cget B db c (DB_SET key) = Some (p, c')" "rest db c' = r" "cur c' = Some (fst p)"
    using cgetE [of c db "DB_SET key" p r] by auto
  have p: "fst p = key"
    using Cons by (simp add: dropWhile_eq_Cons_conv)
  define pre where "pre = takeWhile (\<lambda>p. fst p \<noteq> key) (recs db)"
  then have pre: "pre = takeWhile (\<lambda>p. fst p \<noteq> key) (recs db)" "recs db = pre @ p # r"
    using Cons takeWhile_dropWhile_id [of "\<lambda>p. fst p \<noteq> key" "recs db"] by simp_all
  have "dups key pre = []"
    using pre(1) by (auto simp: dups_eq_Nil dest: set_takeWhileD)
  then have "dups key (recs db) = snd p # dups key r"
    using p pre(2) by simp
  moreover have "grouped (p # r)"
    using grouped_recs [of db] grouped_drop [of pre "p # r"] pre(2) by simp
  ultimately have "dups key (recs db) = snd p # map snd (takeWhile (\<lambda>q. fst q = key) r)"
    using dups_group [of p r] p by simp
  then show ?thesis
    using c' p load_dups_rest [of c' key db "snd p" cv] by (cases p) simp
qed

end


text \<open>The state a restored key leaves.\<close>

definition restore_key :: "string \<Rightarrow> string \<Rightarrow> redis \<Rightarrow> redis" where
  "restore_key key v r =
     (if db_dict r key = None
      then r\<lparr>db_dict := (db_dict r)(key \<mapsto> encoded v), sv_dirty := sv_dirty r + 1\<rparr> else r)"

definition index_of :: "'db ir_server \<Rightarrow> 'db option" where
  "index_of s = (case d_dbs (ir_disk s) (indexedlog_filename (ir_cfg s)) of Store db \<Rightarrow> Some db | _ \<Rightarrow> None)"

lemma replayed_none: "good_records ds \<Longrightarrow> replayed ds = None \<longleftrightarrow> ds = []"
  by (auto simp: good_records_def replayed_def)

lemma replay_value_no_NUL:
  assumes "replay_records ds cv = Some (c, v)" and "NUL \<notin> set (snd cv)"
  shows "NUL \<notin> set v"
  using assms
proof (induction ds arbitrary: cv)
  case (Cons d ds)
  then obtain c' v' where step: "replay_record d cv = Some (c', v')" "replay_records ds (c', v') = Some (c, v)"
    by (auto split: bind_splits)
  have "NUL \<notin> set v'"
    using step(1) Cons.prems(2)
    by (auto simp: replay_record_def log_line_def sdsnew_def Let_def split: option.splits if_splits)
  with Cons.IH step(2) show ?case by simp
qed simp

lemma kv_of_no_NUL: "kv_of records db k = Some v \<Longrightarrow> NUL \<notin> set v"
  using replay_value_no_NUL [of "records db (dbt k)" "([], ''0'')" _ v]
  by (auto simp: kv_of_def replayed_def split: if_splits)

lemma loadRecord_spec:
  assumes "berkeley_db (en_bdb E) recs rest cur" and "index_of s = Some db" and "good_index (index_records recs) db"
    and "NUL \<notin> set key" and "db_expires (sv_redis s) key = None"
  shows "loadRecordFromIndexedLog E key s =
     Some (case kv_of (index_records recs) db key of
             None \<Rightarrow> (0, (addRestoredTuple key s)\<lparr>count_tuples_not_in_log := count_tuples_not_in_log s + 1\<rparr>)
           | Some v \<Rightarrow> (1, (addRestoredTuple key s)\<lparr>sv_redis := restore_key key v (sv_redis s),
                              count_tuples_loaded_ondemand := count_tuples_loaded_ondemand s + 1\<rparr>))"
proof -
  let ?B = "en_bdb E" and ?ds = "dups (dbt key) (recs db)"
  have index: "d_dbs (ir_disk s) (indexedlog_filename (ir_cfg s)) = Store db"
    using assms(2) by (auto simp: index_of_def split: db_file.splits)
  have kv: "kv_of (index_records recs) db key = replayed (map cstr ?ds)"
    using assms(4) by (simp add: kv_of_def index_records_def)
  have good: "good_records (map cstr ?ds)"
    using assms(3) by (simp add: good_index_def index_records_def)
  note cursor = berkeley_db.set_cursor [OF assms(1), where db = db and c = "bdb_cursor ?B db" and key = "dbt key" and cv = "([], ''0'')"]
  show ?thesis
  proof (cases "?ds = []")
    case True
    then have "dropWhile (\<lambda>p. fst p \<noteq> dbt key) (recs db) = []"
      by (force simp: dups_eq_Nil dropWhile_eq_Nil_conv)
    then have "bdb_cget ?B db (bdb_cursor ?B db) (DB_SET (dbt key)) = None"
      using berkeley_db.cget_none [OF assms(1), of db "bdb_cursor ?B db" "DB_SET (dbt key)"]
      by (simp only: cursor_next.simps list.case)
    with True kv index show ?thesis
      by (simp add: loadRecordFromIndexedLog_def openIndexedLog_def openBerkeleyDB_def)
  next
    case False
    then obtain c v where cv: "replay_records ?ds ([], ''0'') = Some (c, v)"
      using good by (auto simp: good_records_def)
    with False kv have v: "kv_of (index_records recs) db key = Some v"
      by (simp add: replayed_def)
    then have nul: "cstr v = v"
      using kv_of_no_NUL by (metis cstr_id)
    obtain k d c' where get: "bdb_cget ?B db (bdb_cursor ?B db) (DB_SET (dbt key)) = Some ((k, d), c')"
        "load_dups ?B db c' d ([], ''0'') = Some (c, v)"
      using cursor cv False by (auto split: option.splits)
    let ?c = "fake_client SetIRCommand ''setIR'' (restore_argv key v)"
    have "has_args ?c [''SETIR'', key, v]"
      using assms(4) nul by (simp add: has_args_def fake_client_def restore_argv_def)
    from setIR_eq [OF this assms(5)]
    have "\<exists>c''. setIRCommand ?c (sv_redis s) = Some (c'', restore_key key v (sv_redis s)) \<and> cl_reply c'' = []"
      by (auto simp: restore_key_def addReply_def fake_client_def)
    with get v index show ?thesis
      by (auto simp: loadRecordFromIndexedLog_def openIndexedLog_def openBerkeleyDB_def lookup_SETIR)
  qed
qed

end
