(* ===== verification/Server_Call.thy ===== *)
theory Server_Call
  imports Restorer
begin

text \<open>
  The execution of a command (\<^verbatim>\<open>call\<close> and \<^verbatim>\<open>propagate\<close> of \<^verbatim>\<open>src/src/server.c\<close>) with the hooks of the
  instant recovery: before the command the key is recovered on demand, after it the access is
  counted and the command is listed for the report.  Monitors, the slow log, Lua, transactions,
  replication and the limits \<open>processCommand\<close> checks between the arity and the call are not
  represented.  The hash of the accessed keys and the list of executed commands, which
  \<^verbatim>\<open>call\<close> fills, are here too.

  The laws: a command on a key makes the key space and the reply what the same command makes of
  the key space in which the key has been recovered.
\<close>

section \<open>The hash of the accessed keys\<close>

definition getAccessedTuple :: "string \<Rightarrow> 'db ir_server \<Rightarrow> (string \<times> nat) option" where
  "getAccessedTuple key s = List.find (\<lambda>(k, _). k = cstr key) (hash_keys_access s)"

definition getCountAccessedTuple :: "string \<Rightarrow> 'db ir_server \<Rightarrow> nat" where
  "getCountAccessedTuple key s = (case getAccessedTuple key s of None \<Rightarrow> 0 | Some (_, count) \<Rightarrow> count)"

text \<open>The counter is an \<^verbatim>\<open>unsigned long long\<close>.\<close>

fun bump :: "string \<Rightarrow> (string \<times> nat) list \<Rightarrow> (string \<times> nat) list" where
  "bump key [] = []"
| "bump key ((k, count) # hs) =
     (if k = key then (k, (count + 1) mod 2 ^ 64) # hs else (k, count) # bump key hs)"

definition incrementAccessedTuple :: "string \<Rightarrow> 'db ir_server \<Rightarrow> 'db ir_server" where
  "incrementAccessedTuple key s =
     (if getAccessedTuple key s \<noteq> None then s\<lparr>hash_keys_access := bump (cstr key) (hash_keys_access s)\<rparr>
      else s\<lparr>hash_keys_access := hash_keys_access s @ [(cstr key, 1)]\<rparr>)"

definition delAccessedTuple :: "string \<times> nat \<Rightarrow> 'db ir_server \<Rightarrow> 'db ir_server" where
  "delAccessedTuple accessedTuple s = s\<lparr>hash_keys_access := remove1 accessedTuple (hash_keys_access s)\<rparr>"

definition clearHashAccessedTuples :: "'db ir_server \<Rightarrow> 'db ir_server" where
  "clearHashAccessedTuples s = s\<lparr>hash_keys_access := []\<rparr>"

definition countAccessedKeys :: "'db ir_server \<Rightarrow> nat" where
  "countAccessedKeys s = length (hash_keys_access s)"

fun print_accessed :: "nat \<Rightarrow> (string \<times> nat) list \<Rightarrow> string" where
  "print_accessed n [] = []"
| "print_accessed n ((k, count) # hs) =
     show_nat (n + 1) @ '': '' @ k @ '' -> '' @ show_nat count @ ''\<newline>'' @ print_accessed (n + 1) hs"

definition printAccessedTuples :: "'db ir_server \<Rightarrow> string" where
  "printAccessedTuples s = ''List of accessed keys: \<newline>'' @ print_accessed 0 (hash_keys_access s)"

section \<open>The list of executed commands\<close>

text \<open>The list starts with an unused node; a text that does not fit into its array is undefined
  behaviour.\<close>

definition insertFirstCommandExecuted :: "commandExecuted list" where
  "insertFirstCommandExecuted =
     [\<lparr>ce_key = [], ce_command = [], ce_startTime = 0, ce_finishTime = 0, ce_latency = 0, ce_type = CHR ''0''\<rparr>]"

definition addCommandExecuted ::
    "commandExecuted list \<Rightarrow> string \<Rightarrow> string \<Rightarrow> int \<Rightarrow> int \<Rightarrow> char \<Rightarrow> int \<Rightarrow> commandExecuted list option" where
  "addCommandExecuted lst key command startTime finishTime type latency =
     (if lst \<noteq> [] \<and> c_strlen key < 50 \<and> c_strlen command < 20
      then Some (lst @ [\<lparr>ce_key = cstr key, ce_command = cstr command, ce_startTime = startTime,
                        ce_finishTime = finishTime, ce_latency = latency, ce_type = type\<rparr>])
      else None)"

section \<open>Calling a command\<close>

definition propagate :: "cmd_proc \<Rightarrow> string \<Rightarrow> int \<Rightarrow> robj list \<Rightarrow> bool \<Rightarrow> redis \<Rightarrow> redis option" where
  "propagate cmd name dbid argv propagate_aof r =
     (if c_streq name ''setIR'' then Some r
      else if sv_aof_state r \<noteq> AOF_OFF \<and> propagate_aof then feedAppendOnlyFile cmd dbid argv r
      else Some r)"

definition ir_command :: "string \<Rightarrow> bool" where
  "ir_command name \<longleftrightarrow> c_strcaseeq name ''set'' \<or> c_strcaseeq name ''get'' \<or> c_strcaseeq name ''incr''"

text \<open>Recovery on demand; the result says whether the key was loaded.\<close>

definition recover_on_demand :: "('db, 'c) env \<Rightarrow> client \<Rightarrow> 'db ir_server \<Rightarrow> (bool \<times> 'db ir_server) option" where
  "recover_on_demand E c s =
     (if instant_recovery_state s \<and> instant_recovery_performing s \<and> \<not> c_streq (cl_cmd_name c) ''setIR'' \<and>
         ir_command (cl_cmd_name c)
      then do {
        key_requested \<leftarrow> cl_key 1 c;
        if \<not> isRestoredTuple key_requested s
        then do { (_, s) \<leftarrow> loadRecordFromIndexedLog E key_requested s; Some (True, s) }
        else Some (False, s\<lparr>count_tuples_already_loaded := count_tuples_already_loaded s + 1\<rparr>)
      }
      else Some (False, s))"

text \<open>The access logger and the list of commands; \<open>tm\<close> holds the start, the end and the latency.\<close>

definition log_access :: "int \<times> int \<times> int \<Rightarrow> bool \<Rightarrow> bool \<Rightarrow> client \<Rightarrow> 'db ir_server \<Rightarrow> 'db ir_server option" where
  "log_access tm restored dirty c s =
     (if \<not> c_strcaseeq (cl_cmd_name c) ''setIR'' \<and> ir_command (cl_cmd_name c)
      then do {
        key \<leftarrow> cl_key 1 c;
        command \<leftarrow> cl_key 0 c;
        s \<leftarrow> (if generate_executed_commands_csv s
              then map_option (\<lambda>l. s\<lparr>cmd_executed_List := l\<rparr>)
                     (addCommandExecuted (cmd_executed_List s) key command (fst tm) (fst (snd tm))
                        (if restored then CHR ''A'' else CHR ''N'') (snd (snd tm)))
              else Some s);
        Some (if dirty \<and> accessed_tuples_logger_state s then incrementAccessedTuple key s else s)
      }
      else Some s)"

text \<open>\<open>call_aof\<close> is the flag \<^verbatim>\<open>CMD_CALL_PROPAGATE_AOF\<close>.\<close>

definition call :: "('db, 'c) env \<Rightarrow> bool \<Rightarrow> int \<times> int \<times> int \<Rightarrow> client \<Rightarrow> 'db ir_server \<Rightarrow> (client \<times> 'db ir_server) option" where
  "call E call_aof tm c s =
     do {
       let r = sv_redis s;
       let r = r\<lparr>sv_fixed_time_expire := sv_fixed_time_expire r + 1, sv_mstime := sv_clock r\<rparr>;
       let dirty0 = sv_dirty r;
       (restored, s) \<leftarrow> recover_on_demand E c (s\<lparr>sv_redis := r\<rparr>);
       (c, r) \<leftarrow> cmd_run (en_other E) (cl_cmd c) c (sv_redis s);
       let dirty = (if sv_dirty r - dirty0 < 0 then 0 else sv_dirty r - dirty0);
       s \<leftarrow> log_access tm restored (dirty \<noteq> 0) c (s\<lparr>sv_redis := r\<rparr>);
       let r = sv_redis s;
       r \<leftarrow> (if call_aof \<and> dirty \<noteq> 0 then propagate (cl_cmd c) (cl_cmd_name c) (db_id r) (cl_argv c) True r else Some r);
       Some (c, s\<lparr>sv_redis := r\<lparr>sv_fixed_time_expire := sv_fixed_time_expire r - 1\<rparr>, stat_numcommands := stat_numcommands s + 1\<rparr>)
     }"

fun unknown_args :: "string \<Rightarrow> robj list \<Rightarrow> string option" where
  "unknown_args args [] = Some args"
| "unknown_args args (x # xs) =
     (if length args < 128
      then do { a \<leftarrow> obj_ptr x; unknown_args (args @ ''`'' @ take (128 - length args) (cstr a) @ ''`, '') xs }
      else Some args)"

text \<open>The result is whether the client stays.\<close>

definition processCommand :: "('db, 'c) env \<Rightarrow> int \<times> int \<times> int \<Rightarrow> client \<Rightarrow> 'db ir_server \<Rightarrow> (c_result \<times> client \<times> 'db ir_server) option" where
  "processCommand E tm c s =
     do {
       name \<leftarrow> cl_key 0 c;
       if c_strcaseeq name ''quit'' then Some (C_ERR, addReply R_ok c, s)
       else
         (case lookupCommand (en_table E) name of
            None \<Rightarrow>
              do {
                args \<leftarrow> unknown_args [] (drop 1 (cl_argv c));
                Some (C_OK, addReply (R_error (''unknown command `'' @ cstr name @ ''`, with args beginning with: '' @ args)) c, s)
              }
          | Some (cmd_name, cmd, arity) \<Rightarrow>
              if \<not> arity_ok arity (length (cl_argv c))
              then Some (C_OK, addReply (R_error (''wrong number of arguments for '' @ [CHR 0x27] @ cmd_name @ [CHR 0x27] @ '' command'')) c, s)
              else do {
                (c, s) \<leftarrow> call E True tm (c\<lparr>cl_cmd := cmd, cl_cmd_name := cmd_name\<rparr>) s;
                Some (C_OK, c, s)
              })
     }"

section \<open>Requests\<close>

text \<open>The commands that recover their key on demand, as an abstract key-value server sees them.\<close>

datatype request = Rset string string | Rget string | Rincr string

fun req_key :: "request \<Rightarrow> string" where
  "req_key (Rset k v) = k" | "req_key (Rget k) = k" | "req_key (Rincr k) = k"

fun req_args :: "request \<Rightarrow> string list" where
  "req_args (Rset k v) = [k, v]" | "req_args (Rget k) = [k]" | "req_args (Rincr k) = [k]"

fun req_proc :: "request \<Rightarrow> cmd_proc" where
  "req_proc (Rset k v) = SetCommand" | "req_proc (Rget k) = GetCommand" | "req_proc (Rincr k) = IncrCommand"

fun req_name :: "request \<Rightarrow> string" where
  "req_name (Rset k v) = ''set''" | "req_name (Rget k) = ''get''" | "req_name (Rincr k) = ''incr''"

fun req_effect :: "request \<Rightarrow> (string \<Rightarrow> robj option) \<Rightarrow> reply \<times> (string \<Rightarrow> robj option)" where
  "req_effect (Rset k v) d = (R_ok, d(k \<mapsto> encoded v))"
| "req_effect (Rget k) d =
     (case d k of None \<Rightarrow> R_nullbulk | Some x \<Rightarrow> (case obj_str x of None \<Rightarrow> R_wrongtypeerr | Some v \<Rightarrow> R_bulk v), d)"
| "req_effect (Rincr k) d =
     (if \<exists>x. d k = Some x \<and> obj_str x = None then (R_wrongtypeerr, d)
      else case int_value (d k) of
             None \<Rightarrow> (integer_error, d)
           | Some n \<Rightarrow> if in_int64 (n + 1) then (R_longlong (n + 1), d(k \<mapsto> IntEnc (n + 1))) else (overflow_error, d))"

text \<open>Whether the request counts as a change of the key space.\<close>

fun req_writes :: "request \<Rightarrow> (string \<Rightarrow> robj option) \<Rightarrow> bool" where
  "req_writes (Rset k v) d \<longleftrightarrow> True"
| "req_writes (Rget k) d \<longleftrightarrow> False"
| "req_writes (Rincr k) d \<longleftrightarrow> (\<exists>n. fst (req_effect (Rincr k) d) = R_longlong n)"

text \<open>A client with a request: texts that fit, no zero byte in the key, and the name it was given.\<close>

definition requests :: "client \<Rightarrow> string \<Rightarrow> request \<Rightarrow> bool" where
  "requests c name req \<longleftrightarrow> cl_cmd c = req_proc req \<and> cl_cmd_name c = req_name req \<and> \<not> cl_fake c \<and>
     has_args c (name # req_args req) \<and> (\<forall>a \<in> set (name # req_args req). small a) \<and> NUL \<notin> set (req_key req) \<and>
     length name < 20 \<and> length (req_key req) < 50"

text \<open>A key space without expire times.\<close>

definition persistent :: "redis \<Rightarrow> bool" where
  "persistent r \<longleftrightarrow> wf_redis r \<and> db_expires r = (\<lambda>_. None)"

text \<open>The fields that belong to the append only file.\<close>

definition same_aof :: "redis \<Rightarrow> redis \<Rightarrow> bool" where
  "same_aof r r' \<longleftrightarrow> sv_aof_state r' = sv_aof_state r \<and> sv_aof_buf r' = sv_aof_buf r \<and>
     sv_aof_selected_db r' = sv_aof_selected_db r \<and> db_id r' = db_id r"

lemma persistent_put: "persistent r \<Longrightarrow> good_obj x \<Longrightarrow> persistent (r\<lparr>db_dict := (db_dict r)(k \<mapsto> x)\<rparr>)"
  by (auto simp: persistent_def intro!: wf_redis_put)

lemma persistent_same:
  "db_dict r' = db_dict r \<Longrightarrow> db_expires r' = db_expires r \<Longrightarrow> persistent r' = persistent r"
  by (simp add: persistent_def wf_redis_def)

lemma cmd_run_request:
  assumes "requests c name req" and "persistent r"
  shows "\<exists>c' r'. cmd_run oth (cl_cmd c) c r = Some (c', r') \<and>
           cl_reply c' = cl_reply c @ [fst (req_effect req (db_dict r))] \<and>
           db_dict r' = snd (req_effect req (db_dict r)) \<and> persistent r' \<and>
           sv_dirty r' = sv_dirty r + (if req_writes req (db_dict r) then 1 else 0) \<and> same_aof r r' \<and>
           are_args (cl_argv c') (name # req_args req) \<and> cl_key 0 c' = Some name \<and> cl_key 1 c' = Some (req_key req) \<and>
           cl_cmd c' = cl_cmd c \<and> cl_cmd_name c' = cl_cmd_name c \<and> cl_fake c' = cl_fake c"
proof (cases req)
  case (Rset k v)
  have args: "has_args c [name, k, v]" and nf: "\<not> cl_fake c" and v: "small v" and cmd: "cl_cmd c = SetCommand"
    using assms(1) Rset by (auto simp: requests_def)
  obtain x y z where argv: "cl_argv c = [x, y, z]" "wf_robj x" "obj_ptr x = Some name" "wf_robj y" "obj_ptr y = Some k"
    using args by (auto simp: has_args_def list_all2_Cons2)
  have "persistent ((r\<lparr>db_dict := (db_dict r)(k \<mapsto> encoded v)\<rparr>)\<lparr>sv_dirty := sv_dirty r + 1\<rparr>)"
    using persistent_put [OF assms(2), of "encoded v" k] v by (subst persistent_same) auto
  then show ?thesis
    using set_eq [OF args, of r] assms(2) Rset nf argv cmd
    by (simp add: persistent_def same_aof_def addReply_def cl_key_def arg_at_def obj_ptr_str)
next
  case (Rget k)
  have args: "has_args c [name, k]" and nf: "\<not> cl_fake c" and cmd: "cl_cmd c = GetCommand"
    using assms(1) Rget by (auto simp: requests_def)
  obtain x y where argv: "cl_argv c = [x, y]" "wf_robj x" "obj_ptr x = Some name" "wf_robj y" "obj_ptr y = Some k"
    using args by (auto simp: has_args_def list_all2_Cons2)
  have pers: "db_expires r k = None"
    using assms(2) by (simp add: persistent_def)
  have "persistent (r\<lparr>stat_keyspace_hits := n\<rparr>)" "persistent (r\<lparr>stat_keyspace_misses := n\<rparr>)" for n
    using assms(2) by (simp_all add: persistent_def)
  then show ?thesis
    using get_eq [OF args, of r] Rget nf argv cmd lookupKeyRead_persistent [OF pers]
    by (cases "db_dict r k") (simp_all add: same_aof_def addReply_def cl_key_def arg_at_def obj_ptr_str split: option.splits)
next
  case (Rincr k)
  have args: "has_args c [name, k]" and nf: "\<not> cl_fake c" and cmd: "cl_cmd c = IncrCommand"
    using assms(1) Rincr by (auto simp: requests_def)
  obtain x y where argv: "cl_argv c = [x, y]" "wf_robj x" "obj_ptr x = Some name" "wf_robj y" "obj_ptr y = Some k"
    using args by (auto simp: has_args_def list_all2_Cons2)
  have pers: "wf_redis r" "db_expires r k = None"
    using assms(2) by (simp_all add: persistent_def)
  have put: "persistent ((r\<lparr>db_dict := (db_dict r)(k \<mapsto> IntEnc n)\<rparr>)\<lparr>sv_dirty := sv_dirty r + 1\<rparr>)" if "in_int64 n" for n
    using persistent_put [OF assms(2), of "IntEnc n" k] that by (subst persistent_same) auto
  show ?thesis
    using incr_eq [OF args pers] Rincr nf argv cmd put assms(2)
    by (auto simp: same_aof_def addReply_def cl_key_def arg_at_def obj_ptr_str integer_error_def overflow_error_def split: option.splits)
qed

section \<open>Recovery on demand\<close>

text \<open>A server that can execute requests.\<close>

definition serving :: "'db ir_server \<Rightarrow> bool" where
  "serving s \<longleftrightarrow> persistent (sv_redis s) \<and> (generate_executed_commands_csv s \<longrightarrow> cmd_executed_List s \<noteq> [])"

text \<open>A server whose index is usable and stands for \<open>kv\<close>.\<close>

definition recovering :: "('db \<Rightarrow> (string \<times> string) list) \<Rightarrow> kv \<Rightarrow> 'db ir_server \<Rightarrow> bool" where
  "recovering recs kv s \<longleftrightarrow>
     (\<exists>db. index_of s = Some db \<and> good_index (index_records recs) db \<and> kv_of (index_records recs) db = kv) \<and>
     (\<forall>k v. kv k = Some v \<longrightarrow> small v) \<and> serving s"

definition same_recovery :: "'db ir_server \<Rightarrow> 'db ir_server \<Rightarrow> bool" where
  "same_recovery s s' \<longleftrightarrow> instant_recovery_state s' = instant_recovery_state s \<and>
     instant_recovery_performing s' = instant_recovery_performing s \<and>
     instant_recovery_performing_stop s' = instant_recovery_performing_stop s \<and> ir_cfg s' = ir_cfg s \<and> ir_disk s' = ir_disk s \<and>
     generate_executed_commands_csv s' = generate_executed_commands_csv s \<and>
     (cmd_executed_List s \<noteq> [] \<longrightarrow> cmd_executed_List s' \<noteq> [])"

lemma recovering_same:
  "recovering recs kv s \<Longrightarrow> same_recovery s s' \<Longrightarrow> persistent (sv_redis s') \<Longrightarrow> recovering recs kv s'"
  by (auto simp: recovering_def serving_def same_recovery_def index_of_def)

text \<open>The key space after the recovery of a key, and whether the recovery changed it.\<close>

definition on_demand :: "kv \<Rightarrow> string \<Rightarrow> (string \<Rightarrow> robj option) \<Rightarrow> (string \<Rightarrow> robj option)" where
  "on_demand kv key d = (if d key = None then d(key := map_option encoded (kv key)) else d)"

definition must_load :: "string \<Rightarrow> 'db ir_server \<Rightarrow> bool" where
  "must_load key s \<longleftrightarrow> instant_recovery_state s \<and> instant_recovery_performing s \<and> key \<notin> set (hash_restored_tuples s)"

lemma persistent_restore: "persistent r \<Longrightarrow> small v \<Longrightarrow> persistent (restore_key k v r)"
  using persistent_put [of r "encoded v" k]
  by (auto simp: restore_key_def persistent_def wf_redis_def)

lemma restore_key_aof: "same_aof r (restore_key k v r)"
  by (simp add: restore_key_def same_aof_def)

lemma requests_name:
  assumes "requests c name req"
  shows "\<not> c_streq (cl_cmd_name c) ''setIR''" "\<not> c_strcaseeq (cl_cmd_name c) ''setIR''" "ir_command (cl_cmd_name c)"
    "cl_key 1 c = Some (req_key req)" "cstr (req_key req) = req_key req"
proof -
  have n: "cl_cmd_name c = ''set'' \<or> cl_cmd_name c = ''get'' \<or> cl_cmd_name c = ''incr''"
    using assms by (cases req) (auto simp: requests_def)
  then show "\<not> c_streq (cl_cmd_name c) ''setIR''" "\<not> c_strcaseeq (cl_cmd_name c) ''setIR''"
    by (auto simp: c_streq_def c_strcaseeq_def lower_SETIR cstr_id dest: map_eq_imp_length_eq)
  show "ir_command (cl_cmd_name c)"
    using n by (auto simp: ir_command_def c_strcaseeq_def)
  show "cl_key 1 c = Some (req_key req)"
    using assms cl_key_nth [of c "name # req_args req" 1] by (cases req) (auto simp: requests_def)
  show "cstr (req_key req) = req_key req"
    using assms by (simp add: requests_def cstr_id)
qed

lemma recover_on_demand_eq:
  assumes "must_load (req_key req) s \<longrightarrow> berkeley_db (en_bdb E) recs rest cur \<and> recovering recs kv s"
    and "requests c name req" and "serving s"
  shows "\<exists>b s'. recover_on_demand E c s = Some (b, s') \<and> same_recovery s s' \<and> persistent (sv_redis s') \<and>
           same_aof (sv_redis s) (sv_redis s') \<and>
           db_dict (sv_redis s') = (if must_load (req_key req) s then on_demand kv (req_key req) (db_dict (sv_redis s))
                                    else db_dict (sv_redis s)) \<and>
           sv_dirty (sv_redis s') = sv_dirty (sv_redis s) + (if db_dict (sv_redis s') \<noteq> db_dict (sv_redis s) then 1 else 0) \<and>
           set (hash_restored_tuples s') =
             (if must_load (req_key req) s then insert (req_key req) (set (hash_restored_tuples s))
              else set (hash_restored_tuples s))"
proof (cases "must_load (req_key req) s")
  case True
  let ?k = "req_key req"
  note name = requests_name [OF assms(2)]
  have flags: "instant_recovery_state s" "instant_recovery_performing s" "\<not> isRestoredTuple ?k s"
    using True name(5) by (auto simp: must_load_def isRestoredTuple_def)
  obtain db where db: "index_of s = Some db" "good_index (index_records recs) db" "kv_of (index_records recs) db = kv"
    and rest: "\<forall>k v. kv k = Some v \<longrightarrow> small v" "persistent (sv_redis s)" and bdb: "berkeley_db (en_bdb E) recs rest cur"
    using assms(1) True by (auto simp: recovering_def serving_def)
  have "NUL \<notin> set ?k" "db_expires (sv_redis s) ?k = None"
    using assms(2) rest by (auto simp: requests_def persistent_def)
  from loadRecord_spec [OF bdb db(1,2) this] db(3)
  obtain n s' where load: "loadRecordFromIndexedLog E ?k s = Some (n, s')"
    "sv_redis s' = (case kv ?k of None \<Rightarrow> sv_redis s | Some v \<Rightarrow> restore_key ?k v (sv_redis s))"
    "hash_restored_tuples s' = hash_restored_tuples s @ [?k]" "same_recovery s s'"
    using name(5) by (cases "kv ?k") (auto simp: addRestoredTuple_def same_recovery_def)
  have "recover_on_demand E c s = Some (True, s')"
    using flags name load(1) by (simp add: recover_on_demand_def)
  moreover have "persistent (sv_redis s')" "same_aof (sv_redis s) (sv_redis s')"
    using load(2) rest persistent_restore restore_key_aof by (auto simp: same_aof_def split: option.splits)
  moreover have "db_dict (sv_redis s') = on_demand kv ?k (db_dict (sv_redis s))"
    using load(2) by (auto simp: on_demand_def restore_key_def split: option.splits)
  moreover have "sv_dirty (sv_redis s') = sv_dirty (sv_redis s) + (if db_dict (sv_redis s') \<noteq> db_dict (sv_redis s) then 1 else 0)"
    using load(2) by (auto simp: restore_key_def fun_upd_idem_iff split: option.splits dest: fun_cong)
  ultimately show ?thesis
    using load(3,4) True by auto
next
  case False
  then show ?thesis
    using requests_name [OF assms(2)] assms(3)
    by (auto simp: recover_on_demand_def must_load_def isRestoredTuple_def same_recovery_def same_aof_def serving_def)
qed

section \<open>A call\<close>

lemma log_access_eq:
  assumes "requests c name req" and "cl_key 0 c' = Some name" and "cl_key 1 c' = Some (req_key req)"
    and "cl_cmd_name c' = cl_cmd_name c" and "generate_executed_commands_csv s \<longrightarrow> cmd_executed_List s \<noteq> []"
  shows "\<exists>s'. log_access tm restored dirty c' s = Some s' \<and> same_recovery s s' \<and> sv_redis s' = sv_redis s \<and>
           hash_restored_tuples s' = hash_restored_tuples s"
proof -
  have "c_strlen name < 20" "c_strlen (req_key req) < 50"
    using assms(1) length_cstr [of name] length_cstr [of "req_key req"] by (auto simp: requests_def c_strlen_def)
  then show ?thesis
    using requests_name [OF assms(1)] assms
    by (auto simp: log_access_def addCommandExecuted_def incrementAccessedTuple_def same_recovery_def)
qed

text \<open>What a command that changed something adds to the append only file.\<close>

definition aof_out :: "redis \<Rightarrow> string list \<Rightarrow> string" where
  "aof_out r ss = (if db_id r \<noteq> sv_aof_selected_db r then select_record (db_id r) else []) @ aof_record ss"

lemma propagate_request:
  assumes "requests c name req" and "are_args argv (name # req_args req)" and "dbid = db_id r"
  shows "\<exists>r'. propagate (cl_cmd c) (cl_cmd_name c) dbid argv True r = Some r' \<and>
           db_dict r' = db_dict r \<and> db_expires r' = db_expires r \<and> db_id r' = db_id r \<and> sv_aof_state r' = sv_aof_state r \<and>
           sv_aof_selected_db r' = (if sv_aof_state r = AOF_OFF then sv_aof_selected_db r else db_id r) \<and>
           sv_aof_buf r' = (if sv_aof_state r = AOF_ON then sv_aof_buf r @ aof_out r (name # req_args req) else sv_aof_buf r)"
proof -
  have "sized_args (name # req_args req)"
    using assms(1) by (cases req) (auto simp: requests_def sized_args_def)
  moreover have "cl_cmd c \<notin> {ExpireCommand, PexpireCommand, ExpireatCommand, SetexCommand, PsetexCommand}"
    "cl_cmd c = SetCommand \<longrightarrow> length argv \<le> 3"
    using assms(1) list_all2_lengthD [OF assms(2)] by (cases req; auto simp: requests_def)+
  ultimately show ?thesis
    using feed_generic [OF assms(2)] requests_name(1) [OF assms(1)] assms(3)
    by (auto simp: propagate_def aof_out_def)
qed

lemma call_request_gen:
  fixes call_aof :: bool
  assumes "must_load (req_key req) s \<longrightarrow> berkeley_db (en_bdb E) recs rest cur \<and> recovering recs kv s"
    and "requests c name req" and "serving s"
  defines "d \<equiv> db_dict (sv_redis s)" and "load \<equiv> must_load (req_key req) s"
  defines "d1 \<equiv> (if load then on_demand kv (req_key req) d else d)"
  defines "out \<equiv> call_aof \<and> sv_aof_state (sv_redis s) \<noteq> AOF_OFF \<and> (d1 \<noteq> d \<or> req_writes req d1)"
  shows "\<exists>c' s'. call E call_aof tm c s = Some (c', s') \<and>
           cl_reply c' = cl_reply c @ [fst (req_effect req d1)] \<and>
           db_dict (sv_redis s') = snd (req_effect req d1) \<and> serving s' \<and> same_recovery s s' \<and>
           set (hash_restored_tuples s') = (if load then insert (req_key req) (set (hash_restored_tuples s))
                                            else set (hash_restored_tuples s)) \<and>
           sv_aof_state (sv_redis s') = sv_aof_state (sv_redis s) \<and> db_id (sv_redis s') = db_id (sv_redis s) \<and>
           sv_aof_selected_db (sv_redis s') = (if out then db_id (sv_redis s) else sv_aof_selected_db (sv_redis s)) \<and>
           sv_aof_buf (sv_redis s') = sv_aof_buf (sv_redis s) @
             (if out \<and> sv_aof_state (sv_redis s) = AOF_ON then aof_out (sv_redis s) (name # req_args req) else []) \<and> cl_fake c' = cl_fake c"
proof -
  let ?r = "sv_redis s"
  let ?r0 = "?r\<lparr>sv_fixed_time_expire := sv_fixed_time_expire ?r + 1, sv_mstime := sv_clock ?r\<rparr>"
  let ?s0 = "s\<lparr>sv_redis := ?r0\<rparr>"
  have serv: "serving ?s0" and rec0: "must_load (req_key req) ?s0 \<longrightarrow> berkeley_db (en_bdb E) recs rest cur \<and> recovering recs kv ?s0"
    using assms(1,3) by (auto simp: recovering_def serving_def must_load_def index_of_def persistent_def wf_redis_def)
  obtain b s1 where s1: "recover_on_demand E c ?s0 = Some (b, s1)" "same_recovery ?s0 s1" "persistent (sv_redis s1)"
      "same_aof ?r0 (sv_redis s1)" "db_dict (sv_redis s1) = d1"
      "sv_dirty (sv_redis s1) = sv_dirty ?r + (if d1 \<noteq> d then 1 else 0)"
      "set (hash_restored_tuples s1) = (if load then insert (req_key req) (set (hash_restored_tuples s))
                                        else set (hash_restored_tuples s))"
    using recover_on_demand_eq [OF rec0 assms(2) serv] unfolding d1_def load_def d_def must_load_def
    by (auto split: if_splits)
  obtain c2 r2 where r2: "cmd_run (en_other E) (cl_cmd c) c (sv_redis s1) = Some (c2, r2)"
      "cl_reply c2 = cl_reply c @ [fst (req_effect req d1)]" "db_dict r2 = snd (req_effect req d1)" "persistent r2"
      "sv_dirty r2 = sv_dirty (sv_redis s1) + (if req_writes req d1 then 1 else 0)" "same_aof (sv_redis s1) r2"
      "are_args (cl_argv c2) (name # req_args req)" "cl_key 0 c2 = Some name" "cl_key 1 c2 = Some (req_key req)"
      "cl_cmd c2 = cl_cmd c" "cl_cmd_name c2 = cl_cmd_name c" "cl_fake c2 = cl_fake c"
    using cmd_run_request [OF assms(2) s1(3), of "en_other E"] s1(5) by auto
  define delta where "delta = (if d1 \<noteq> d then 1 else 0) + (if req_writes req d1 then 1 else (0::int))"
  have delta: "sv_dirty r2 - sv_dirty ?r0 = delta" "0 \<le> delta" "delta \<noteq> 0 \<longleftrightarrow> d1 \<noteq> d \<or> req_writes req d1"
    using r2(5) s1(6) by (auto simp: delta_def)
  have "generate_executed_commands_csv (s1\<lparr>sv_redis := r2\<rparr>) \<longrightarrow> cmd_executed_List (s1\<lparr>sv_redis := r2\<rparr>) \<noteq> []"
    using assms(3) s1(2) by (auto simp: serving_def same_recovery_def)
  then obtain s3 where s3: "log_access tm b (delta \<noteq> 0) c2 (s1\<lparr>sv_redis := r2\<rparr>) = Some s3" "same_recovery (s1\<lparr>sv_redis := r2\<rparr>) s3"
      "sv_redis s3 = r2" "hash_restored_tuples s3 = hash_restored_tuples s1"
    using log_access_eq [OF assms(2) r2(8,9,11), of "s1\<lparr>sv_redis := r2\<rparr>" tm b "delta \<noteq> 0"] by auto
  define m where "m = (if call_aof \<and> delta \<noteq> 0 then propagate (cl_cmd c2) (cl_cmd_name c2) (db_id r2) (cl_argv c2) True r2 else Some r2)"
  have aof: "sv_aof_state r2 = sv_aof_state ?r" "sv_aof_buf r2 = sv_aof_buf ?r" "sv_aof_selected_db r2 = sv_aof_selected_db ?r"
      "db_id r2 = db_id ?r"
    using r2(6) s1(4) by (auto simp: same_aof_def)
  then have aof_out: "aof_out r2 = aof_out ?r"
    by (simp add: aof_out_def fun_eq_iff)
  obtain r4 where r4: "m = Some r4" "db_dict r4 = db_dict r2" "db_expires r4 = db_expires r2" "db_id r4 = db_id ?r"
      "sv_aof_state r4 = sv_aof_state ?r" "sv_aof_selected_db r4 = (if out then db_id ?r else sv_aof_selected_db ?r)"
      "sv_aof_buf r4 = sv_aof_buf ?r @ (if out \<and> sv_aof_state ?r = AOF_ON then aof_out ?r (name # req_args req) else [])"
    using propagate_request [OF assms(2) r2(7), of "db_id r2" r2] r2(10,11) aof aof_out delta(3)
    by (cases "call_aof \<and> delta \<noteq> 0") (auto simp: m_def out_def)
  let ?s' = "s3\<lparr>sv_redis := r4\<lparr>sv_fixed_time_expire := sv_fixed_time_expire r4 - 1\<rparr>, stat_numcommands := stat_numcommands s3 + 1\<rparr>"
  have "call E call_aof tm c s = Some (c2, ?s')"
    using s1(1) r2(1) s3(1,3) r4(1) delta(1,2) unfolding m_def
    by (cases call_aof; cases "delta = 0") (simp_all add: call_def Let_def)
  moreover have same: "same_recovery s ?s'"
    using s1(2) s3(2) by (auto simp: same_recovery_def)
  moreover have "serving ?s'"
    using r2(4) r4(2,3) assms(3) same by (auto simp: serving_def same_recovery_def persistent_def wf_redis_def)
  ultimately show ?thesis
    using r2(2,3,12) r4(2-7) s1(7) s3(4) by (auto simp: aof_out_def)
qed

lemma call_request:
  fixes call_aof :: bool
  assumes "berkeley_db (en_bdb E) recs rest cur" and "requests c name req" and "recovering recs kv s"
  defines "d \<equiv> db_dict (sv_redis s)" and "load \<equiv> must_load (req_key req) s"
  defines "d1 \<equiv> (if load then on_demand kv (req_key req) d else d)"
  shows "\<exists>c' s'. call E call_aof tm c s = Some (c', s') \<and>
           cl_reply c' = cl_reply c @ [fst (req_effect req d1)] \<and>
           db_dict (sv_redis s') = snd (req_effect req d1) \<and> recovering recs kv s' \<and> same_recovery s s' \<and>
           set (hash_restored_tuples s') = (if load then insert (req_key req) (set (hash_restored_tuples s))
                                            else set (hash_restored_tuples s))"
proof -
  have "serving s"
    using assms(3) by (simp add: recovering_def)
  then obtain c' s' where s': "call E call_aof tm c s = Some (c', s')"
      "cl_reply c' = cl_reply c @ [fst (req_effect req d1)]" "db_dict (sv_redis s') = snd (req_effect req d1)"
      "serving s'" "same_recovery s s'"
      "set (hash_restored_tuples s') = (if load then insert (req_key req) (set (hash_restored_tuples s))
                                        else set (hash_restored_tuples s))"
    using call_request_gen [OF _ assms(2), where E = E and recs = recs and rest = rest and cur = cur and kv = kv and
        s = s and call_aof = call_aof and tm = tm] assms(1,3) unfolding d_def load_def d1_def by blast
  moreover have "recovering recs kv s'"
    using recovering_same [OF assms(3) s'(5)] s'(4) by (simp add: serving_def)
  ultimately show ?thesis by blast
qed

section \<open>Requests as they arrive\<close>

definition sends :: "client \<Rightarrow> string \<Rightarrow> request \<Rightarrow> bool" where
  "sends c name req \<longleftrightarrow> map c_tolower name = req_name req \<and> \<not> cl_fake c \<and>
     has_args c (name # req_args req) \<and> (\<forall>a \<in> set (req_args req). small a) \<and> NUL \<notin> set (req_key req) \<and>
     length (req_key req) < 50"

lemma lower_names:
  "map c_tolower ''setCheckpoint'' = ''setcheckpoint''" "map c_tolower ''checkpointEnd'' = ''checkpointend''"
  "map c_tolower ''benchmarkEnd'' = ''benchmarkend''" "map c_tolower ''setnx'' = ''setnx''"
  "map c_tolower ''setex'' = ''setex''" "map c_tolower ''psetex'' = ''psetex''" "map c_tolower ''append'' = ''append''"
  "map c_tolower ''strlen'' = ''strlen''" "map c_tolower ''del'' = ''del''" "map c_tolower ''unlink'' = ''unlink''"
  "map c_tolower ''setrange'' = ''setrange''" "map c_tolower ''getrange'' = ''getrange''" "map c_tolower ''substr'' = ''substr''"
  "map c_tolower ''incr'' = ''incr''"
  by (simp_all add: c_tolower_def char_of_def bit_0)

lemma lookup_request:
  assumes "map c_tolower name = req_name req"
  shows "\<exists>arity. lookupCommand tab name = Some (req_name req, req_proc req, arity) \<and> arity_ok arity (length (name # req_args req))"
  using assms
  unfolding lookupCommand_def redisCommandTable_def append_Cons find.simps case_prod_conv lower_SETIR lower_names
  by (cases req) (simp_all add: arity_ok_def)

lemma lower_NUL: "NUL \<notin> set (map c_tolower name) \<Longrightarrow> cstr name = name"
proof -
  have "c_tolower NUL = NUL"
    by (simp add: c_tolower_def)
  then show "NUL \<notin> set (map c_tolower name) \<Longrightarrow> cstr name = name"
    by (intro cstr_id) (metis image_eqI list.set_map)
qed

lemma not_quit:
  assumes "map c_tolower name = req_name req"
  shows "\<not> c_strcaseeq name ''quit''"
proof -
  have "NUL \<notin> set (req_name req)" "req_name req \<noteq> ''quit''"
    by (cases req; simp)+
  moreover have "map c_tolower ''quit'' = ''quit''" "cstr ''quit'' = ''quit''"
    by (simp_all add: c_tolower_def char_of_def bit_0)
  ultimately show ?thesis
    using assms lower_NUL [of name] by (simp only: c_strcaseeq_def) simp
qed

lemma processCommand_request:
  assumes "sends c name req"
  shows "\<exists>c1. requests c1 name req \<and> cl_reply c1 = cl_reply c \<and> cl_fake c1 = cl_fake c \<and>
           processCommand E tm c s = map_option (\<lambda>(c', s'). (C_OK, c', s')) (call E True tm c1 s)"
proof -
  let ?c = "c\<lparr>cl_cmd := req_proc req, cl_cmd_name := req_name req\<rparr>"
  have low: "map c_tolower name = req_name req" and args: "has_args c (name # req_args req)"
    using assms by (auto simp: sends_def)
  have "length name < 20"
    using arg_cong [OF low, of length] by (cases req) auto
  then have "requests ?c name req"
    using assms by (auto simp: requests_def sends_def has_args_def)
  moreover have "cl_key 0 c = Some name"
    using cl_key_nth [OF args, of 0] by simp
  ultimately show ?thesis
    using lookup_request [OF low, of "en_table E"] not_quit [OF low] has_args_length [OF args]
    by (intro exI [of _ ?c]) (auto simp: processCommand_def map_option_case split: option.splits)
qed

end
