(* ===== verification/Recovery.thy ===== *)
theory Recovery
  imports Server_Call
begin

text \<open>
  The incremental recovery (\<open>loadDBFromIndexedLog\<close> of \<^verbatim>\<open>src/src/instant_recovery.c\<close>), which a thread of
  its own runs while the server already answers clients.  The thread is a machine whose places are
  the heads of the loops and the two statements between which a client can come; \<open>loader_step\<close> runs it
  from one place to the next, and \<open>loadDBFromIndexedLog\<close> is the run of the thread alone.  The
  connection to the server, through which the thread sends \<^verbatim>\<open>setIR\<close>, always works; the information
  that is displayed and the times are not represented.  \<open>indexer_threads\<close> counts how often the
  indexer and the checkpoint threads are created.

  The laws: the thread ends; alone, it makes the key space exactly what the index stands for; and
  whatever requests come between its steps, each gets the reply of a server whose key space had
  been recovered completely before the first of them.
\<close>

section \<open>The thread\<close>

record 'c loader =
  ld_cursor :: 'c
  ld_found :: bool
  ld_data :: string
  current_key :: string
  old_key :: string
  commandIR :: string
  keyIR :: string
  valueIR :: string
  count_records :: nat
  count_tuples_loaded :: nat
  count_inconsistent_load :: nat

text \<open>The outer loop, the loop that skips restored keys, the loop over the records of a key, the \<^verbatim>\<open>setIR\<close>,
  the statement after it (with the reply), the end of the loops, the end of the recovery, and the
  end of the thread.\<close>

datatype place = L_while | L_skip | L_collect | L_setIR | L_mark reply | L_end | L_off | L_done

definition start_indexing :: "string \<Rightarrow> 'db ir_server \<Rightarrow> 'db ir_server" where
  "start_indexing moment s =
     (if \<not> instant_recovery_synchronous s \<and> c_streq (starts_log_indexing s) moment
      then s\<lparr>indexer_threads := indexer_threads s + 1\<rparr> else s)"

text \<open>From the start of the thread to the outer loop.\<close>

definition loader_start :: "('db, 'c) env \<Rightarrow> 'db ir_server \<Rightarrow> ('db \<times> 'c loader \<times> 'db ir_server) option" where
  "loader_start E s =
     do {
       let s = s\<lparr>instant_recovery_performing := True\<rparr>;
       (opened, dk) \<leftarrow> openIndexedLog (en_empty E) (indexedlog_filename (ir_cfg s)) (CHR ''W'') (ir_disk s);
       dbp \<leftarrow> opened;
       let s = start_indexing ''B'' (s\<lparr>ir_disk := dk\<rparr>);
       let cursorp = bdb_cursor (en_bdb E) dbp;
       let (found, key, data, cursorp) =
         (case bdb_cget (en_bdb E) dbp cursorp DB_NEXT of
            None \<Rightarrow> (False, [], [], cursorp)
          | Some ((key, data), cursorp) \<Rightarrow> (True, key, data, cursorp));
       Some (dbp, \<lparr>ld_cursor = cursorp, ld_found = found, ld_data = data, current_key = sdsnew key, old_key = [],
                   commandIR = [], keyIR = [], valueIR = ''0'', count_records = 0, count_tuples_loaded = 0,
                   count_inconsistent_load = 0\<rparr>, s)
     }"

text \<open>\<^verbatim>\<open>cursorp->get\<close> with the update of \<open>current_key\<close>.\<close>

definition loader_get :: "('db, 'c) env \<Rightarrow> 'db \<Rightarrow> db_op \<Rightarrow> 'c loader \<Rightarrow> 'c loader" where
  "loader_get E dbp opn ld =
     (case bdb_cget (en_bdb E) dbp (ld_cursor ld) opn of
        None \<Rightarrow> ld\<lparr>ld_found := False\<rparr>
      | Some ((key, data), cursorp) \<Rightarrow>
          ld\<lparr>ld_cursor := cursorp, ld_data := data, current_key := sdsnew key\<rparr>)"

text \<open>A log record; unlike the recovery on demand, an \<^verbatim>\<open>INCR\<close> leaves \<^verbatim>\<open>SET\<close> in \<open>commandIR\<close>.\<close>

definition loader_record :: "'c loader \<Rightarrow> 'c loader option" where
  "loader_record ld =
     do {
       ls \<leftarrow> sdssplitlen (sdsnew (ld_data ld)) ''\<newline>'';
       command \<leftarrow> log_line 2 ls;
       let commandIR = sdstoupper command;
       if c_streq commandIR ''SET''
       then do { v \<leftarrow> log_line 6 ls; Some (ld\<lparr>commandIR := commandIR, keyIR := sdsnew (current_key ld), valueIR := v\<rparr>) }
       else if c_streq commandIR ''INCR''
       then Some (ld\<lparr>commandIR := ''SET'', keyIR := sdsnew (current_key ld),
                     valueIR := show_int (to_int32 (c_atoi (valueIR ld) + 1))\<rparr>)
       else Some (ld\<lparr>commandIR := commandIR\<rparr>)
     }"

text \<open>The connection: \<^verbatim>\<open>redisCommand(redisConnection, "setIR %s %s", keyIR, valueIR)\<close>.\<close>

definition setIR_client :: "string \<Rightarrow> string \<Rightarrow> client" where
  "setIR_client key val =
     \<lparr>cl_argv = map createStringObject [''setIR'', cstr key, cstr val], cl_cmd = SetIRCommand, cl_cmd_name = [],
      cl_fake = False, cl_reply = []\<rparr>"

text \<open>\<^verbatim>\<open>reply->str\<close> is not null: a status, an error or a string.\<close>

fun reply_str :: "reply \<Rightarrow> bool" where
  "reply_str R_nullbulk = False"
| "reply_str R_czero = False"
| "reply_str R_cone = False"
| "reply_str (R_longlong n) = False"
| "reply_str (R_multibulklen n) = False"
| "reply_str _ = True"

fun loader_step :: "('db, 'c) env \<Rightarrow> 'db \<Rightarrow> place \<times> 'c loader \<times> 'db ir_server \<Rightarrow> (place \<times> 'c loader \<times> 'db ir_server) option" where
  "loader_step E dbp (L_while, ld, s) =
     (if ld_found ld \<and> \<not> instant_recovery_performing_stop s then Some (L_skip, ld\<lparr>valueIR := ''0''\<rparr>, s)
      else Some (L_end, ld, s))"
| "loader_step E dbp (L_skip, ld, s) =
     (if isRestoredTuple (current_key ld) s
      then let ld = loader_get E dbp DB_NEXT_NODUP (ld\<lparr>count_records := count_records ld + 1\<rparr>) in
           if ld_found ld then Some (L_skip, ld, s) else Some (L_end, ld, s)
      else Some (L_collect, ld\<lparr>old_key := sdsnew (current_key ld)\<rparr>, s))"
| "loader_step E dbp (L_collect, ld, s) =
     (if current_key ld \<noteq> old_key ld then Some (L_setIR, ld\<lparr>old_key := sdsnew (current_key ld)\<rparr>, s)
      else do {
        ld \<leftarrow> loader_record (ld\<lparr>count_records := count_records ld + 1\<rparr>);
        let ld = loader_get E dbp DB_NEXT ld;
        Some (if ld_found ld then L_collect else L_setIR, ld, s)
      })"
| "loader_step E dbp (L_setIR, ld, s) =
     (let ld = ld\<lparr>commandIR := sdstoupper (commandIR ld)\<rparr> in
      if c_streq (commandIR ld) ''SET''
      then do {
        (_, c, s) \<leftarrow> processCommand E (0, 0, 0) (setIR_client (keyIR ld) (valueIR ld)) s;
        (case cl_reply c of [] \<Rightarrow> None | r # _ \<Rightarrow> Some (L_mark r, ld, s))
      }
      else Some (L_while, ld, s))"
| "loader_step E dbp (L_mark r, ld, s) =
     (let s = addRestoredTuple (keyIR ld) s in
      if reply_str r
      then let ld = ld\<lparr>count_tuples_loaded := count_tuples_loaded ld + 1\<rparr> in
           Some (L_while, ld, s\<lparr>count_tuples_loaded_incr := count_tuples_loaded ld\<rparr>)
      else Some (L_while, ld\<lparr>count_inconsistent_load := count_inconsistent_load ld + 1\<rparr>, s))"
| "loader_step E dbp (L_end, ld, s) =
     Some (L_off, ld, clearHashRestoredTuples (s\<lparr>count_tuples_loaded_incr := count_tuples_loaded ld,
                                                count_inconsistent_load_incr := count_inconsistent_load ld\<rparr>))"
| "loader_step E dbp (L_off, ld, s) =
     Some (L_done, ld, (start_indexing ''A'' s)\<lparr>instant_recovery_performing := False\<rparr>)"
| "loader_step E dbp (L_done, ld, s) = None"

partial_function (option) loader_run :: "('db, 'c) env \<Rightarrow> 'db \<Rightarrow> place \<times> 'c loader \<times> 'db ir_server \<Rightarrow> ('c loader \<times> 'db ir_server) option" where
  "loader_run E dbp x =
     (if fst x = L_done then Some (snd x)
      else case loader_step E dbp x of None \<Rightarrow> None | Some x \<Rightarrow> loader_run E dbp x)"

text \<open>The whole thread; the result is the number of records read.\<close>

definition loadDBFromIndexedLog :: "('db, 'c) env \<Rightarrow> 'db ir_server \<Rightarrow> (nat \<times> 'db ir_server) option" where
  "loadDBFromIndexedLog E s =
     do {
       (dbp, ld, s) \<leftarrow> loader_start E s;
       (ld, s) \<leftarrow> loader_run E dbp (L_while, ld, s);
       Some (count_records ld, s)
     }"

definition stop_loadDBFromIndexedLog :: "'db ir_server \<Rightarrow> 'db ir_server" where
  "stop_loadDBFromIndexedLog s = s\<lparr>instant_recovery_performing_stop := True\<rparr>"

section \<open>The cursor of the thread\<close>

text \<open>The keys of the index are texts with their final zero byte.\<close>

definition keyed :: "(string \<times> string) list \<Rightarrow> bool" where
  "keyed rs \<longleftrightarrow> (\<forall>p \<in> set rs. \<exists>k. fst p = dbt k)"

lemma good_index_keyed: "good_index (index_records recs) db \<Longrightarrow> keyed (recs db)"
proof -
  assume good: "good_index (index_records recs) db"
  have "\<exists>k. fst p = dbt k" if "p \<in> set (recs db)" for p
  proof
    have "index_records recs db (fst p) \<noteq> []"
      using that by (simp add: index_records_def dups_eq_Nil)
    then show "fst p = dbt (fst p)"
      using good unfolding good_index_def by (metis (no_types))
  qed
  then show "keyed (recs db)"
    unfolding keyed_def by blast
qed

text \<open>The records the thread has not read yet, the one it holds included.\<close>

definition ahead :: "('db \<Rightarrow> 'c \<Rightarrow> (string \<times> string) list) \<Rightarrow> 'db \<Rightarrow> 'c loader \<Rightarrow> (string \<times> string) list" where
  "ahead rest db ld = (if ld_found ld then (dbt (current_key ld), ld_data ld) # rest db (ld_cursor ld) else [])"

definition at_cursor :: "('c \<Rightarrow> string option) \<Rightarrow> 'c loader \<Rightarrow> bool" where
  "at_cursor cur ld \<longleftrightarrow> (ld_found ld \<longrightarrow> cur (ld_cursor ld) = Some (dbt (current_key ld)) \<and> NUL \<notin> set (current_key ld))"

lemma dbt_eq_id: "NUL \<notin> set a \<Longrightarrow> NUL \<notin> set b \<Longrightarrow> dbt a = dbt b \<longleftrightarrow> a = b"
  by simp

lemma grouped_cut:
  assumes "grouped (g @ xs)" and "g \<noteq> []" and "\<forall>p \<in> set g. fst p = k" and "xs = [] \<or> fst (hd xs) \<noteq> k"
  shows "k \<notin> fst ` set xs"
  using assms
proof (induction g)
  case (Cons p g)
  show ?case
  proof (cases "g = []")
    case True
    then have "dropWhile (\<lambda>q. fst q = k) xs = xs"
      using Cons.prems(4) by (cases xs) auto
    with True Cons.prems show ?thesis by auto
  next
    case False
    with Cons show ?thesis by auto
  qed
qed simp

context berkeley_db
begin

lemma loader_get_eq:
  assumes "en_bdb E = B" and "keyed (recs db)"
    and "(case cursor_next (cur (ld_cursor ld)) (rest db (ld_cursor ld)) opn (recs db) of
            None \<Rightarrow> xs = [] | Some (p, r) \<Rightarrow> xs = p # r \<and> p \<in> set (recs db))" and "ld_found ld"
  shows "\<exists>c b d k. loader_get E db opn ld = ld\<lparr>ld_cursor := c, ld_found := b, ld_data := d, current_key := k\<rparr> \<and>
           ahead rest db (loader_get E db opn ld) = xs \<and> at_cursor cur (loader_get E db opn ld)"
proof (cases xs)
  case Nil
  then have "bdb_cget B db (ld_cursor ld) opn = None"
    using assms(3) cget_none [of db "ld_cursor ld" opn] by (auto split: option.splits)
  then have "loader_get E db opn ld = ld\<lparr>ld_found := False\<rparr>"
    using assms(1) by (simp add: loader_get_def)
  with Nil show ?thesis
    by (intro exI [of _ "ld_cursor ld"] exI [of _ False] exI [of _ "ld_data ld"] exI [of _ "current_key ld"])
      (simp add: ahead_def at_cursor_def)
next
  case (Cons p r)
  then have next_p: "cursor_next (cur (ld_cursor ld)) (rest db (ld_cursor ld)) opn (recs db) = Some (p, r)" "p \<in> set (recs db)"
    using assms(3) by (auto split: option.splits)
  then obtain c' where c': "bdb_cget B db (ld_cursor ld) opn = Some (p, c')" "rest db c' = r" "cur c' = Some (fst p)"
    using cgetE by blast
  let ?ld = "ld\<lparr>ld_cursor := c', ld_found := True, ld_data := snd p, current_key := cstr (fst p)\<rparr>"
  have p: "fst p = dbt (cstr (fst p))"
    using assms(2) next_p(2) by (fastforce simp: keyed_def)
  have "loader_get E db opn ld = ?ld"
    using assms(1,4) c'(1) by (cases p) (simp add: loader_get_def sdsnew_def)
  moreover have "ahead rest db ?ld = xs" "at_cursor cur ?ld"
    using c' p Cons by (simp_all add: ahead_def at_cursor_def prod_eq_iff)
  ultimately show ?thesis
    by (intro exI [of _ c'] exI [of _ True] exI [of _ "snd p"] exI [of _ "cstr (fst p)"]) simp
qed

end
context berkeley_db
begin

lemma loader_next:
  assumes "en_bdb E = B" and "keyed (recs db)" and "recs db = pre @ ahead rest db ld" and "ld_found ld"
  shows "\<exists>c b d k. loader_get E db DB_NEXT ld = ld\<lparr>ld_cursor := c, ld_found := b, ld_data := d, current_key := k\<rparr> \<and>
           ahead rest db (loader_get E db DB_NEXT ld) = tl (ahead rest db ld) \<and> at_cursor cur (loader_get E db DB_NEXT ld)"
proof -
  have tl: "tl (ahead rest db ld) = rest db (ld_cursor ld)" and sub: "set (rest db (ld_cursor ld)) \<subseteq> set (recs db)"
    using assms(3,4) by (auto simp: ahead_def)
  show ?thesis
    unfolding tl
    by (rule loader_get_eq [OF assms(1,2) _ assms(4)]) (use sub in \<open>cases "rest db (ld_cursor ld)"; simp\<close>)
qed

lemma loader_nodup:
  assumes "en_bdb E = B" and "keyed (recs db)" and "recs db = pre @ ahead rest db ld" and "ld_found ld" and "at_cursor cur ld"
  shows "\<exists>c b d k. loader_get E db DB_NEXT_NODUP ld = ld\<lparr>ld_cursor := c, ld_found := b, ld_data := d, current_key := k\<rparr> \<and>
           ahead rest db (loader_get E db DB_NEXT_NODUP ld) =
             dropWhile (\<lambda>p. fst p = dbt (current_key ld)) (ahead rest db ld) \<and>
           at_cursor cur (loader_get E db DB_NEXT_NODUP ld)"
proof -
  define ys where "ys = dropWhile (\<lambda>p. fst p = dbt (current_key ld)) (ahead rest db ld)"
  have "set ys \<subseteq> set (recs db)"
    using assms(3) set_dropWhileD by (fastforce simp: ys_def)
  moreover have "dropWhile (\<lambda>p. Some (fst p) = cur (ld_cursor ld)) (rest db (ld_cursor ld)) = ys"
    using assms(4,5) by (simp add: ahead_def at_cursor_def ys_def)
  ultimately show ?thesis
    unfolding ys_def [symmetric]
    by (intro loader_get_eq [OF assms(1,2) _ assms(4)]) (cases ys; simp del: dropWhile_eq_Nil_conv)
qed

end

section \<open>The state between two steps\<close>

text \<open>The thread holds the first record of a key, and the keys \<open>U\<close> that are still to be recovered are ahead.\<close>

definition boundary :: "('db \<Rightarrow> (string \<times> string) list) \<Rightarrow> ('db \<Rightarrow> 'c \<Rightarrow> (string \<times> string) list) \<Rightarrow> 'db \<Rightarrow>
    string set \<Rightarrow> 'c loader \<Rightarrow> bool" where
  "boundary recs rest db U ld \<longleftrightarrow>
     (\<exists>pre. recs db = pre @ ahead rest db ld \<and> fst ` set pre \<inter> fst ` set (ahead rest db ld) = {} \<and>
            (\<forall>k \<in> U. dbt k \<in> fst ` set (ahead rest db ld)))"

text \<open>The thread has applied the records \<open>g\<close> of \<open>old_key\<close>.\<close>

definition collecting :: "('db \<Rightarrow> (string \<times> string) list) \<Rightarrow> ('db \<Rightarrow> 'c \<Rightarrow> (string \<times> string) list) \<Rightarrow> 'db \<Rightarrow>
    string set \<Rightarrow> 'c loader \<Rightarrow> bool" where
  "collecting recs rest db U ld \<longleftrightarrow>
     (\<exists>pre g c. recs db = pre @ g @ ahead rest db ld \<and>
            fst ` set pre \<inter> fst ` set (g @ ahead rest db ld) = {} \<and>
            (\<forall>p \<in> set g. fst p = dbt (old_key ld)) \<and> NUL \<notin> set (old_key ld) \<and>
            (g = [] \<longrightarrow> ld_found ld \<and> current_key ld = old_key ld) \<and>
            replay_records (map snd g) ([], ''0'') = Some (c, valueIR ld) \<and>
            (g \<noteq> [] \<longrightarrow> commandIR ld = (if c = ''INCR'' then ''SET'' else c)) \<and>
            (g \<noteq> [] \<and> commandIR ld = ''SET'' \<longrightarrow> keyIR ld = old_key ld) \<and>
            (\<forall>k \<in> U. dbt k \<in> fst ` set (g @ ahead rest db ld)))"

fun loader_inv :: "('db \<Rightarrow> (string \<times> string) list) \<Rightarrow> ('db \<Rightarrow> 'c \<Rightarrow> (string \<times> string) list) \<Rightarrow> ('c \<Rightarrow> string option) \<Rightarrow>
    kv \<Rightarrow> 'db \<Rightarrow> string set \<Rightarrow> bool \<Rightarrow> place \<Rightarrow> 'c loader \<Rightarrow> bool" where
  "loader_inv recs rest cur kv db U stop L_while ld \<longleftrightarrow> at_cursor cur ld \<and> boundary recs rest db U ld"
| "loader_inv recs rest cur kv db U stop L_skip ld \<longleftrightarrow>
     at_cursor cur ld \<and> ld_found ld \<and> boundary recs rest db U ld \<and> valueIR ld = ''0''"
| "loader_inv recs rest cur kv db U stop L_collect ld \<longleftrightarrow>
     at_cursor cur ld \<and> ld_found ld \<and> collecting recs rest db U ld"
| "loader_inv recs rest cur kv db U stop L_setIR ld \<longleftrightarrow>
     at_cursor cur ld \<and> boundary recs rest db (U - {keyIR ld}) ld \<and> commandIR ld = ''SET'' \<and> kv (keyIR ld) = Some (valueIR ld)"
| "loader_inv recs rest cur kv db U stop (L_mark r) ld \<longleftrightarrow>
     at_cursor cur ld \<and> boundary recs rest db U ld \<and> keyIR ld \<notin> U \<and> NUL \<notin> set (keyIR ld)"
| "loader_inv recs rest cur kv db U stop L_end ld \<longleftrightarrow> stop \<or> U = {}"
| "loader_inv recs rest cur kv db U stop L_off ld \<longleftrightarrow> stop \<or> U = {}"
| "loader_inv recs rest cur kv db U stop L_done ld \<longleftrightarrow> stop \<or> U = {}"

lemma boundary_mono: "boundary recs rest db U ld \<Longrightarrow> U' \<subseteq> U \<Longrightarrow> boundary recs rest db U' ld"
  unfolding boundary_def by (elim exE conjE, intro exI conjI) (assumption, assumption, blast)

lemma collecting_mono: "collecting recs rest db U ld \<Longrightarrow> U' \<subseteq> U \<Longrightarrow> collecting recs rest db U' ld"
  unfolding collecting_def by (elim exE conjE, intro exI conjI) (assumption+, blast)

lemma loader_inv_mono:
  "loader_inv recs rest cur kv db U stop p ld \<Longrightarrow> U' \<subseteq> U \<Longrightarrow> loader_inv recs rest cur kv db U' stop p ld"
  by (cases p) (auto intro: boundary_mono collecting_mono)

lemma boundary_cong:
  "ahead rest db ld' = ahead rest db ld \<Longrightarrow> boundary recs rest db U ld' = boundary recs rest db U ld"
  by (simp add: boundary_def)

text \<open>All records of a key have been applied.\<close>

lemma group_end:
  assumes "recs db = pre @ g @ xs" and "fst ` set pre \<inter> fst ` set (g @ xs) = {}"
    and "\<forall>p \<in> set g. fst p = dbt k" and "g \<noteq> []" and "xs = [] \<or> fst (hd xs) \<noteq> dbt k" and "NUL \<notin> set k"
    and "grouped (recs db)" and "good_index (index_records recs) db"
    and "replay_records (map snd g) ([], ''0'') = Some (c, v)"
  shows "kv_of (index_records recs) db k = Some v" and "c = ''SET'' \<or> c = ''INCR''" and "dbt k \<notin> fst ` set xs"
    and "fst ` set (pre @ g) \<inter> fst ` set xs = {}"
proof -
  have "grouped (g @ xs)"
    using grouped_drop [of pre "g @ xs"] assms(1,7) by simp
  then show xs: "dbt k \<notin> fst ` set xs"
    using grouped_cut assms(3-5) by blast
  have g: "fst ` set g = {dbt k}"
    using assms(3,4) by (cases g) auto
  have "fst ` set pre \<inter> fst ` set xs = {}" "fst ` set pre \<inter> fst ` set g = {}"
    using assms(2) by (simp_all add: image_Un Int_Un_distrib)
  then show "fst ` set (pre @ g) \<inter> fst ` set xs = {}"
    using xs g by (simp add: image_Un Int_Un_distrib2)
  have "filter (\<lambda>p. fst p = dbt k) g = g"
    using assms(3) by simp
  then have "dups (dbt k) g = map snd g"
    by (simp add: dups_def)
  moreover have "dups (dbt k) pre = []" "dups (dbt k) xs = []"
    using assms(2) xs g by (simp_all add: dups_eq_Nil image_Un)
  ultimately have dups: "dups (dbt k) (recs db) = map snd g"
    using assms(1) by simp
  then show "kv_of (index_records recs) db k = Some v"
    using assms(4,6,9) replay_records_cstr [of "map snd g"]
    by (simp add: kv_of_def replayed_def index_records_def del: map_map)
  have "good_records (map cstr (map snd g))"
    using assms(8) dups by (metis good_index_def index_records_def)
  then show "c = ''SET'' \<or> c = ''INCR''"
    using assms(4,9) replay_records_cstr [of "map snd g"] by (auto simp: good_records_def simp del: map_map)
qed

section \<open>The key space to be\<close>

text \<open>The keys whose recovery is still due, and the key space when all of them are recovered.\<close>

definition missing :: "kv \<Rightarrow> (string \<Rightarrow> robj option) \<Rightarrow> string set" where
  "missing kv d = {k. kv k \<noteq> None \<and> d k = None}"

definition virtual :: "kv \<Rightarrow> (string \<Rightarrow> robj option) \<Rightarrow> (string \<Rightarrow> robj option)" where
  "virtual kv d = (map_option encoded \<circ> kv) ++ d"

lemma virtual_complete: "missing kv d = {} \<Longrightarrow> virtual kv d = d"
  by (auto simp: missing_def virtual_def map_add_def fun_eq_iff split: option.splits)

lemma virtual_at: "k \<notin> missing kv d \<Longrightarrow> virtual kv d k = d k"
  by (auto simp: missing_def virtual_def map_add_def split: option.splits)

lemma virtual_on_demand:
  "virtual kv (on_demand kv k d) = virtual kv d" "missing kv (on_demand kv k d) = missing kv d - {k}"
  by (auto simp: virtual_def on_demand_def missing_def map_add_def fun_eq_iff split: option.splits)

lemma req_effect_virtual:
  assumes "req_key req \<notin> missing kv d"
  shows "fst (req_effect req d) = fst (req_effect req (virtual kv d))"
    and "virtual kv (snd (req_effect req d)) = snd (req_effect req (virtual kv d))"
    and "missing kv (snd (req_effect req d)) \<subseteq> missing kv d"
proof -
  note at = virtual_at [OF assms]
  show "fst (req_effect req d) = fst (req_effect req (virtual kv d))"
    using at by (cases req) (auto split: option.splits)
  show "virtual kv (snd (req_effect req d)) = snd (req_effect req (virtual kv d))"
    using at by (cases req) (auto simp: virtual_def split: option.splits)
  show "missing kv (snd (req_effect req d)) \<subseteq> missing kv d"
    by (cases req) (auto simp: missing_def split: option.splits if_splits)
qed

section \<open>The steps of the thread\<close>

definition recovery_inv :: "('db \<Rightarrow> (string \<times> string) list) \<Rightarrow> ('db \<Rightarrow> 'c \<Rightarrow> (string \<times> string) list) \<Rightarrow> ('c \<Rightarrow> string option) \<Rightarrow>
    kv \<Rightarrow> 'db \<Rightarrow> place \<times> 'c loader \<times> 'db ir_server \<Rightarrow> bool" where
  "recovery_inv recs rest cur kv db x \<longleftrightarrow>
     (case x of (p, ld, s) \<Rightarrow>
        recovering recs kv s \<and> index_of s = Some db \<and> keyed (recs db) \<and> instant_recovery_state s \<and>
        (p \<noteq> L_done \<longleftrightarrow> instant_recovery_performing s) \<and>
        set (hash_restored_tuples s) \<inter> missing kv (db_dict (sv_redis s)) = {} \<and>
        loader_inv recs rest cur kv db (missing kv (db_dict (sv_redis s))) (instant_recovery_performing_stop s) p ld)"

fun place_rank :: "place \<Rightarrow> 'c loader \<Rightarrow> nat" where
  "place_rank L_collect ld = (if current_key ld = old_key ld then 3 else 8)"
| "place_rank L_setIR ld = 7"
| "place_rank (L_mark r) ld = 6"
| "place_rank L_while ld = 5"
| "place_rank L_skip ld = 4"
| "place_rank L_end ld = 2"
| "place_rank L_off ld = 1"
| "place_rank L_done ld = 0"

definition loader_measure :: "('db \<Rightarrow> 'c \<Rightarrow> (string \<times> string) list) \<Rightarrow> 'db \<Rightarrow> place \<times> 'c loader \<times> 'db ir_server \<Rightarrow> nat" where
  "loader_measure rest db x = (case x of (p, ld, s) \<Rightarrow> 9 * length (ahead rest db ld) + place_rank p ld)"

lemma ahead_update [simp]:
  "ahead rest db (ld\<lparr>valueIR := a\<rparr>) = ahead rest db ld" "ahead rest db (ld\<lparr>old_key := a\<rparr>) = ahead rest db ld"
  "ahead rest db (ld\<lparr>commandIR := a\<rparr>) = ahead rest db ld" "ahead rest db (ld\<lparr>keyIR := a\<rparr>) = ahead rest db ld"
  "ahead rest db (ld\<lparr>count_records := n\<rparr>) = ahead rest db ld"
  "ahead rest db (ld\<lparr>count_tuples_loaded := n\<rparr>) = ahead rest db ld"
  "ahead rest db (ld\<lparr>count_inconsistent_load := n\<rparr>) = ahead rest db ld"
  by (simp_all add: ahead_def)

lemma at_cursor_update [simp]:
  "at_cursor cur (ld\<lparr>valueIR := a\<rparr>) = at_cursor cur ld" "at_cursor cur (ld\<lparr>old_key := a\<rparr>) = at_cursor cur ld"
  "at_cursor cur (ld\<lparr>commandIR := a\<rparr>) = at_cursor cur ld" "at_cursor cur (ld\<lparr>keyIR := a\<rparr>) = at_cursor cur ld"
  "at_cursor cur (ld\<lparr>count_records := n\<rparr>) = at_cursor cur ld"
  "at_cursor cur (ld\<lparr>count_tuples_loaded := n\<rparr>) = at_cursor cur ld"
  "at_cursor cur (ld\<lparr>count_inconsistent_load := n\<rparr>) = at_cursor cur ld"
  by (simp_all add: at_cursor_def)

lemma boundary_update [simp]:
  "boundary recs rest db U (ld\<lparr>valueIR := a\<rparr>) = boundary recs rest db U ld"
  "boundary recs rest db U (ld\<lparr>old_key := a\<rparr>) = boundary recs rest db U ld"
  "boundary recs rest db U (ld\<lparr>commandIR := a\<rparr>) = boundary recs rest db U ld"
  "boundary recs rest db U (ld\<lparr>count_tuples_loaded := n\<rparr>) = boundary recs rest db U ld"
  "boundary recs rest db U (ld\<lparr>count_inconsistent_load := n\<rparr>) = boundary recs rest db U ld"
  by (simp_all add: boundary_def)

lemma loader_record_eq:
  assumes "replay_record (ld_data ld) (c, valueIR ld) = Some (c', v)"
  shows "\<exists>k. loader_record ld = Some (ld\<lparr>commandIR := if c' = ''INCR'' then ''SET'' else c', keyIR := k, valueIR := v\<rparr>) \<and>
           (c' = ''SET'' \<or> c' = ''INCR'' \<longrightarrow> k = cstr (current_key ld))"
proof -
  obtain ls command where ls: "sdssplitlen (sdsnew (ld_data ld)) ''\<newline>'' = Some ls" "log_line 2 ls = Some command"
      "c' = sdstoupper command"
    using assms by (auto simp: replay_record_def Let_def split: option.splits if_splits)
  then have "NUL \<notin> set c'"
    by (auto simp: log_line_def sdsnew_def split: if_splits)
  then have eq: "c_streq c' ''SET'' \<longleftrightarrow> c' = ''SET''" "c_streq c' ''INCR'' \<longleftrightarrow> c' = ''INCR''"
    by (simp_all add: c_streq_def)
  have rec: "(if c' = ''SET'' then map_option (\<lambda>v. (c', v)) (log_line 6 ls)
              else if c' = ''INCR'' then Some (c', show_int (to_int32 (c_atoi (valueIR ld) + 1)))
              else Some (c', valueIR ld)) = Some (c', v)"
    using assms ls eq by (auto simp: replay_record_def Let_def split: if_splits)
  consider "c' = ''SET''" | "c' = ''INCR''" | "c' \<noteq> ''SET''" "c' \<noteq> ''INCR''" by blast
  then show ?thesis
  proof cases
    case 1
    with ls rec eq show ?thesis
      by (intro exI [of _ "cstr (current_key ld)"]) (auto simp: loader_record_def sdsnew_def)
  next
    case 2
    with ls rec eq show ?thesis
      by (intro exI [of _ "cstr (current_key ld)"]) (auto simp: loader_record_def sdsnew_def)
  next
    case 3
    with ls rec eq show ?thesis
      by (intro exI [of _ "keyIR ld"]) (auto simp: loader_record_def)
  qed
qed

lemma setIR_run:
  assumes "has_args c [cmd, key, v]" and "persistent r" and "\<not> cl_fake c"
  shows "\<exists>c'. setIRCommand c r = Some (c', restore_key key v r) \<and>
           cl_reply c' = cl_reply c @ [if db_dict r key = None then R_ok else R_nullbulk] \<and> cl_cmd_name c' = cl_cmd_name c"
  using setIR_eq [OF assms(1), of r] assms(2,3)
  by (auto simp: persistent_def restore_key_def addReply_def)

lemma call_setIR:
  assumes "persistent (sv_redis s)" and "small v" and "NUL \<notin> set key" and "NUL \<notin> set v"
  shows "\<exists>c' r'. processCommand E tm (setIR_client key v) s =
             Some (C_OK, c', s\<lparr>sv_redis := r', stat_numcommands := stat_numcommands s + 1\<rparr>) \<and>
           cl_reply c' = [if db_dict (sv_redis s) key = None then R_ok else R_nullbulk] \<and>
           db_dict r' = db_dict (restore_key key v (sv_redis s)) \<and> persistent r' \<and> same_aof (sv_redis s) r'"
proof -
  let ?r = "sv_redis s"
  let ?rb = "?r\<lparr>sv_fixed_time_expire := sv_fixed_time_expire ?r + 1, sv_mstime := sv_clock ?r\<rparr>"
  let ?c = "setIR_client key v\<lparr>cl_cmd := SetIRCommand, cl_cmd_name := ''setIR''\<rparr>"
  have args: "has_args ?c [''setIR'', key, v]"
    using assms(3,4) by (simp add: has_args_def setIR_client_def)
  have pers: "persistent ?rb"
    using assms(1) by (simp add: persistent_def wf_redis_def)
  have "\<not> cl_fake ?c"
    by (simp add: setIR_client_def)
  then obtain c' where run: "setIRCommand ?c ?rb = Some (c', restore_key key v ?rb)"
      "cl_reply c' = cl_reply ?c @ [if db_dict ?rb key = None then R_ok else R_nullbulk]" "cl_cmd_name c' = cl_cmd_name ?c"
    using setIR_run [OF args pers] by blast
  have "db_dict ?rb = db_dict ?r" "cl_reply ?c = []" "cl_cmd_name ?c = ''setIR''"
    by (simp_all add: setIR_client_def)
  then have c': "setIRCommand ?c ?rb = Some (c', restore_key key v ?rb)" "cl_cmd_name c' = ''setIR''"
      "cl_reply c' = [if db_dict ?r key = None then R_ok else R_nullbulk]"
    using run by (simp_all only: append_Nil)
  let ?r' = "(restore_key key v ?rb)\<lparr>sv_fixed_time_expire := sv_fixed_time_expire ?r\<rparr>"
  have "sv_fixed_time_expire (restore_key key v ?rb) = sv_fixed_time_expire ?r + 1"
    by (cases "db_dict ?r key") (simp_all add: restore_key_def)
  moreover have "cl_cmd_name ?c = ''setIR''" "cl_cmd ?c = SetIRCommand" "c_streq ''setIR'' ''setIR''"
    by (simp_all add: c_streq_def)
  ultimately have "call E True tm ?c s = Some (c', s\<lparr>sv_redis := ?r', stat_numcommands := stat_numcommands s + 1\<rparr>)"
    using c'(1,2) by (simp add: call_def recover_on_demand_def log_access_def propagate_def Let_def)
  moreover have "\<not> c_strcaseeq ''setIR'' ''quit''"
    by (simp add: c_strcaseeq_def lower_SETIR)
  moreover have "cl_key 0 (setIR_client key v) = Some ''setIR''"
    by (simp add: setIR_client_def cl_key_def arg_at_def)
  ultimately have "processCommand E tm (setIR_client key v) s =
      Some (C_OK, c', s\<lparr>sv_redis := ?r', stat_numcommands := stat_numcommands s + 1\<rparr>)"
    by (simp add: processCommand_def lookup_SETIR arity_ok_def) (simp add: setIR_client_def)
  moreover have same: "same_aof ?r ?r'" "db_dict ?r' = db_dict (restore_key key v ?r)" "db_expires ?r' = db_expires (restore_key key v ?r)"
    by (simp_all add: restore_key_def same_aof_def)
  moreover have "persistent ?r'"
    using persistent_restore [OF assms(1,2), of key] persistent_same [OF same(2,3)] by blast
  ultimately show ?thesis
    using c'(3) by blast
qed

lemma recovery_invI:
  assumes "recovery_inv recs rest cur kv db (p, ld, s)" and "same_recovery s s'" and "persistent (sv_redis s')"
    and "missing kv (db_dict (sv_redis s')) \<subseteq> missing kv (db_dict (sv_redis s))"
    and "set (hash_restored_tuples s') \<inter> missing kv (db_dict (sv_redis s')) = {}"
    and "p' = L_done \<longleftrightarrow> p = L_done"
    and "loader_inv recs rest cur kv db (missing kv (db_dict (sv_redis s'))) (instant_recovery_performing_stop s) p' ld'"
  shows "recovery_inv recs rest cur kv db (p', ld', s')"
  using assms recovering_same [of recs kv s s']
  by (auto simp: recovery_inv_def same_recovery_def index_of_def)

lemma recovery_inv_kv:
  assumes "recovery_inv recs rest cur kv db (p, ld, s)"
  shows "kv = kv_of (index_records recs) db" and "good_index (index_records recs) db" and "persistent (sv_redis s)"
    and "\<forall>k v. kv k = Some v \<longrightarrow> small v \<and> NUL \<notin> set k \<and> NUL \<notin> set v"
proof -
  have "\<exists>db'. index_of s = Some db' \<and> good_index (index_records recs) db' \<and> kv_of (index_records recs) db' = kv"
    and small: "\<forall>k v. kv k = Some v \<longrightarrow> small v" and db: "index_of s = Some db"
    using assms unfolding recovery_inv_def recovering_def serving_def prod.case by blast+
  then have kv: "kv_of (index_records recs) db = kv" and "good_index (index_records recs) db"
    by auto
  then show "kv = kv_of (index_records recs) db" "good_index (index_records recs) db"
    by simp_all
  show "persistent (sv_redis s)"
    using assms by (simp add: recovery_inv_def recovering_def serving_def)
  have "NUL \<notin> set k \<and> NUL \<notin> set v" if "kv k = Some v" for k v
    using that kv_of_no_NUL [of "index_records recs" db k v] unfolding kv [symmetric]
    by (auto simp: kv_of_def split: if_splits)
  with small show "\<forall>k v. kv k = Some v \<longrightarrow> small v \<and> NUL \<notin> set k \<and> NUL \<notin> set v"
    by blast
qed

text \<open>A step that leaves the server alone.\<close>

lemma loader_only:
  assumes "recovery_inv recs rest cur kv db (p, ld, s)"
    and "loader_inv recs rest cur kv db (missing kv (db_dict (sv_redis s))) (instant_recovery_performing_stop s) p' ld'"
    and "p' = L_done \<longleftrightarrow> p = L_done"
  shows "recovery_inv recs rest cur kv db (p', ld', s)"
  using assms(2,3) recovery_inv_kv(3) [OF assms(1)] assms(1)
  by (intro recovery_invI [OF assms(1)]) (auto simp: same_recovery_def recovery_inv_def)

definition progress :: "('db, 'c) env \<Rightarrow> ('db \<Rightarrow> (string \<times> string) list) \<Rightarrow> ('db \<Rightarrow> 'c \<Rightarrow> (string \<times> string) list) \<Rightarrow>
    ('c \<Rightarrow> string option) \<Rightarrow> kv \<Rightarrow> 'db \<Rightarrow> place \<times> 'c loader \<times> 'db ir_server \<Rightarrow> bool" where
  "progress E recs rest cur kv db x \<longleftrightarrow>
     (\<exists>y. loader_step E db x = Some y \<and> recovery_inv recs rest cur kv db y \<and>
          loader_measure rest db y < loader_measure rest db x \<and>
          virtual kv (db_dict (sv_redis (snd (snd y)))) = virtual kv (db_dict (sv_redis (snd (snd x)))) \<and>
          instant_recovery_performing_stop (snd (snd y)) = instant_recovery_performing_stop (snd (snd x)))"

lemma progress_while:
  assumes "recovery_inv recs rest cur kv db (L_while, ld, s)"
  shows "progress E recs rest cur kv db (L_while, ld, s)"
proof (cases "ld_found ld \<and> \<not> instant_recovery_performing_stop s")
  case True
  with assms have "recovery_inv recs rest cur kv db (L_skip, ld\<lparr>valueIR := ''0''\<rparr>, s)"
    by (intro loader_only [OF assms]) (auto simp: recovery_inv_def at_cursor_def)
  with True show ?thesis
    by (simp add: progress_def loader_measure_def)
next
  case False
  then have "instant_recovery_performing_stop s \<or> missing kv (db_dict (sv_redis s)) = {}"
    using assms by (auto simp: recovery_inv_def boundary_def ahead_def)
  then have "recovery_inv recs rest cur kv db (L_end, ld, s)"
    by (intro loader_only [OF assms]) auto
  with False show ?thesis
    by (auto simp: progress_def loader_measure_def)
qed

lemma progress_end:
  assumes "recovery_inv recs rest cur kv db (L_end, ld, s)"
  shows "progress E recs rest cur kv db (L_end, ld, s)"
proof -
  let ?s = "clearHashRestoredTuples (s\<lparr>count_tuples_loaded_incr := count_tuples_loaded ld,
                                       count_inconsistent_load_incr := count_inconsistent_load ld\<rparr>)"
  have "recovery_inv recs rest cur kv db (L_off, ld, ?s)"
    using recovery_inv_kv(3) [OF assms] assms
    by (intro recovery_invI [OF assms]) (auto simp: same_recovery_def clearHashRestoredTuples_def recovery_inv_def)
  then show ?thesis
    by (auto simp: progress_def loader_measure_def clearHashRestoredTuples_def)
qed

lemma progress_off:
  assumes "recovery_inv recs rest cur kv db (L_off, ld, s)"
  shows "progress E recs rest cur kv db (L_off, ld, s)"
  using assms
  by (auto simp: progress_def loader_measure_def start_indexing_def recovery_inv_def recovering_def serving_def index_of_def)

lemma progress_mark:
  assumes "recovery_inv recs rest cur kv db (L_mark r, ld, s)"
  shows "progress E recs rest cur kv db (L_mark r, ld, s)"
proof -
  have inv: "recovery_inv recs rest cur kv db (L_while, ld', s')"
    if "sv_redis s' = sv_redis s" "hash_restored_tuples s' = hash_restored_tuples s @ [cstr (keyIR ld)]" "same_recovery s s'"
      "ahead rest db ld' = ahead rest db ld" "at_cursor cur ld' = at_cursor cur ld" for ld' s'
    using recovery_inv_kv(3) [OF assms] assms that boundary_cong [OF that(4)]
    by (intro recovery_invI [OF assms]) (auto simp: recovery_inv_def)
  show ?thesis
    by (auto simp: progress_def loader_measure_def Let_def addRestoredTuple_def same_recovery_def intro!: inv)
qed

lemma progress_setIR:
  assumes "recovery_inv recs rest cur kv db (L_setIR, ld, s)"
  shows "progress E recs rest cur kv db (L_setIR, ld, s)"
proof -
  let ?d = "db_dict (sv_redis s)" and ?k = "keyIR ld" and ?v = "valueIR ld"
  have ld: "at_cursor cur ld" "boundary recs rest db (missing kv ?d - {?k}) ld" "commandIR ld = ''SET''" "kv ?k = Some ?v"
    and restored: "set (hash_restored_tuples s) \<inter> missing kv ?d = {}"
    using assms by (auto simp: recovery_inv_def)
  note kv = recovery_inv_kv [OF assms]
  have v: "small ?v" "NUL \<notin> set ?k" "NUL \<notin> set ?v"
    using kv(4) ld(4) by auto
  obtain c' r' where call: "processCommand E (0, 0, 0) (setIR_client ?k ?v) s =
        Some (C_OK, c', s\<lparr>sv_redis := r', stat_numcommands := stat_numcommands s + 1\<rparr>)"
      "cl_reply c' = [if ?d ?k = None then R_ok else R_nullbulk]" "db_dict r' = db_dict (restore_key ?k ?v (sv_redis s))"
      "persistent r'"
    using call_setIR [OF kv(3) v, of E "(0, 0, 0)"] by blast
  let ?s' = "s\<lparr>sv_redis := r', stat_numcommands := stat_numcommands s + 1\<rparr>"
  have r': "db_dict r' = on_demand kv ?k ?d"
    using call(3) ld(4) by (simp add: restore_key_def on_demand_def)
  have upper: "sdstoupper ''SET'' = ''SET''" "c_streq ''SET'' ''SET''"
    by (simp_all add: sdstoupper_def c_toupper_def c_streq_def)
  have "loader_step E db (L_setIR, ld, s) =
      Some (L_mark (if ?d ?k = None then R_ok else R_nullbulk), ld, ?s')"
    using ld(3) call(1,2) upper by (simp add: Let_def)
  moreover have "recovery_inv recs rest cur kv db (L_mark (if ?d ?k = None then R_ok else R_nullbulk), ld, ?s')"
    using call(4) r' ld(1,2) v(2) restored
    by (intro recovery_invI [OF assms]) (auto simp: same_recovery_def virtual_on_demand)
  ultimately show ?thesis
    using r' by (simp add: progress_def loader_measure_def virtual_on_demand)
qed

context berkeley_db
begin

lemma disjoint_shift:
  assumes "fst ` set xs \<inter> fst ` set (ys @ zs) = {}" and "\<forall>p \<in> set ys. fst p = k" and "k \<notin> fst ` set zs"
  shows "fst ` set (xs @ ys) \<inter> fst ` set zs = {}"
proof -
  have "fst ` set ys \<subseteq> {k}"
    using assms(2) by auto
  then show ?thesis
    using assms(1,3) by (simp add: image_Un) blast
qed

text \<open>The key is complete.\<close>

lemma collect_done:
  assumes "collecting recs rest db U ld" and "at_cursor cur ld" and "ld_found ld \<longrightarrow> current_key ld \<noteq> old_key ld"
    and "good_index (index_records recs) db" and "kv = kv_of (index_records recs) db"
    and "\<forall>k \<in> U. NUL \<notin> set k"
  shows "loader_inv recs rest cur kv db U stop L_setIR ld"
proof -
  obtain pre g c where col: "recs db = pre @ g @ ahead rest db ld" "fst ` set pre \<inter> fst ` set (g @ ahead rest db ld) = {}"
      "\<forall>p \<in> set g. fst p = dbt (old_key ld)" "NUL \<notin> set (old_key ld)"
      "g = [] \<longrightarrow> ld_found ld \<and> current_key ld = old_key ld"
      "replay_records (map snd g) ([], ''0'') = Some (c, valueIR ld)"
      "g \<noteq> [] \<longrightarrow> commandIR ld = (if c = ''INCR'' then ''SET'' else c)"
      "g \<noteq> [] \<and> commandIR ld = ''SET'' \<longrightarrow> keyIR ld = old_key ld"
      "\<forall>k \<in> U. dbt k \<in> fst ` set (g @ ahead rest db ld)"
    using assms(1) unfolding collecting_def by blast
  have g: "g \<noteq> []"
    using col(5) assms(3) by blast
  have hd: "ahead rest db ld = [] \<or> fst (hd (ahead rest db ld)) \<noteq> dbt (old_key ld)"
    using assms(2,3) col(4) by (auto simp: ahead_def at_cursor_def)
  note fin = group_end [OF col(1-3) g hd col(4) grouped_recs assms(4) col(6)]
  have vars: "commandIR ld = ''SET''" "keyIR ld = old_key ld"
    using fin(2) col(7,8) g by auto
  have "dbt k \<in> fst ` set (ahead rest db ld)" if "k \<in> U - {keyIR ld}" for k
  proof -
    have "dbt k \<noteq> dbt (old_key ld)"
      using that assms(6) col(4) vars(2) by auto
    then have "dbt k \<notin> fst ` set g"
      using col(3) by auto
    then show ?thesis
      using col(9) that by auto
  qed
  then have "boundary recs rest db (U - {keyIR ld}) ld"
    unfolding boundary_def using col(1) fin(4) by (intro exI [of _ "pre @ g"]) simp
  with fin(1) vars assms(2,5) show ?thesis by simp
qed

lemma progress_skip:
  assumes "en_bdb E = B" and "recovery_inv recs rest cur kv db (L_skip, ld, s)"
  shows "progress E recs rest cur kv db (L_skip, ld, s)"
proof (cases "isRestoredTuple (current_key ld) s")
  case False
  have ld: "at_cursor cur ld" "ld_found ld" "boundary recs rest db (missing kv (db_dict (sv_redis s))) ld" "valueIR ld = ''0''"
    using assms(2) by (auto simp: recovery_inv_def)
  have nul: "NUL \<notin> set (current_key ld)"
    using ld(1,2) by (simp add: at_cursor_def)
  from ld nul have "collecting recs rest db (missing kv (db_dict (sv_redis s))) (ld\<lparr>old_key := current_key ld\<rparr>)"
    unfolding collecting_def boundary_def
    by (elim exE conjE) (intro exI [of _ "[]"] exI; simp)
  then have "recovery_inv recs rest cur kv db (L_collect, ld\<lparr>old_key := current_key ld\<rparr>, s)"
    using ld by (intro loader_only [OF assms(2)]) (simp_all add: at_cursor_def)
  with False nul show ?thesis
    by (simp add: progress_def loader_measure_def sdsnew_def)
next
  case True
  let ?U = "missing kv (db_dict (sv_redis s))" and ?ld = "ld\<lparr>count_records := count_records ld + 1\<rparr>"
  let ?ld' = "loader_get E db DB_NEXT_NODUP ?ld"
  have ld: "at_cursor cur ld" "ld_found ld" "boundary recs rest db ?U ld" "valueIR ld = ''0''" "keyed (recs db)"
    and restored: "set (hash_restored_tuples s) \<inter> ?U = {}"
    using assms(2) by (auto simp: recovery_inv_def)
  obtain pre where pre: "recs db = pre @ ahead rest db ld" "fst ` set pre \<inter> fst ` set (ahead rest db ld) = {}"
      "\<forall>k \<in> ?U. dbt k \<in> fst ` set (ahead rest db ld)"
    using ld(3) by (auto simp: boundary_def)
  let ?k = "current_key ld" and ?xs = "ahead rest db ld"
  let ?tw = "takeWhile (\<lambda>p. fst p = dbt ?k) ?xs" and ?dw = "dropWhile (\<lambda>p. fst p = dbt ?k) ?xs"
  have nodup: "\<exists>c b d k. ?ld' = ?ld\<lparr>ld_cursor := c, ld_found := b, ld_data := d, current_key := k\<rparr>"
      "ahead rest db ?ld' = ?dw" "at_cursor cur ?ld'"
    using loader_nodup [OF assms(1) ld(5), of pre ?ld] pre(1) ld(1,2) by (simp_all only: ahead_update at_cursor_update) auto
  have nul: "cstr ?k = ?k"
    using ld(1,2) by (simp add: at_cursor_def)
  have "?k \<notin> ?U"
    using True restored nul by (auto simp: isRestoredTuple_def)
  have tw: "?tw \<noteq> []" "\<forall>p \<in> set ?tw. fst p = dbt ?k" "length ?dw < length ?xs"
    using ld(2) by (auto simp: ahead_def dest: set_takeWhileD intro: le_imp_less_Suc length_dropWhile_le)
  have "grouped (?tw @ ?dw)"
    using grouped_drop [of pre ?xs] grouped_recs [of db] pre(1) by simp
  moreover have "?dw = [] \<or> fst (hd ?dw) \<noteq> dbt ?k"
    using hd_dropWhile by blast
  ultimately have k: "dbt ?k \<notin> fst ` set ?dw"
    using grouped_cut [of ?tw ?dw] tw(1,2) by blast
  have U: "\<forall>k \<in> ?U. dbt k \<in> fst ` set ?dw"
  proof
    fix k assume "k \<in> ?U"
    then have "dbt k \<in> fst ` set (?tw @ ?dw)" "k \<noteq> ?k" "NUL \<notin> set k"
      using pre(3) \<open>?k \<notin> ?U\<close> recovery_inv_kv(4) [OF assms(2)] by (auto simp: missing_def)
    moreover have "dbt k \<notin> fst ` set ?tw"
      using tw(2) nul calculation(2,3) by auto
    ultimately show "dbt k \<in> fst ` set ?dw"
      by (simp only: set_append image_Un Un_iff) blast
  qed
  have "fst ` set (pre @ ?tw) \<inter> fst ` set ?dw = {}"
    using disjoint_shift [of pre ?tw ?dw "dbt ?k"] pre(2) k tw(2) by simp
  with U pre(1) have "boundary recs rest db ?U ?ld'"
    unfolding boundary_def nodup(2) by (intro exI [of _ "pre @ ?tw"]) simp
  then have "recovery_inv recs rest cur kv db (if ld_found ?ld' then L_skip else L_end, ?ld', s)"
    using nodup ld(4) U by (intro loader_only [OF assms(2)]) (auto simp: ahead_def)
  then show ?thesis
    using True tw(3) nodup(2) by (auto simp: progress_def loader_measure_def Let_def)
qed

lemma progress_collect:
  assumes "en_bdb E = B" and "recovery_inv recs rest cur kv db (L_collect, ld, s)"
  shows "progress E recs rest cur kv db (L_collect, ld, s)"
proof -
  let ?U = "missing kv (db_dict (sv_redis s))"
  have ld: "at_cursor cur ld" "ld_found ld" "collecting recs rest db ?U ld" "keyed (recs db)"
    using assms(2) by (auto simp: recovery_inv_def)
  note kv = recovery_inv_kv [OF assms(2)]
  have U: "\<forall>k \<in> ?U. NUL \<notin> set k"
    using kv(4) by (auto simp: missing_def)
  have nul: "cstr (current_key ld) = current_key ld"
    using ld(1,2) by (simp add: at_cursor_def)
  show ?thesis
  proof (cases "current_key ld = old_key ld")
    case False
    have "loader_inv recs rest cur kv db ?U (instant_recovery_performing_stop s) L_setIR ld"
      using collect_done [OF ld(3,1) _ kv(2,1) U] False by blast
    then have "recovery_inv recs rest cur kv db (L_setIR, ld\<lparr>old_key := current_key ld\<rparr>, s)"
      by (intro loader_only [OF assms(2)]) simp_all
    with False nul show ?thesis
      by (simp add: progress_def loader_measure_def sdsnew_def)
  next
    case True
    obtain pre g c where col: "recs db = pre @ g @ ahead rest db ld" "fst ` set pre \<inter> fst ` set (g @ ahead rest db ld) = {}"
        "\<forall>p \<in> set g. fst p = dbt (old_key ld)" "NUL \<notin> set (old_key ld)"
        "replay_records (map snd g) ([], ''0'') = Some (c, valueIR ld)"
        "\<forall>k \<in> ?U. dbt k \<in> fst ` set (g @ ahead rest db ld)"
      using ld(3) unfolding collecting_def by blast
    let ?p = "(dbt (old_key ld), ld_data ld)" and ?r = "rest db (ld_cursor ld)"
    have ahead: "ahead rest db ld = ?p # ?r"
      using ld(2) True by (simp add: ahead_def)
    have "dups (dbt (old_key ld)) g = map snd g"
      using col(3) by (simp add: dups_def)
    moreover have "dups (dbt (old_key ld)) pre = []"
      using col(2) ahead by (auto simp: dups_eq_Nil)
    ultimately have "dups (dbt (old_key ld)) (recs db) = map snd g @ ld_data ld # dups (dbt (old_key ld)) ?r"
      using col(1) ahead by simp
    then have "good_records (map cstr (map snd g @ ld_data ld # dups (dbt (old_key ld)) ?r))"
      using kv(2) by (metis good_index_def index_records_def)
    then obtain c' v where rec: "replay_record (ld_data ld) (c, valueIR ld) = Some (c', v)"
      unfolding good_records_def replay_records_cstr using col(5)
      by (auto simp: replay_records_append split: bind_splits)
    let ?lda = "ld\<lparr>count_records := count_records ld + 1\<rparr>"
    obtain k where lr: "loader_record ?lda =
          Some (?lda\<lparr>commandIR := if c' = ''INCR'' then ''SET'' else c', keyIR := k, valueIR := v\<rparr>)"
        "c' = ''SET'' \<or> c' = ''INCR'' \<longrightarrow> k = old_key ld"
      using loader_record_eq [of ?lda c c' v] rec nul True by auto
    define ldb where "ldb = ?lda\<lparr>commandIR := if c' = ''INCR'' then ''SET'' else c', keyIR := k, valueIR := v\<rparr>"
    define ldc where "ldc = loader_get E db DB_NEXT ldb"
    have ldb: "ahead rest db ldb = ?p # ?r" "ld_found ldb"
      using ahead ld(2) by (simp_all add: ldb_def)
    have "recs db = (pre @ g) @ ahead rest db ldb"
      using col(1) ahead ldb(1) by simp
    from loader_next [OF assms(1) ld(4) this ldb(2)]
    have ldc: "ahead rest db ldc = ?r" "at_cursor cur ldc" "old_key ldc = old_key ld" "valueIR ldc = v" "keyIR ldc = k"
        "commandIR ldc = (if c' = ''INCR'' then ''SET'' else c')"
      unfolding ldc_def [symmetric] ldb(1) by (auto simp: ldb_def)
    have col': "collecting recs rest db ?U ldc"
      unfolding collecting_def ldc(1,3-6)
    proof (intro exI conjI)
      show "recs db = pre @ (g @ [?p]) @ ?r" "fst ` set pre \<inter> fst ` set ((g @ [?p]) @ ?r) = {}"
          "\<forall>k \<in> ?U. dbt k \<in> fst ` set ((g @ [?p]) @ ?r)"
        using col(1,2,6) ahead by simp_all
      show "\<forall>p \<in> set (g @ [?p]). fst p = dbt (old_key ld)" "NUL \<notin> set (old_key ld)"
        using col(3,4) by auto
      show "replay_records (map snd (g @ [?p])) ([], ''0'') = Some (c', v)"
        using col(5) rec by (simp add: replay_records_append)
      show "g @ [?p] \<noteq> [] \<and> (if c' = ''INCR'' then ''SET'' else c') = ''SET'' \<longrightarrow> k = old_key ld"
        using lr(2) by auto
    qed simp_all
    have "recovery_inv recs rest cur kv db (if ld_found ldc then L_collect else L_setIR, ldc, s)"
      using collect_done [OF col' ldc(2) _ kv(2,1) U] ldc(2) col' by (intro loader_only [OF assms(2)]) auto
    moreover have "loader_step E db (L_collect, ld, s) = Some (if ld_found ldc then L_collect else L_setIR, ldc, s)"
      using True lr(1) by (simp add: ldc_def ldb_def Let_def)
    ultimately show ?thesis
      using ldc(1) ahead by (auto simp: progress_def loader_measure_def)
  qed
qed

end

lemma loader_progress:
  assumes "berkeley_db (en_bdb E) recs rest cur" and "recovery_inv recs rest cur kv db (p, ld, s)" and "p \<noteq> L_done"
  shows "progress E recs rest cur kv db (p, ld, s)"
  using assms(2,3)
  by (cases p) (simp_all add: progress_while progress_mark progress_setIR progress_end progress_off
    berkeley_db.progress_skip [OF assms(1) refl] berkeley_db.progress_collect [OF assms(1) refl])

lemma loader_run_ends:
  assumes "berkeley_db (en_bdb E) recs rest cur" and "recovery_inv recs rest cur kv db x"
  shows "\<exists>ld s. loader_run E db x = Some (ld, s) \<and> recovery_inv recs rest cur kv db (L_done, ld, s) \<and>
           virtual kv (db_dict (sv_redis s)) = virtual kv (db_dict (sv_redis (snd (snd x)))) \<and>
           instant_recovery_performing_stop s = instant_recovery_performing_stop (snd (snd x))"
  using assms(2)
proof (induction "loader_measure rest db x" arbitrary: x rule: less_induct)
  case less
  obtain p ld s where x: "x = (p, ld, s)"
    by (cases x)
  show ?case
  proof (cases "p = L_done")
    case True
    with less.prems x show ?thesis by (subst loader_run.simps) simp
  next
    case False
    with loader_progress [OF assms(1)] less.prems x obtain y where
        y: "loader_step E db x = Some y" "recovery_inv recs rest cur kv db y" "loader_measure rest db y < loader_measure rest db x"
          "virtual kv (db_dict (sv_redis (snd (snd y)))) = virtual kv (db_dict (sv_redis (snd (snd x))))"
          "instant_recovery_performing_stop (snd (snd y)) = instant_recovery_performing_stop (snd (snd x))"
      unfolding progress_def by blast
    from less.hyps [OF y(3,2)] y(1,4,5) False x show ?thesis
      by (subst loader_run.simps) simp
  qed
qed

lemma loader_start_inv:
  assumes "berkeley_db (en_bdb E) recs rest cur" and "recovering recs kv s" and "index_of s = Some db"
    and "instant_recovery_state s" and "set (hash_restored_tuples s) \<inter> missing kv (db_dict (sv_redis s)) = {}"
  shows "\<exists>ld s'. loader_start E s = Some (db, ld, s') \<and> recovery_inv recs rest cur kv db (L_while, ld, s') \<and>
           sv_redis s' = sv_redis s \<and> instant_recovery_performing_stop s' = instant_recovery_performing_stop s \<and>
           same_recovery (s\<lparr>instant_recovery_performing := True\<rparr>) s'"
proof -
  let ?s = "start_indexing ''B'' (s\<lparr>instant_recovery_performing := True\<rparr>)"
  let ?ld = "\<lambda>c b d k. \<lparr>ld_cursor = c, ld_found = b, ld_data = d, current_key = k, old_key = [],
                   commandIR = [], keyIR = [], valueIR = ''0'', count_records = 0, count_tuples_loaded = 0,
                   count_inconsistent_load = 0\<rparr>"
  let ?c = "bdb_cursor (en_bdb E) db"
  have kv: "\<forall>k. kv k \<noteq> None \<longrightarrow> dbt k \<in> fst ` set (recs db)"
  proof (intro allI impI)
    fix k assume "kv k \<noteq> None"
    moreover have "kv_of (index_records recs) db = kv"
      using assms(2,3) by (auto simp: recovering_def)
    ultimately have "dups (dbt k) (recs db) \<noteq> []"
      by (auto simp: kv_of_def index_records_def replayed_def split: if_splits)
    then show "dbt k \<in> fst ` set (recs db)"
      by (simp add: dups_eq_Nil)
  qed
  have keyed: "keyed (recs db)"
    using assms(2,3) by (intro good_index_keyed) (auto simp: recovering_def)
  have index: "d_dbs (ir_disk s) (indexedlog_filename (ir_cfg s)) = Store db"
    using assms(3) by (auto simp: index_of_def split: db_file.splits)
  have s: "sv_redis ?s = sv_redis s" "instant_recovery_performing_stop ?s = instant_recovery_performing_stop s"
      "same_recovery (s\<lparr>instant_recovery_performing := True\<rparr>) ?s" "ir_cfg ?s = ir_cfg s" "ir_disk ?s = ir_disk s"
    by (simp_all add: start_indexing_def same_recovery_def)
  have inv: "recovery_inv recs rest cur kv db (L_while, ld, ?s)"
    if "ahead rest db ld = recs db" "at_cursor cur ld" for ld
  proof -
    have "boundary recs rest db (missing kv (db_dict (sv_redis s))) ld"
      using that(1) kv by (auto simp: boundary_def missing_def)
    with assms keyed that(2) show ?thesis
      by (auto simp: recovery_inv_def recovering_def serving_def index_of_def start_indexing_def)
  qed
  show ?thesis
  proof (cases "recs db")
    case Nil
    then have "bdb_cget (en_bdb E) db ?c DB_NEXT = None"
      using berkeley_db.cget_none [OF assms(1), of db ?c DB_NEXT] berkeley_db.fresh_rest [OF assms(1)] by simp
    then have "loader_start E s = Some (db, ?ld ?c False [] [], ?s)"
      using index by (simp add: loader_start_def openIndexedLog_def openBerkeleyDB_def sdsnew_def Let_def)
    with inv [of "?ld ?c False [] []"] s Nil show ?thesis
      by (auto simp: ahead_def at_cursor_def)
  next
    case (Cons p r)
    then obtain c where c: "bdb_cget (en_bdb E) db ?c DB_NEXT = Some (p, c)" "rest db c = r" "cur c = Some (fst p)"
      using berkeley_db.cget_NextE [OF assms(1), of db ?c p r] berkeley_db.fresh_rest [OF assms(1)] by auto
    have "\<exists>k. fst p = dbt k"
      using keyed Cons by (simp add: keyed_def)
    then have p: "dbt (cstr (fst p)) = fst p"
      by auto
    have "loader_start E s = Some (db, ?ld c True (snd p) (cstr (fst p)), ?s)"
      using index c by (cases p) (simp add: loader_start_def openIndexedLog_def openBerkeleyDB_def sdsnew_def Let_def)
    with inv [of "?ld c True (snd p) (cstr (fst p))"] s Cons c p show ?thesis
      by (auto simp: ahead_def at_cursor_def)
  qed
qed

end
