(* ===== verification/Recovery_Correctness.thy ===== *)
theory Recovery_Correctness
  imports Recovery
begin

text \<open>
  The incremental recovery with clients: the runs in which the thread of \<open>Recovery\<close> and the commands of
  clients take turns, an abstract server that has the recovered key space from the start, and the
  properties that relate the two.  The index does not change during the recovery, as with
  \<open>starts_log_indexing\<close> set to \<^verbatim>\<open>A\<close>, and the recovery is not stopped.
\<close>

section \<open>Clients during the recovery\<close>

text \<open>The thread and the server take turns; a run records the requests and their replies.\<close>

inductive recovery_steps :: "('db, 'c) env \<Rightarrow> 'db \<Rightarrow> place \<times> 'c loader \<times> 'db ir_server \<Rightarrow> (request \<times> reply) list \<Rightarrow>
    place \<times> 'c loader \<times> 'db ir_server \<Rightarrow> bool" for E :: "('db, 'c) env" and db :: 'db and x :: "place \<times> 'c loader \<times> 'db ir_server" where
  start: "recovery_steps E db x [] x"
| loader: "recovery_steps E db x evs y \<Longrightarrow> loader_step E db y = Some z \<Longrightarrow> recovery_steps E db x evs z"
| client: "recovery_steps E db x evs (p, ld, s) \<Longrightarrow> sends c name req \<Longrightarrow>
    processCommand E tm c s = Some (res, c', s') \<Longrightarrow> cl_reply c' = cl_reply c @ [r] \<Longrightarrow>
    recovery_steps E db x (evs @ [(req, r)]) (p, ld, s')"

text \<open>The abstract server: the requests one after the other on a key space.\<close>

fun serve :: "request list \<Rightarrow> (string \<Rightarrow> robj option) \<Rightarrow> reply list \<times> (string \<Rightarrow> robj option)" where
  "serve [] d = ([], d)"
| "serve (req # reqs) d =
     (let (r, d) = req_effect req d; (rs, d) = serve reqs d in (r # rs, d))"

lemma serve_snoc:
  "serve (reqs @ [req]) d =
     (fst (serve reqs d) @ [fst (req_effect req (snd (serve reqs d)))], snd (req_effect req (snd (serve reqs d))))"
  by (induction reqs arbitrary: d) (simp_all add: case_prod_beta Let_def)

text \<open>A server before the recovery.\<close>

definition restarted :: "('db \<Rightarrow> (string \<times> string) list) \<Rightarrow> kv \<Rightarrow> 'db ir_server \<Rightarrow> bool" where
  "restarted recs kv s \<longleftrightarrow> recovering recs kv s \<and> instant_recovery_state s \<and> \<not> instant_recovery_performing_stop s \<and>
     hash_restored_tuples s = []"

lemma client_step:
  assumes "berkeley_db (en_bdb E) recs rest cur" and "recovery_inv recs rest cur kv db (p, ld, s)"
    and "\<not> instant_recovery_performing_stop s" and "sends c name req"
  defines "v \<equiv> virtual kv (db_dict (sv_redis s))"
  shows "\<exists>c' s'. processCommand E tm c s = Some (C_OK, c', s') \<and> cl_reply c' = cl_reply c @ [fst (req_effect req v)] \<and>
           virtual kv (db_dict (sv_redis s')) = snd (req_effect req v) \<and> recovery_inv recs rest cur kv db (p, ld, s') \<and>
           \<not> instant_recovery_performing_stop s'"
proof -
  let ?d = "db_dict (sv_redis s)" and ?k = "req_key req"
  let ?e = "if must_load ?k s then on_demand kv ?k ?d else ?d"
  have inv: "recovering recs kv s" "instant_recovery_state s" "p \<noteq> L_done \<longleftrightarrow> instant_recovery_performing s"
      "set (hash_restored_tuples s) \<inter> missing kv ?d = {}"
      "loader_inv recs rest cur kv db (missing kv ?d) (instant_recovery_performing_stop s) p ld"
    using assms(2) by (auto simp: recovery_inv_def)
  obtain ca where ca: "requests ca name req" "cl_reply ca = cl_reply c"
      "processCommand E tm c s = map_option (\<lambda>(c', s'). (C_OK, c', s')) (call E True tm ca s)"
    using processCommand_request [OF assms(4)] by blast
  obtain c' s' where call: "call E True tm ca s = Some (c', s')" "cl_reply c' = cl_reply ca @ [fst (req_effect req ?e)]"
      "db_dict (sv_redis s') = snd (req_effect req ?e)" "recovering recs kv s'" "same_recovery s s'"
      "set (hash_restored_tuples s') = (if must_load ?k s then insert ?k (set (hash_restored_tuples s)) else set (hash_restored_tuples s))"
    using call_request [OF assms(1) ca(1) inv(1), where call_aof = True and tm = tm] by blast
  have "?k \<notin> missing kv ?d" if "\<not> must_load ?k s"
    using that inv(2-5) assms(3) by (cases p) (auto simp: must_load_def)
  then have e: "?k \<notin> missing kv ?e" "virtual kv ?e = v" "missing kv ?e \<subseteq> missing kv ?d"
    unfolding v_def by (auto simp: virtual_on_demand)
  note eff = req_effect_virtual [OF e(1), unfolded e(2)]
  have sub: "missing kv (db_dict (sv_redis s')) \<subseteq> missing kv ?e"
    using eff(3) call(3) by simp
  have "recovery_inv recs rest cur kv db (p, ld, s')"
  proof (rule recovery_invI [OF assms(2) call(5)])
    show "persistent (sv_redis s')"
      using call(4) by (simp add: recovering_def serving_def)
    show "missing kv (db_dict (sv_redis s')) \<subseteq> missing kv ?d"
      using sub e(3) by blast
    then show "loader_inv recs rest cur kv db (missing kv (db_dict (sv_redis s'))) (instant_recovery_performing_stop s) p ld"
      by (rule loader_inv_mono [OF inv(5)])
    show "set (hash_restored_tuples s') \<inter> missing kv (db_dict (sv_redis s')) = {}"
      using sub e(1,3) inv(4) call(6) by (auto split: if_splits)
  qed simp
  moreover have "\<not> instant_recovery_performing_stop s'"
    using call(5) assms(3) by (simp add: same_recovery_def)
  ultimately show ?thesis
    using ca(2,3) call(1-3) eff(1,2) by auto
qed

lemma recovery_steps_inv:
  assumes "berkeley_db (en_bdb E) recs rest cur" and "recovery_inv recs rest cur kv db x"
    and "\<not> instant_recovery_performing_stop (snd (snd x))" and "recovery_steps E db x evs y"
  defines "v \<equiv> virtual kv (db_dict (sv_redis (snd (snd x))))"
  shows "recovery_inv recs rest cur kv db y \<and> \<not> instant_recovery_performing_stop (snd (snd y)) \<and>
           map snd evs = fst (serve (map fst evs) v) \<and>
           virtual kv (db_dict (sv_redis (snd (snd y)))) = snd (serve (map fst evs) v)"
  using assms(4)
proof induction
  case start
  show ?case using assms(2,3) by (simp add: v_def)
next
  case (loader evs y z)
  obtain p ld s where y: "y = (p, ld, s)"
    by (cases y)
  with loader.hyps(2) have "p \<noteq> L_done" by auto
  with loader_progress [OF assms(1)] loader.IH y have "progress E recs rest cur kv db y" by blast
  with loader show ?case by (auto simp: progress_def)
next
  case (client evs p ld s c name req tm res c' s' r)
  then have "recovery_inv recs rest cur kv db (p, ld, s)" "\<not> instant_recovery_performing_stop s"
    by simp_all
  from client_step [OF assms(1) this client.hyps(2), of tm] client show ?case
    by (auto simp: serve_snoc)
qed

section \<open>Properties\<close>

definition test_index :: "(string \<times> string) list" where
  "test_index = [(dbt ''k'', aof_log [''SET'', ''k'', ''7''])]"

definition test_env :: "((string \<times> string) list, btree_cursor) env" where
  "test_env = \<lparr>en_bdb = btree_db, en_empty = [], en_other = (\<lambda>_ _ _. None), en_table = []\<rparr>"

definition test_server :: "(string \<times> string) list ir_server" where
  "test_server = \<lparr>sv_redis = test_redis, instant_recovery_state = True, instant_recovery_performing = False,
     instant_recovery_performing_stop = False, instant_recovery_synchronous = False, starts_log_indexing = ''A'',
     indexer_threads = 0, hash_restored_tuples = [], hash_keys_access = [], accessed_tuples_logger_state = False,
     generate_executed_commands_csv = False, cmd_executed_List = [], count_tuples_not_in_log = 0,
     count_tuples_loaded_ondemand = 0, count_tuples_already_loaded = 0, count_tuples_loaded_incr = 0,
     count_inconsistent_load_incr = 0, stat_numcommands = 0, ir_cfg = test_cfg, ir_disk = test_disk None (Store test_index)\<rparr>"

lemma test_index_kv:
  "good_index (index_records btree_recs) test_index"
  "kv_of (index_records btree_recs) test_index = [''k'' \<mapsto> ''7'']"
proof -
  have clean: "\<forall>s \<in> set [''SET'', ''k'', ''7'']. clean s"
    by simp
  have nul: "cstr (aof_log [''SET'', ''k'', ''7'']) = aof_log [''SET'', ''k'', ''7'']"
    using aof_log_no_NUL [of "[''SET'', ''k'', ''7'']"] by simp
  have recs: "index_records btree_recs test_index key = (if key = dbt ''k'' then [aof_log [''SET'', ''k'', ''7'']] else [])" for key
    using nul by (auto simp: index_records_def test_index_def btree_recs_def)
  have "replay_records [aof_log [''SET'', ''k'', ''7'']] ([], ''0'') = Some (''SET'', ''7'')"
    using replay_aof_log [OF clean, of "([], ''0'')"] by (simp add: sdstoupper_def c_toupper_def)
  then show "good_index (index_records btree_recs) test_index" "kv_of (index_records btree_recs) test_index = [''k'' \<mapsto> ''7'']"
    by (auto simp: good_index_def recs good_records_def kv_of_def replayed_def fun_eq_iff)
qed

lemma test_server_simps [simp]:
  "sv_redis test_server = test_redis" "index_of test_server = Some test_index" "en_bdb test_env = btree_db"
  "instant_recovery_performing test_server = False"
  by (simp_all add: test_server_def test_env_def index_of_def)

lemma test_restarted: "restarted btree_recs [''k'' \<mapsto> ''7''] test_server"
proof -
  have "persistent test_redis"
    by (simp add: persistent_def)
  then show ?thesis
    using test_index_kv by (simp add: restarted_def recovering_def serving_def) (simp add: test_server_def)
qed

lemma restarted_start:
  assumes "berkeley_db (en_bdb E) recs rest cur" and "restarted recs kv s"
  shows "\<exists>db ld s'. loader_start E s = Some (db, ld, s') \<and> recovery_inv recs rest cur kv db (L_while, ld, s') \<and>
           sv_redis s' = sv_redis s \<and> \<not> instant_recovery_performing_stop s'"
proof -
  obtain db where "index_of s = Some db"
    using assms(2) by (auto simp: restarted_def recovering_def serving_def)
  then show ?thesis
    using loader_start_inv [OF assms(1), of kv s db] assms(2) by (auto simp: restarted_def)
qed

text \<open>A run from the start of the recovery, in terms of the abstract server.\<close>

lemma restarted_run:
  assumes "berkeley_db (en_bdb E) recs rest cur" and "restarted recs kv s" and "loader_start E s = Some (db, ld, t)"
    and "recovery_steps E db (L_while, ld, t) evs y"
  shows "recovery_inv recs rest cur kv db y" and "\<not> instant_recovery_performing_stop (snd (snd y))"
    and "map snd evs = fst (serve (map fst evs) (virtual kv (db_dict (sv_redis s))))"
    and "virtual kv (db_dict (sv_redis (snd (snd y)))) = snd (serve (map fst evs) (virtual kv (db_dict (sv_redis s))))"
proof -
  have "recovery_inv recs rest cur kv db (L_while, ld, t)" "sv_redis t = sv_redis s" "\<not> instant_recovery_performing_stop t"
    using restarted_start [OF assms(1,2)] assms(3) by auto
  with recovery_steps_inv [OF assms(1), of kv db "(L_while, ld, t)" evs y] assms(4)
  show "recovery_inv recs rest cur kv db y" "\<not> instant_recovery_performing_stop (snd (snd y))"
    "map snd evs = fst (serve (map fst evs) (virtual kv (db_dict (sv_redis s))))"
    "virtual kv (db_dict (sv_redis (snd (snd y)))) = snd (serve (map fst evs) (virtual kv (db_dict (sv_redis s))))"
    by simp_all
qed

lemma recovery_inv_done:
  assumes "recovery_inv recs rest cur kv db (L_done, ld, s)" and "\<not> instant_recovery_performing_stop s"
  shows "virtual kv (db_dict (sv_redis s)) = db_dict (sv_redis s)" and "\<not> instant_recovery_performing s"
  using assms by (auto simp: recovery_inv_def intro: virtual_complete)

lemma loader_steps_end:
  assumes "berkeley_db (en_bdb E) recs rest cur" and "recovery_inv recs rest cur kv db y" and "recovery_steps E db x evs y"
  shows "\<exists>ld s. recovery_steps E db x evs (L_done, ld, s)"
  using assms(2,3)
proof (induction "loader_measure rest db y" arbitrary: y rule: less_induct)
  case less
  obtain p ld s where y: "y = (p, ld, s)"
    by (cases y)
  show ?case
  proof (cases "p = L_done")
    case True
    with less.prems(2) y show ?thesis by blast
  next
    case False
    with loader_progress [OF assms(1)] less.prems(1) y obtain z where
        z: "loader_step E db y = Some z" "recovery_inv recs rest cur kv db z" "loader_measure rest db z < loader_measure rest db y"
      unfolding progress_def by blast
    show ?thesis
      by (rule less.hyps [OF z(3,2) recovery_steps.loader [OF less.prems(2) z(1)]])
  qed
qed

lemma restarted_request_run:
  assumes "berkeley_db (en_bdb E) recs rest cur" and "restarted recs kv s" and "loader_start E s = Some (db, ld, t)"
    and "sends c name req"
  shows "\<exists>ld' s' r. recovery_steps E db (L_while, ld, t) [(req, r)] (L_done, ld', s')"
proof -
  note inv = restarted_run(1,2) [OF assms(1-3) recovery_steps.start]
  obtain c' s' r where step: "processCommand E (0, 0, 0) c t = Some (C_OK, c', s')" "cl_reply c' = cl_reply c @ [r]"
    using client_step [OF assms(1) inv(1) _ assms(4), of "(0, 0, 0)"] inv(2) unfolding snd_conv by blast
  have run: "recovery_steps E db (L_while, ld, t) [(req, r)] (L_while, ld, s')"
    using recovery_steps.client [OF recovery_steps.start assms(4) step] by simp
  show ?thesis
    using loader_steps_end [OF assms(1) restarted_run(1) [OF assms(1-3) run] run] by blast
qed

lemma test_bdb: "berkeley_db (en_bdb test_env) btree_recs (\<lambda>db. snd) fst"
  using btree.berkeley_db_axioms by simp

lemma test_incr: "sends (test_client IncrCommand [''incr'', ''k'']) ''incr'' (Rincr ''k'')"
  by (simp add: sends_def test_client_def has_args_def) (simp add: c_tolower_def char_of_def bit_0)

lemma string2ll_7: "string2ll ''7'' = Some 7"
  by (simp add: string2ll_iff in_int64_def show_int_def digit_char_def char_of_def bit_0)

lemma test_virtual: "virtual [''k'' \<mapsto> ''7''] (db_dict test_redis) = [''k'' \<mapsto> encoded ''7'']"
  by (auto simp: virtual_def test_redis_def fun_eq_iff)

lemma test_start: "\<exists>ld t. loader_start test_env test_server = Some (test_index, ld, t)"
  using loader_start_inv [OF test_bdb, of "[''k'' \<mapsto> ''7'']" test_server test_index] test_restarted
  by (auto simp: restarted_def)

lemma test_run:
  "\<exists>ld t ld' s' r. loader_start test_env test_server = Some (test_index, ld, t) \<and>
     recovery_steps test_env test_index (L_while, ld, t) [(Rincr ''k'', r)] (L_done, ld', s')"
  using test_start restarted_request_run [OF test_bdb test_restarted _ test_incr] by blast




lemma loadDB_ends:
  assumes "berkeley_db (en_bdb E) recs rest cur" and "restarted recs kv s"
  shows "\<exists>n s'. loadDBFromIndexedLog E s = Some (n, s') \<and> db_dict (sv_redis s') = virtual kv (db_dict (sv_redis s)) \<and>
           \<not> instant_recovery_performing s'"
proof -
  obtain db ld t where t: "loader_start E s = Some (db, ld, t)" "recovery_inv recs rest cur kv db (L_while, ld, t)"
      "sv_redis t = sv_redis s" "\<not> instant_recovery_performing_stop t"
    using restarted_start [OF assms] by blast
  obtain ld' s' where s': "loader_run E db (L_while, ld, t) = Some (ld', s')" "recovery_inv recs rest cur kv db (L_done, ld', s')"
      "virtual kv (db_dict (sv_redis s')) = virtual kv (db_dict (sv_redis t))" "\<not> instant_recovery_performing_stop s'"
    using loader_run_ends [OF assms(1) t(2)] t(4) by auto
  then show ?thesis
    using t(1,3) recovery_inv_done [OF s'(2,4)] by (simp add: loadDBFromIndexedLog_def)
qed



lemma lookup_del: "lookupCommand tab ''del'' = Some (''del'', DelCommand, -2)"
  unfolding lookupCommand_def redisCommandTable_def append_Cons find.simps case_prod_conv lower_SETIR lower_names
  by simp

lemma del_missing:
  assumes "has_args c [''del'', k]" and "persistent (sv_redis s)" and "db_dict (sv_redis s) k = None" and "\<not> cl_fake c"
  shows "\<exists>c' r'. processCommand E tm c s =
             Some (C_OK, c', s\<lparr>sv_redis := r', stat_numcommands := stat_numcommands s + 1\<rparr>) \<and>
           cl_reply c' = cl_reply c @ [R_longlong 0] \<and> db_dict r' = db_dict (sv_redis s) \<and> persistent r'"
proof -
  let ?c = "c\<lparr>cl_cmd := DelCommand, cl_cmd_name := ''del''\<rparr>" and ?r = "sv_redis s"
  define r where "r = ?r\<lparr>sv_fixed_time_expire := sv_fixed_time_expire ?r + 1, sv_mstime := sv_clock ?r\<rparr>"
  define r' where "r' = r\<lparr>db_dict := (db_dict r)(k := None)\<rparr>"
  have r': "db_dict r' = db_dict ?r" "db_expires r' = db_expires ?r"
    using assms(3) by (simp_all add: r'_def r_def fun_upd_idem)
  have args: "has_args ?c [''del'', k]" "db_expires r k = None"
    using assms(1,2) by (simp_all add: has_args_def r_def persistent_def)
  have del: "delCommand ?c r = Some (addReply (R_longlong 0) ?c, r')"
    using del_eq [OF args] assms(3) by (simp add: r'_def r_def)
  have ir: "\<not> ir_command ''del''"
    by (simp add: ir_command_def c_strcaseeq_def c_tolower_def)
  have "sv_dirty r' = sv_dirty ?r"
    by (simp add: r'_def r_def)
  then have "call E True tm ?c s =
      Some (addReply (R_longlong 0) ?c, s\<lparr>sv_redis := r'\<lparr>sv_fixed_time_expire := sv_fixed_time_expire r' - 1\<rparr>,
            stat_numcommands := stat_numcommands s + 1\<rparr>)"
    using del [unfolded r_def] ir by (simp add: call_def recover_on_demand_def log_access_def Let_def)
  moreover have "\<not> c_strcaseeq ''del'' ''quit''"
    by (simp add: c_strcaseeq_def c_tolower_def)
  ultimately have "processCommand E tm c s =
      Some (C_OK, addReply (R_longlong 0) ?c, s\<lparr>sv_redis := r'\<lparr>sv_fixed_time_expire := sv_fixed_time_expire r' - 1\<rparr>,
            stat_numcommands := stat_numcommands s + 1\<rparr>)"
    using cl_key_nth [OF assms(1), of 0] has_args_length [OF assms(1)]
    by (simp add: processCommand_def lookup_del arity_ok_def)
  moreover have "persistent (r'\<lparr>sv_fixed_time_expire := n\<rparr>)" for n
    using assms(2) r' by (simp add: persistent_def wf_redis_def)
  ultimately show ?thesis
    using assms(4) r'(1) by (auto simp: addReply_def)
qed

text \<open>(C22) A key deleted during the recovery comes back: \<^verbatim>\<open>DEL\<close> does not recover its key first, so before the
  thread has reached the key it replies 0 and removes nothing, and the thread then loads the value.\<close>

theorem recovery_resurrects_deleted:
  assumes "berkeley_db (en_bdb E) recs rest cur" and "restarted recs kv s" and "loader_start E s = Some (db, ld, t)"
    and "kv k = Some v" and "db_dict (sv_redis s) k = None"
    and "has_args c [''del'', k]" and "\<not> cl_fake c"
  shows "\<exists>c' s' ld' s''. processCommand E tm c t = Some (C_OK, c', s') \<and> cl_reply c' = cl_reply c @ [R_longlong 0] \<and>
           loader_run E db (L_while, ld, s') = Some (ld', s'') \<and> db_dict (sv_redis s'') k = Some (encoded v)"
proof -
  have t: "recovery_inv recs rest cur kv db (L_while, ld, t)" "sv_redis t = sv_redis s" "\<not> instant_recovery_performing_stop t"
    using restarted_start [OF assms(1,2)] assms(3) by auto
  obtain c' r' where del: "processCommand E tm c t =
        Some (C_OK, c', t\<lparr>sv_redis := r', stat_numcommands := stat_numcommands t + 1\<rparr>)"
      "cl_reply c' = cl_reply c @ [R_longlong 0]" "db_dict r' = db_dict (sv_redis s)" "persistent r'"
    using del_missing [OF assms(6) _ _ assms(7), of t E tm] recovery_inv_kv(3) [OF t(1)] assms(5) t(2) by auto
  let ?s = "t\<lparr>sv_redis := r', stat_numcommands := stat_numcommands t + 1\<rparr>"
  have "recovery_inv recs rest cur kv db (L_while, ld, ?s)"
    using del(3,4) t(1,2) by (intro recovery_invI [OF t(1)]) (auto simp: same_recovery_def recovery_inv_def)
  from loader_run_ends [OF assms(1) this] t(3) obtain ld' s'' where
      s'': "loader_run E db (L_while, ld, ?s) = Some (ld', s'')" "recovery_inv recs rest cur kv db (L_done, ld', s'')"
      "virtual kv (db_dict (sv_redis s'')) = virtual kv (db_dict (sv_redis s))" "\<not> instant_recovery_performing_stop s''"
    using del(3) by auto
  have "db_dict (sv_redis s'') k = Some (encoded v)"
    using recovery_inv_done(1) [OF s''(2,4)] s''(3) assms(4,5)
    by (metis (no_types) comp_apply map_add_dom_app_simps(3) domIff option.simps(9) virtual_def)
  with del(1,2) s''(1) show ?thesis by blast
qed

text \<open>(C23) The server listens before the thread has marked the recovery as performed.  An \<^verbatim>\<open>INCR\<close> in between
  counts from 0, and the recovery leaves its result in place: the logged value is lost.\<close>

theorem early_incr_loses_value:
  assumes "berkeley_db (en_bdb E) recs rest cur" and "restarted recs kv s" and "\<not> instant_recovery_performing s"
    and "db_dict (sv_redis s) k = None" and "sends c name (Rincr k)"
  shows "\<exists>c' s' n s''. processCommand E tm c s = Some (C_OK, c', s') \<and> cl_reply c' = cl_reply c @ [R_longlong 1] \<and>
           loadDBFromIndexedLog E s' = Some (n, s'') \<and> db_dict (sv_redis s'') k = Some (IntEnc 1)"
proof -
  have rec: "recovering recs kv s" and load: "\<not> must_load k s"
    using assms(2,3) by (simp_all add: restarted_def must_load_def)
  obtain ca where ca: "requests ca name (Rincr k)" "cl_reply ca = cl_reply c"
      "processCommand E tm c s = map_option (\<lambda>(c', s'). (C_OK, c', s')) (call E True tm ca s)"
    using processCommand_request [OF assms(5)] by blast
  let ?d = "db_dict (sv_redis s)"
  have eff: "req_effect (Rincr k) ?d = (R_longlong 1, ?d(k \<mapsto> IntEnc 1))"
    using assms(4) by (simp add: int_value_def in_int64_def)
  obtain c' s' where call: "call E True tm ca s = Some (c', s')" "cl_reply c' = cl_reply ca @ [R_longlong 1]"
      "db_dict (sv_redis s') = ?d(k \<mapsto> IntEnc 1)" "recovering recs kv s'" "same_recovery s s'"
      "set (hash_restored_tuples s') = set (hash_restored_tuples s)"
    using call_request [OF assms(1) ca(1) rec, where call_aof = True and tm = tm] load eff by auto
  have "restarted recs kv s'"
    using assms(2) call(4-6) by (simp add: restarted_def same_recovery_def)
  then obtain n s'' where "loadDBFromIndexedLog E s' = Some (n, s'')" "db_dict (sv_redis s'') = virtual kv (?d(k \<mapsto> IntEnc 1))"
    using loadDB_ends [OF assms(1)] call(3) by metis
  then show ?thesis
    using ca(2,3) call(1,2) by (auto simp: virtual_def)
qed

theorem early_incr_loses_value_witness:
  "\<exists>c' s' n s''. processCommand test_env (0, 0, 0) (test_client IncrCommand [''incr'', ''k'']) test_server = Some (C_OK, c', s') \<and>
     cl_reply c' = [R_longlong 1] \<and> loadDBFromIndexedLog test_env s' = Some (n, s'') \<and>
     db_dict (sv_redis s'') ''k'' = Some (IntEnc 1)"
  using early_incr_loses_value [OF test_bdb test_restarted _ _ test_incr, where tm = "(0, 0, 0)"]
  by (simp add: test_redis_def test_client_def)

theorem recovery_resurrects_deleted_witness:
  "\<exists>ld t c' s' ld' s''. loader_start test_env test_server = Some (test_index, ld, t) \<and>
     processCommand test_env (0, 0, 0) (test_client DelCommand [''del'', ''k'']) t = Some (C_OK, c', s') \<and>
     cl_reply c' = [R_longlong 0] \<and> loader_run test_env test_index (L_while, ld, s') = Some (ld', s'') \<and>
     db_dict (sv_redis s'') ''k'' = Some (encoded ''7'')"
proof -
  obtain ld t where t: "loader_start test_env test_server = Some (test_index, ld, t)"
    using test_start by blast
  have "has_args (test_client DelCommand [''del'', ''k'']) [''del'', ''k'']" "\<not> cl_fake (test_client DelCommand [''del'', ''k''])"
      "cl_reply (test_client DelCommand [''del'', ''k'']) = []"
    by (simp_all add: has_args_def test_client_def)
  with recovery_resurrects_deleted [OF test_bdb test_restarted t, where k = "''k''" and v = "''7''" and tm = "(0, 0, 0)" and
      c = "test_client DelCommand [''del'', ''k'']"] t show ?thesis
    by (simp add: test_redis_def)
qed




end
