(* ===== verification/Aof_Load.thy ===== *)
theory Aof_Load
  imports Server_Call
begin

text \<open>
  The sequential recovery (\<open>loadAppendOnlyFile\<close> of \<^verbatim>\<open>src/src/aof.c\<close>), which reads the append only file from
  its beginning and executes every command in the context of a fake client.  Events served during
  the loading, the statistics and the sizes kept for rewriting are not represented; a file with an
  RDB preamble and a \<^verbatim>\<open>MULTI\<close> lead out of the model (\<^term>\<open>None\<close>).

  The laws: loading a log makes the key space what its commands make of it one after the other; with
  \<^verbatim>\<open>aof-load-truncated\<close> a torn last record is cut off the file; and the result is the key space that
  an indexed log of the same records stands for, so that instant recovery and sequential recovery
  agree.
\<close>

section \<open>The code\<close>

text \<open>The arguments of a record.\<close>

fun load_args :: "nat \<Rightarrow> string \<Rightarrow> rd_fail + (robj list \<times> string)" where
  "load_args 0 inp = Inr ([], inp)"
| "load_args (Suc left) inp =
     (case c_fgets 128 inp of
        None \<Rightarrow> Inl (Readerr True)
      | Some (buf, inp) \<Rightarrow>
          if hd buf \<noteq> CHR ''$'' then Inl Fmterr
          else
            let len = to_uint64 (c_strtol (tl buf)) in
            if len \<ge> 2 ^ 63 then Inl Oom
            else
              (case (if len = 0 then Some ([], inp) else c_fread len inp) of
                 None \<Rightarrow> Inl (Readerr True)
               | Some (argsds, inp) \<Rightarrow>
                   (case c_fread 2 inp of
                      None \<Rightarrow> Inl (Readerr True)
                    | Some (_, inp) \<Rightarrow>
                        (case load_args left inp of
                           Inl e \<Rightarrow> Inl e
                         | Inr (argv, inp) \<Rightarrow> Inr (RawStr argsds # argv, inp)))))"

declare load_args.simps(2) [simp del]

text \<open>A record, its first line \<open>buf\<close> being read already.\<close>

definition load_record :: "string \<Rightarrow> string \<Rightarrow> rd_fail + (robj list \<times> string)" where
  "load_record buf inp =
     (if hd buf \<noteq> CHR ''*'' then Inl Fmterr
      else if cstr (tl buf) = []
      then Inl (Readerr (inp = [] \<and> last buf \<noteq> LF \<and> length buf < 127))
      else
        let argc = c_atoi (tl buf) in
        if argc < 1 then Inl Fmterr else load_args (nat argc) inp)"

text \<open>The execution of a command; an unknown command ends the process (\<^term>\<open>Inl ()\<close>), a fake client that
  gets a reply fails an assertion.\<close>

definition load_command :: "(string \<Rightarrow> command) \<Rightarrow> (string \<times> cmd_proc \<times> int) list \<Rightarrow> robj list \<Rightarrow> redis \<Rightarrow> (unit + redis) option" where
  "load_command oth tab argv r =
     do {
       a0 \<leftarrow> arg_at 0 argv;
       name \<leftarrow> obj_ptr a0;
       case lookupCommand tab name of
         None \<Rightarrow> Some (Inl ())
       | Some (cmd_name, cmd, _) \<Rightarrow>
           if cmd = OtherCommand ''multi'' then None
           else do {
             (c, r) \<leftarrow> cmd_run oth cmd \<lparr>cl_argv = argv, cl_cmd = cmd, cl_cmd_name = cmd_name, cl_fake = True, cl_reply = []\<rparr> r;
             if cl_reply c \<noteq> [] then None else Some (Inr r)
           }
     }"

datatype load_end = End_eof | End_exit | End_uxeof

text \<open>The loop of the indexers reads the same records: it fails on the same input with the same error, and
  otherwise leaves the same rest and keeps the first three arguments.\<close>

definition rvars :: "rstate \<Rightarrow> string \<times> string \<times> string" where
  "rvars st = (r_command st, r_key st, r_value st)"

lemma rvars_simps [simp]:
  "rvars (advance n st) = rvars st" "rvars (log_cat s st) = rvars st" "rvars (st\<lparr>r_log := l\<rparr>) = rvars st"
  by (simp_all add: rvars_def advance_def log_cat_def)

lemma rvars_store_arg: "rvars st = rvars st' \<Longrightarrow> rvars (store_arg j s st) = rvars (store_arg j s st')"
  by (simp add: rvars_def store_arg_def)

lemma rvars_store_args: "rvars st = rvars st' \<Longrightarrow> rvars (store_args j ss st) = rvars (store_args j ss st')"
proof (induction ss arbitrary: j st st')
  case (Cons s ss)
  show ?case by (simp add: Cons.IH [OF rvars_store_arg [OF Cons.prems]])
qed simp

lemma load_args_read_args:
  "(\<exists>e. load_args n inp = Inl e \<and> read_args j n st inp = Inl e) \<or>
   (\<exists>ss inp' st'. length ss = n \<and> load_args n inp = Inr (map RawStr ss, inp') \<and> read_args j n st inp = Inr (st', inp') \<and>
      rvars st' = rvars (store_args j ss st))"
proof (induction n arbitrary: j st inp)
  case (Suc n)
  show ?case
  proof (cases "c_fgets 128 inp")
    case None
    then show ?thesis by (simp add: load_args.simps(2) read_args.simps(2))
  next
    case (Some bi)
    obtain buf inpa where bi: "bi = (buf, inpa)" by (cases bi)
    let ?len = "to_uint64 (c_strtol (tl buf))"
    show ?thesis
    proof (cases "hd buf = CHR ''$'' \<and> \<not> 2 ^ 63 \<le> ?len")
      case False
      then show ?thesis using Some bi by (auto simp: load_args.simps(2) read_args.simps(2) Let_def)
    next
      case True
      show ?thesis
      proof (cases "if ?len = 0 then Some ([], inpa) else c_fread ?len inpa")
        case None
        then show ?thesis using Some bi True by (simp add: load_args.simps(2) read_args.simps(2) Let_def)
      next
        case arg: (Some ai)
        obtain s inpb where ai: "ai = (s, inpb)" by (cases ai)
        show ?thesis
        proof (cases "c_fread 2 inpb")
          case None
          then show ?thesis using Some bi True arg ai by (simp add: load_args.simps(2) read_args.simps(2) Let_def)
        next
          case crlf: (Some ci)
          obtain x inpc where ci: "ci = (x, inpc)" by (cases ci)
          let ?sta = "log_cat s (advance ?len (log_cat (cstr buf) (advance (c_strlen buf) st)))"
          let ?stb = "advance 2 (store_arg j s (if 0 < n then log_cat ''\<newline>'' ?sta else ?sta))"
          have read: "read_args j (Suc n) st inp = read_args (Suc j) n ?stb inpc"
            using Some bi True arg ai crlf ci by (simp add: load_args.simps(2) read_args.simps(2) Let_def)
          have load: "load_args (Suc n) inp =
              (case load_args n inpc of Inl e \<Rightarrow> Inl e | Inr (argv, inp) \<Rightarrow> Inr (RawStr s # argv, inp))"
            using Some bi True arg ai crlf ci by (simp add: load_args.simps(2) Let_def)
          have vars: "rvars ?stb = rvars (store_arg j s st)"
            using rvars_store_arg [of "if 0 < n then log_cat ''\<newline>'' ?sta else ?sta" st j s] by simp
          from Suc.IH [of inpc "Suc j" ?stb] show ?thesis
          proof (elim disjE exE conjE)
            fix ss inp' st'
            assume "length ss = n" "load_args n inpc = Inr (map RawStr ss, inp')" "read_args (Suc j) n ?stb inpc = Inr (st', inp')"
              "rvars st' = rvars (store_args (Suc j) ss ?stb)"
            then show ?thesis
              unfolding read load using rvars_store_args [OF vars]
              by (intro disjI2 exI [of _ "s # ss"] exI [of _ inp'] exI [of _ st']) simp
          qed (simp add: read load)
        qed
      qed
    qed
  qed
qed (auto simp: rvars_def)

lemma load_record_read_record:
  "(\<exists>e. load_record buf inp = Inl e \<and> read_record st buf inp = Inl e) \<or>
   (\<exists>ss inp' st'. load_record buf inp = Inr (map RawStr ss, inp') \<and> read_record st buf inp = Inr (st', inp') \<and>
      rvars st' = rvars (store_args 0 ss st))"
proof (cases "hd buf = CHR ''*'' \<and> cstr (tl buf) \<noteq> [] \<and> 1 \<le> c_atoi (tl buf)")
  case False
  then show ?thesis by (auto simp: load_record_def read_record_def Let_def)
next
  case True
  let ?st = "(advance (c_strlen buf) st)\<lparr>r_log := sdscpy (r_log st) buf\<rparr>"
  have "load_record buf inp = load_args (nat (c_atoi (tl buf))) inp"
    "read_record st buf inp = read_args 0 (nat (c_atoi (tl buf))) ?st inp"
    using True by (simp_all add: load_record_def read_record_def Let_def)
  moreover have "rvars (store_args 0 ss ?st) = rvars (store_args 0 ss st)" for ss
    by (rule rvars_store_args) simp
  ultimately show ?thesis
    using load_args_read_args [of "nat (c_atoi (tl buf))" inp 0 ?st] by auto
qed

lemma load_record_shorter:
  assumes "c_fgets 128 inp = Some (buf, inp')" and "load_record buf inp' = Inr (argv, inp'')"
  shows "length inp'' < length inp"
proof -
  obtain st' where "read_record empty_rstate buf inp' = Inr (st', inp'')"
    using load_record_read_record [of buf inp' empty_rstate] assms(2) by auto
  then show ?thesis
    using next_record_shorter [OF assms(1)] by blast
qed

text \<open>The loop; \<open>fsize\<close> is the length of the file and \<open>valid_up_to\<close> the end of the last command.\<close>

function load_loop :: "(string \<Rightarrow> command) \<Rightarrow> (string \<times> cmd_proc \<times> int) list \<Rightarrow> nat \<Rightarrow> string \<Rightarrow> nat \<Rightarrow> nat \<Rightarrow> redis \<Rightarrow>
    (load_end \<times> nat \<times> nat \<times> redis) option" where
  "load_loop oth tab fsize inp valid_up_to count_records r =
     (case c_fgets 128 inp of
        None \<Rightarrow> Some (End_eof, valid_up_to, count_records, r)
      | Some (buf, inp) \<Rightarrow>
          (case load_record buf inp of
             Inl (Readerr True) \<Rightarrow> Some (End_uxeof, valid_up_to, count_records, r)
           | Inl _ \<Rightarrow> Some (End_exit, valid_up_to, count_records, r)
           | Inr (argv, inp) \<Rightarrow>
               (case load_command oth tab argv r of
                  None \<Rightarrow> None
                | Some (Inl _) \<Rightarrow> Some (End_exit, valid_up_to, count_records, r)
                | Some (Inr r) \<Rightarrow> load_loop oth tab fsize inp (fsize - length inp) (count_records + 1) r)))"
  by pat_completeness auto
termination
  by (relation "measure (\<lambda>(oth, tab, fsize, inp, v, n, r). length inp)") (auto simp: load_record_shorter)

declare load_loop.simps [simp del]

datatype load_result = Load_ok string "nat option" redis | Load_err | Load_exit

text \<open>The labels behind the loop.  \<open>can_truncate\<close> says whether \<^verbatim>\<open>truncate\<close> and \<^verbatim>\<open>lseek\<close> succeed.  The result holds
  the file, the number of records that is reported, and the state.\<close>

definition load_finish :: "bool \<Rightarrow> bool \<Rightarrow> string \<Rightarrow> load_end \<times> nat \<times> nat \<times> redis \<Rightarrow> load_result" where
  "load_finish aof_load_truncated can_truncate content = (\<lambda>(res, valid_up_to, count_records, r).
     let r = r\<lparr>sv_loading := False\<rparr> in
     case res of
       End_eof \<Rightarrow> Load_ok content (Some count_records) r
     | End_exit \<Rightarrow> Load_exit
     | End_uxeof \<Rightarrow>
         if aof_load_truncated \<and> can_truncate then Load_ok (take valid_up_to content) None r else Load_exit)"

definition loadAppendOnlyFile ::
    "(string \<Rightarrow> command) \<Rightarrow> (string \<times> cmd_proc \<times> int) list \<Rightarrow> bool \<Rightarrow> bool \<Rightarrow> string option \<Rightarrow> redis \<Rightarrow> load_result option" where
  "loadAppendOnlyFile oth tab aof_load_truncated can_truncate file r =
     (case file of
        None \<Rightarrow> Some Load_exit
      | Some content \<Rightarrow>
          if content = [] then Some Load_err
          else if take 5 content = ''REDIS'' then None
          else map_option (load_finish aof_load_truncated can_truncate content)
                 (load_loop oth tab (length content) content 0 1 (r\<lparr>sv_loading := True\<rparr>)))"

section \<open>Loading written records\<close>

lemma load_args_bulks:
  assumes "\<forall>s \<in> set ss. length s < 2 ^ 63"
  shows "load_args (length ss) (concat (map bulk ss) @ rest) = Inr (map RawStr ss, rest)"
  using assms
proof (induction ss)
  case (Cons s ss)
  then have s: "length s < 2 ^ 63"
    by simp
  have get: "c_fgets 128 (bulk s @ concat (map bulk ss) @ rest) =
      Some (header_line (CHR ''$'') (length s), s @ CRLF @ concat (map bulk ss) @ rest)"
    using c_fgets_header [OF s] by (simp add: bulk_def)
  have len: "to_uint64 (c_strtol (tl (header_line (CHR ''$'') (length s)))) = length s" "\<not> 2 ^ 63 \<le> length s"
    using s strtol_header [OF s] by (simp_all only: tl_header_line not_le)
  have arg: "(if length s = 0 then Some ([], s @ CRLF @ concat (map bulk ss) @ rest)
              else c_fread (length s) (s @ CRLF @ concat (map bulk ss) @ rest)) = Some (s, CRLF @ concat (map bulk ss) @ rest)"
    by simp
  have crlf: "c_fread 2 (CRLF @ concat (map bulk ss) @ rest) = Some (CRLF, concat (map bulk ss) @ rest)"
    by (rule c_fread_exact) simp
  have "load_args (Suc (length ss)) (bulk s @ concat (map bulk ss) @ rest) =
      (case load_args (length ss) (concat (map bulk ss) @ rest) of Inl e \<Rightarrow> Inl e | Inr (argv, inp) \<Rightarrow> Inr (RawStr s # argv, inp))"
    unfolding load_args.simps(2) get option.case prod.case Let_def len arg crlf using len(2) by simp
  with Cons show ?case by simp
qed simp

lemma load_record_aof:
  assumes "sized_args ss"
  shows "load_record (header_line (CHR ''*'') (length ss)) (concat (map bulk ss) @ rest) = Inr (map RawStr ss, rest)"
proof -
  have "0 < length ss" "length ss \<le> 2147483647" "\<forall>s \<in> set ss. length s < 2 ^ 63"
    using assms by (auto simp: sized_args_def)
  then show ?thesis
    using load_args_bulks by (simp add: load_record_def)
qed

lemma load_record_torn:
  assumes "p @ q = aof_record ss" and "p \<noteq> []" and "q \<noteq> []" and "sized_args ss"
  shows "\<exists>buf inp. c_fgets 128 p = Some (buf, inp) \<and> load_record buf inp = Inl (Readerr True)"
proof -
  obtain buf inp where "c_fgets 128 p = Some (buf, inp)" "read_record empty_rstate buf inp = Inl (Readerr True)"
    using read_record_torn [OF assms] by metis
  then show ?thesis
    using load_record_read_record [of buf inp empty_rstate] by auto
qed

section \<open>The effect of a log\<close>

text \<open>The commands the recoveries are compared on, and what each does to the key space.\<close>

fun loadable :: "string list \<Rightarrow> bool" where
  "loadable [c, k, v] \<longleftrightarrow> map c_tolower c = ''set'' \<and> small v"
| "loadable [c, k] \<longleftrightarrow> map c_tolower c \<in> {''incr'', ''del'', ''get''} \<or> map c_tolower c = ''select'' \<and> k = ''0''"
| "loadable _ \<longleftrightarrow> False"

definition incr_effect :: "string \<Rightarrow> (string \<Rightarrow> robj option) \<Rightarrow> (string \<Rightarrow> robj option)" where
  "incr_effect k d =
     (case int_value (d k) of None \<Rightarrow> d | Some n \<Rightarrow> if in_int64 (n + 1) then d(k \<mapsto> IntEnc (n + 1)) else d)"

fun record_effect :: "string list \<Rightarrow> (string \<Rightarrow> robj option) \<Rightarrow> (string \<Rightarrow> robj option)" where
  "record_effect [c, k, v] d = d(k \<mapsto> encoded v)"
| "record_effect [c, k] d =
     (if map c_tolower c = ''incr'' then incr_effect k d else if map c_tolower c = ''del'' then d(k := None) else d)"
| "record_effect _ d = d"

lemma lookup_record:
  "map c_tolower c = ''set'' \<Longrightarrow> lookupCommand tab c = Some (''set'', SetCommand, -3)"
  "map c_tolower c = ''get'' \<Longrightarrow> lookupCommand tab c = Some (''get'', GetCommand, 2)"
  "map c_tolower c = ''incr'' \<Longrightarrow> lookupCommand tab c = Some (''incr'', IncrCommand, 2)"
  "map c_tolower c = ''del'' \<Longrightarrow> lookupCommand tab c = Some (''del'', DelCommand, -2)"
  unfolding lookupCommand_def redisCommandTable_def append_Cons find.simps case_prod_conv lower_SETIR lower_names
  by simp_all

lemma lower_names2:
  "map c_tolower ''decr'' = ''decr''" "map c_tolower ''mget'' = ''mget''" "map c_tolower ''incrby'' = ''incrby''"
  "map c_tolower ''decrby'' = ''decrby''" "map c_tolower ''getset'' = ''getset''" "map c_tolower ''mset'' = ''mset''"
  "map c_tolower ''msetnx'' = ''msetnx''" "map c_tolower ''select'' = ''select''"
  by (simp_all add: c_tolower_def char_of_def bit_0)

lemma lookup_select: "map c_tolower c = ''select'' \<Longrightarrow> lookupCommand tab c = Some (''select'', SelectCommand, 2)"
  unfolding lookupCommand_def redisCommandTable_def append_Cons find.simps case_prod_conv lower_SETIR lower_names lower_names2
  by simp

lemma load_command_record:
  assumes "loadable ss" and "persistent r" and "db_id r = 0" and "0 < sv_dbnum r"
  shows "\<exists>r'. load_command oth tab (map RawStr ss) r = Some (Inr r') \<and> db_dict r' = record_effect ss (db_dict r) \<and>
           persistent r' \<and> db_id r' = 0 \<and> sv_dbnum r' = sv_dbnum r"
proof -
  let ?c = "\<lambda>name cmd. \<lparr>cl_argv = map RawStr ss, cl_cmd = cmd, cl_cmd_name = name, cl_fake = True, cl_reply = []\<rparr>"
  have args: "has_args (?c name cmd) ss" for name cmd
    by (simp add: has_args_def list_all2_conv_all_nth)
  have pers: "wf_redis r" "\<And>k. db_expires r k = None"
    using assms(2) by (simp_all add: persistent_def)
  consider (set) c k v where "ss = [c, k, v]" "map c_tolower c = ''set''" "small v"
    | (get) c k where "ss = [c, k]" "map c_tolower c = ''get''"
    | (incr) c k where "ss = [c, k]" "map c_tolower c = ''incr''"
    | (del) c k where "ss = [c, k]" "map c_tolower c = ''del''"
    | (sel) c where "ss = [c, ''0'']" "map c_tolower c = ''select''"
    using assms(1) by (cases ss rule: loadable.cases) auto
  then show ?thesis
  proof cases
    case set
    have "persistent ((r\<lparr>db_dict := (db_dict r)(k \<mapsto> encoded v)\<rparr>)\<lparr>sv_dirty := sv_dirty r + 1\<rparr>)"
      using persistent_put [OF assms(2), of "encoded v" k] set(3) by (subst persistent_same) auto
    then show ?thesis
      using set set_eq [OF args [of SetCommand "''set''", unfolded set(1)], of r] pers assms(3) 
      by (simp add: load_command_def arg_at_def lookup_record addReply_def)
  next
    case get
    have "persistent (r\<lparr>stat_keyspace_hits := n\<rparr>)" "persistent (r\<lparr>stat_keyspace_misses := n\<rparr>)" for n
      using assms(2) by (simp_all add: persistent_def)
    then show ?thesis
      using get get_eq [OF args [of GetCommand "''get''", unfolded get(1)], of r] lookupKeyRead_persistent [OF pers(2)] assms(3)
      by (cases "db_dict r k") (simp_all add: load_command_def arg_at_def lookup_record addReply_def split: option.splits)
  next
    case incr
    have put: "persistent ((r\<lparr>db_dict := (db_dict r)(k \<mapsto> IntEnc n)\<rparr>)\<lparr>sv_dirty := sv_dirty r + 1\<rparr>)" if "in_int64 n" for n
      using persistent_put [OF assms(2), of "IntEnc n" k] that by (subst persistent_same) auto
    show ?thesis
      using incr incr_eq [OF args [of IncrCommand "''incr''", unfolded incr(1)] pers(1) pers(2)] assms(2,3) put
      by (auto simp: load_command_def arg_at_def lookup_record addReply_def incr_effect_def int_value_def split: option.splits)
  next
    case del
    have "persistent ((r\<lparr>db_dict := (db_dict r)(k := None)\<rparr>)\<lparr>sv_dirty := n\<rparr>)" for n
      using assms(2) by (auto simp: persistent_def wf_redis_def)
    then show ?thesis
      using del del_eq [OF args [of DelCommand "''del''", unfolded del(1)] pers(2)] assms(3)
      by (simp add: load_command_def arg_at_def lookup_record addReply_def)
  next
    case sel
    have "string2ll ''0'' = Some 0"
      by (simp add: string2ll_iff in_int64_def show_int_def digit_char_def char_of_def bit_0)
    then show ?thesis
      using sel assms
      by (auto simp: load_command_def arg_at_def lookup_select selectCommand_def getLongFromObjectOrReply_def
          getLongLongFromObjectOrReply_def selectDb_def addReply_def in_int32_def)
  qed
qed

text \<open>A state that loading starts from.\<close>

definition load_ready :: "redis \<Rightarrow> bool" where
  "load_ready r \<longleftrightarrow> persistent r \<and> db_id r = 0 \<and> 0 < sv_dbnum r"

lemma load_loop_log:
  assumes "\<forall>ss \<in> set log. loadable ss \<and> sized_args ss" and "load_ready r"
  shows "\<exists>r'. load_loop oth tab fsize (concat (map aof_record log) @ tail) v n r =
             load_loop oth tab fsize tail (if log = [] then v else fsize - length tail) (n + length log) r' \<and>
           db_dict r' = fold record_effect log (db_dict r) \<and> load_ready r'"
  using assms
proof (induction log arbitrary: v n r)
  case (Cons ss log)
  then have ss: "loadable ss" "sized_args ss"
    by simp_all
  let ?inp = "concat (map aof_record log) @ tail"
  obtain ra where ra: "load_command oth tab (map RawStr ss) r = Some (Inr ra)" "db_dict ra = record_effect ss (db_dict r)" "load_ready ra"
    using load_command_record [OF ss(1), of r oth tab] Cons.prems(2) by (auto simp: load_ready_def)
  have step: "load_loop oth tab fsize (concat (map aof_record (ss # log)) @ tail) v n r =
      load_loop oth tab fsize ?inp (fsize - length ?inp) (n + 1) ra"
    using aof_record_line [OF ss(2), of ?inp] load_record_aof [OF ss(2), of ?inp] ra(1) by (subst load_loop.simps) simp
  obtain r' where r': "load_loop oth tab fsize ?inp (fsize - length ?inp) (n + 1) ra =
        load_loop oth tab fsize tail (if log = [] then fsize - length ?inp else fsize - length tail) (n + 1 + length log) r'"
      "db_dict r' = fold record_effect log (db_dict ra)" "load_ready r'"
    using Cons.IH [OF _ ra(3), of "fsize - length ?inp" "n + 1"] Cons.prems(1) by auto
  then show ?case
    unfolding step using ra(2) by (intro exI [of _ r']) auto
qed auto

lemma load_loop_end: "load_loop oth tab fsize [] v n r = Some (End_eof, v, n, r)"
  by (subst load_loop.simps) (simp add: c_fgets_def)

lemma load_loop_torn:
  assumes "p @ q = aof_record ss" and "p \<noteq> []" and "q \<noteq> []" and "sized_args ss"
  shows "load_loop oth tab fsize p v n r = Some (End_uxeof, v, n, r)"
proof -
  obtain buf inp where "c_fgets 128 p = Some (buf, inp)" "load_record buf inp = Inl (Readerr True)"
    using load_record_torn [OF assms] by blast
  then show ?thesis
    by (subst load_loop.simps) simp
qed

lemma log_not_rdb: "log \<noteq> [] \<Longrightarrow> take 5 (concat (map aof_record log) @ tail) \<noteq> ''REDIS''"
  by (cases log) (auto simp: aof_record_def header_line_def)

lemma torn_not_rdb: "p @ q = aof_record ss \<Longrightarrow> take 5 p \<noteq> ''REDIS''"
  by (cases p) (auto simp: aof_record_def header_line_def)

lemma load_ready_loading: "load_ready (r\<lparr>sv_loading := b\<rparr>) \<longleftrightarrow> load_ready r"
  by (simp add: load_ready_def persistent_def wf_redis_def)

text \<open>Loading a log, and a log with a torn record at its end.\<close>

lemma load_log:
  assumes "\<forall>ss \<in> set log. loadable ss \<and> sized_args ss" and "log \<noteq> []" and "load_ready r"
  shows "\<exists>r'. loadAppendOnlyFile oth tab trunc can (Some (concat (map aof_record log))) r =
             Some (Load_ok (concat (map aof_record log)) (Some (length log + 1)) r') \<and>
           db_dict r' = fold record_effect log (db_dict r) \<and> load_ready r'"
proof -
  let ?f = "concat (map aof_record log)"
  obtain r' where r': "load_loop oth tab (length ?f) ?f 0 1 (r\<lparr>sv_loading := True\<rparr>) = Some (End_eof, length ?f, 1 + length log, r')"
      "db_dict r' = fold record_effect log (db_dict r)" "load_ready r'"
    using load_loop_log [OF assms(1), of "r\<lparr>sv_loading := True\<rparr>" oth tab "length ?f" "[]" 0 1] assms(2,3)
    by (auto simp: load_loop_end load_ready_loading)
  have "?f \<noteq> []" "take 5 ?f \<noteq> ''REDIS''"
    using assms(2) log_not_rdb [OF assms(2), of "[]"] by auto
  with r' show ?thesis
    by (auto simp: loadAppendOnlyFile_def load_finish_def load_ready_loading)
qed

lemma load_torn_log:
  assumes "\<forall>ss \<in> set log. loadable ss \<and> sized_args ss" and "load_ready r"
    and "p @ q = aof_record ss" and "p \<noteq> []" and "q \<noteq> []" and "sized_args ss"
  shows "\<exists>r'. loadAppendOnlyFile oth tab trunc can (Some (concat (map aof_record log) @ p)) r =
             Some (if trunc \<and> can then Load_ok (concat (map aof_record log)) None r' else Load_exit) \<and>
           db_dict r' = fold record_effect log (db_dict r) \<and> load_ready r'"
proof -
  let ?g = "concat (map aof_record log)"
  let ?f = "?g @ p"
  obtain r' where r': "load_loop oth tab (length ?f) ?f 0 1 (r\<lparr>sv_loading := True\<rparr>) =
        Some (End_uxeof, if log = [] then 0 else length ?f - length p, 1 + length log, r')"
      "db_dict r' = fold record_effect log (db_dict r)" "load_ready r'"
    using load_loop_log [OF assms(1), of "r\<lparr>sv_loading := True\<rparr>" oth tab "length ?f" p 0 1] assms(2)
      load_loop_torn [OF assms(3-6)] by (auto simp: load_ready_loading)
  have "?f \<noteq> []" "take 5 ?f \<noteq> ''REDIS''" "take (if log = [] then 0 else length ?f - length p) ?f = ?g"
    using assms(4) log_not_rdb [of log p] torn_not_rdb [OF assms(3)] by (cases "log = []"; auto)+
  with r' show ?thesis
    by (auto simp: loadAppendOnlyFile_def load_finish_def load_ready_loading)
qed

section \<open>Sequential and instant recovery\<close>

lemma c_toupper_tolower: "c_toupper (c_tolower c) = c_toupper c"
proof (cases "65 \<le> (of_char c :: nat) \<and> (of_char c :: nat) \<le> 90")
  case True
  then have "of_char (c_tolower c) = (of_char c + 32 :: nat)"
    by (simp add: c_tolower_def)
  with True show ?thesis
    by (auto simp: c_toupper_def)
next
  case False
  then have "c_tolower c = c"
    by (auto simp: c_tolower_def)
  then show ?thesis by simp
qed

lemma upper_of_lower: "map c_tolower c = s \<Longrightarrow> sdstoupper c = sdstoupper s"
  by (auto simp: sdstoupper_def c_toupper_tolower)

lemma upper_names:
  "map c_tolower c = ''set'' \<Longrightarrow> sdstoupper c = ''SET''" "map c_tolower c = ''incr'' \<Longrightarrow> sdstoupper c = ''INCR''"
  "map c_tolower c = ''del'' \<Longrightarrow> sdstoupper c = ''DEL''" "map c_tolower c = ''get'' \<Longrightarrow> sdstoupper c = ''GET''"
  "map c_tolower c = ''select'' \<Longrightarrow> sdstoupper c = ''SELECT''"
  by (drule upper_of_lower, simp add: sdstoupper_def c_toupper_def char_of_def bit_0)+

text \<open>The values the instant recovery can count: it keeps them as 32-bit integers.\<close>

definition incr_fits :: "string option \<Rightarrow> bool" where
  "incr_fits v \<longleftrightarrow> (case v of None \<Rightarrow> True
     | Some s \<Rightarrow> (case string2ll s of None \<Rightarrow> False | Some n \<Rightarrow> in_int32 n \<and> in_int32 (n + 1)))"

fun comparable :: "string list list \<Rightarrow> kv \<Rightarrow> bool" where
  "comparable [] kv \<longleftrightarrow> True"
| "comparable (ss # log) kv \<longleftrightarrow> loadable ss \<and> (sdstoupper (hd ss) = ''INCR'' \<longrightarrow> incr_fits (kv (ss ! 1))) \<and>
     comparable log (kv_step ss kv)"

lemma incr_value_effect:
  assumes "incr_fits v"
  shows "\<exists>n. int_value (map_option encoded v) = Some n \<and> in_int64 (n + 1) \<and> encoded (incr_value v) = IntEnc (n + 1)"
proof (cases v)
  case None
  have "''0'' = show_int 0"
    by (simp add: show_int_def digit_char_def char_of_def bit_0)
  then have "c_atoi ''0'' = 0"
    by (simp add: in_int32_def)
  with None show ?thesis
    by (simp add: int_value_def incr_value_def in_int64_def in_int32_def)
next
  case (Some s)
  then obtain n where n: "string2ll s = Some n" "in_int32 n" "in_int32 (n + 1)"
    using assms by (auto simp: incr_fits_def split: option.splits)
  then have "s = show_int n"
    by (simp add: string2ll_iff)
  with Some n show ?thesis
    by (simp add: int_value_def incr_value_def in_int32_int64)
qed

lemma record_effect_kv:
  assumes "loadable ss" and "sdstoupper (hd ss) = ''INCR'' \<longrightarrow> incr_fits (kv (ss ! 1))"
  shows "record_effect ss (map_option encoded \<circ> kv) = map_option encoded \<circ> kv_step ss kv"
  using assms
proof (cases ss rule: loadable.cases)
  case (1 c k v)
  with assms show ?thesis by (auto simp: upper_names fun_eq_iff)
next
  case (2 c k)
  show ?thesis
  proof (cases "map c_tolower c = ''incr''")
    case True
    then obtain n where "int_value (map_option encoded (kv k)) = Some n" "in_int64 (n + 1)" "encoded (incr_value (kv k)) = IntEnc (n + 1)"
      using assms(2) 2 incr_value_effect [of "kv k"] by (auto simp: upper_names)
    with 2 True show ?thesis by (auto simp: incr_effect_def upper_names fun_eq_iff)
  next
    case False
    with assms 2 show ?thesis by (auto simp: upper_names fun_eq_iff)
  qed
qed auto

lemma log_effect_kv:
  "comparable log kv \<Longrightarrow> fold record_effect log (map_option encoded \<circ> kv) = map_option encoded \<circ> fold kv_step log kv"
  by (induction log arbitrary: kv) (simp_all add: record_effect_kv)

section \<open>Properties\<close>

text \<open>(C29) The indexers and the loader of the append only file read alike: on any input either both fail with the
  same error, or both stop at the same position and the indexer's command, key and value are the
  arguments that the loader passes to the command.\<close>

theorem indexer_reads_like_loader:
  "(\<exists>e. load_record buf inp = Inl e \<and> read_record st buf inp = Inl e) \<or>
   (\<exists>ss inp' st'. load_record buf inp = Inr (map RawStr ss, inp') \<and> read_record st buf inp = Inr (st', inp') \<and>
      rvars st' = rvars (store_args 0 ss st))"
  by (rule load_record_read_record)

text \<open>(C12) Loading a file that ends in a torn record: with \<^verbatim>\<open>aof-load-truncated\<close> the torn record is cut off the
  file, exactly the complete commands are executed, and the shortened file loads to the same key
  space; without it the server does not start.\<close>

theorem torn_tail_truncated:
  assumes "\<forall>ss \<in> set log. loadable ss \<and> sized_args ss" and "log \<noteq> []" and "load_ready r"
    and "p @ q = aof_record ss" and "p \<noteq> []" and "q \<noteq> []" and "sized_args ss"
  shows "loadAppendOnlyFile oth tab False can (Some (concat (map aof_record log) @ p)) r = Some Load_exit \<and>
    (\<exists>r' r'' n. loadAppendOnlyFile oth tab True True (Some (concat (map aof_record log) @ p)) r =
                  Some (Load_ok (concat (map aof_record log)) None r') \<and>
                loadAppendOnlyFile oth tab True True (Some (concat (map aof_record log))) r =
                  Some (Load_ok (concat (map aof_record log)) n r'') \<and>
                db_dict r' = fold record_effect log (db_dict r) \<and> db_dict r'' = db_dict r')"
  using load_torn_log [OF assms(1,3-7), of oth tab False can] load_torn_log [OF assms(1,3-7), of oth tab True True]
    load_log [OF assms(1-3), of oth tab True True] by auto

theorem torn_tail_truncated_witness:
  "loadAppendOnlyFile (\<lambda>_ _ _. None) [] False True (Some (concat (map aof_record [[''SET'', ''k'', ''7'']]) @ ''*1'')) test_redis =
     Some Load_exit \<and>
   (\<exists>r' r'' n. loadAppendOnlyFile (\<lambda>_ _ _. None) [] True True (Some (concat (map aof_record [[''SET'', ''k'', ''7'']]) @ ''*1'')) test_redis =
                 Some (Load_ok (concat (map aof_record [[''SET'', ''k'', ''7'']])) None r') \<and>
               loadAppendOnlyFile (\<lambda>_ _ _. None) [] True True (Some (concat (map aof_record [[''SET'', ''k'', ''7'']]))) test_redis =
                 Some (Load_ok (concat (map aof_record [[''SET'', ''k'', ''7'']])) n r'') \<and>
               db_dict r' = fold record_effect [[''SET'', ''k'', ''7'']] (db_dict test_redis) \<and> db_dict r'' = db_dict r')"
proof (rule torn_tail_truncated [where q = "CRLF @ bulk ''PING''" and ss = "[''PING'']"])
  show "''*1'' @ CRLF @ bulk ''PING'' = aof_record [''PING'']"
    by (simp add: aof_record_def header_line_def show_nat.simps digit_char_numerals [unfolded One_nat_def])
  show "load_ready test_redis"
    by (simp add: load_ready_def persistent_def) (simp add: test_redis_def)
  have "map c_tolower ''SET'' = ''set''"
    by (simp add: c_tolower_def char_of_def bit_0)
  then show "\<forall>ss \<in> set [[''SET'', ''k'', ''7'']]. loadable ss \<and> sized_args ss"
    by (simp add: sized_args_def)
qed (simp_all add: sized_args_def)

end
