(* ===== verification/Crash_Recovery.thy ===== *)
theory Crash_Recovery
  imports Recovery_Correctness Aof_Load
begin

text \<open>
  From the execution of requests to the recovery after a crash.  A server in normal operation
  (\<open>serve_clients\<close>) answers like the abstract server and writes to the append only file exactly the
  records whose loading gives its key space back; the restart indexes them, and the instant
  recovery starts from there.  The bytes of the append only file are those given to it
  (\<open>sv_aof_buf\<close>): the crash loses none of them.
\<close>

section \<open>A server in normal operation\<close>

text \<open>The requests of clients, each executed by \<open>processCommand\<close>, and their replies.\<close>

fun serve_clients :: "('db, 'c) env \<Rightarrow> client list \<Rightarrow> 'db ir_server \<Rightarrow> (reply list \<times> 'db ir_server) option" where
  "serve_clients E [] s = Some ([], s)"
| "serve_clients E (c # cs) s =
     do {
       (_, c', s) \<leftarrow> processCommand E (0, 0, 0) c s;
       (rs, s) \<leftarrow> serve_clients E cs s;
       Some (cl_reply c' @ rs, s)
     }"

text \<open>Requests that the indexers' buffers and the log can hold.\<close>

definition logs :: "client \<Rightarrow> request \<Rightarrow> bool" where
  "logs c req \<longleftrightarrow> (\<exists>name. sends c name req) \<and> cl_reply c = [] \<and> (\<forall>a \<in> set (req_args req). clean a)"

text \<open>The counters stay within 32 bits, as the instant recovery needs it.\<close>

fun counts32 :: "request list \<Rightarrow> (string \<Rightarrow> robj option) \<Rightarrow> bool" where
  "counts32 [] d \<longleftrightarrow> True"
| "counts32 (req # reqs) d \<longleftrightarrow>
     (case fst (req_effect req d) of R_longlong n \<Rightarrow> in_int32 n \<and> in_int32 (n - 1) | _ \<Rightarrow> True) \<and>
     counts32 reqs (snd (req_effect req d))"

definition normal :: "'db ir_server \<Rightarrow> bool" where
  "normal s \<longleftrightarrow> \<not> instant_recovery_performing s \<and> serving s \<and> sv_aof_state (sv_redis s) = AOF_ON \<and> db_id (sv_redis s) = 0"

section \<open>What is logged\<close>

lemma select_record_zero: "select_record 0 = aof_record [''SELECT'', ''0'']"
  by (simp add: select_record_def aof_record_def header_line_def bulk_def show_int_def show_nat.simps Let_def
      digit_char_numerals [unfolded One_nat_def] digit_char_def char_of_def bit_0)

lemma lower_clean:
  assumes "map c_tolower name = s" and "clean s"
  shows "clean name"
proof -
  have "c_tolower NUL = NUL" "c_tolower LF = LF"
    by (simp_all add: c_tolower_def)
  then show ?thesis
    using assms unfolding clean_def by (metis image_eqI list.set_map)
qed

lemma req_name_clean: "clean (req_name req)" 
  by (cases req) simp_all

text \<open>The effect of a request's record is that of the request.\<close>

lemma record_effect_request:
  assumes "map c_tolower name = req_name req" and "req_writes req d"
  shows "record_effect (name # req_args req) d = snd (req_effect req d)"
  using assms by (cases req) (auto simp: incr_effect_def integer_error_def overflow_error_def split: option.splits if_splits)

lemma request_no_write: "\<not> req_writes req d \<Longrightarrow> snd (req_effect req d) = d"
  by (cases req) (auto split: option.splits if_splits)

lemma request_record:
  assumes "sends c name req" and "\<forall>a \<in> set (req_args req). clean a" and "req_writes req d"
  shows "loadable (name # req_args req)" and "wf_record (name # req_args req)"
proof -
  have low: "map c_tolower name = req_name req" and small: "\<forall>a \<in> set (req_args req). small a"
    using assms(1) by (auto simp: sends_def)
  show "loadable (name # req_args req)"
    using low small assms(3) by (cases req) auto
  have "length name \<le> 4"
    using arg_cong [OF low, of length] by (cases req) auto
  moreover have "clean name"
    using lower_clean [OF low req_name_clean] .
  moreover have "sdstoupper name = sdstoupper (req_name req)"
    by (rule upper_of_lower [OF low])
  ultimately show "wf_record (name # req_args req)"
    using small assms(2,3)
    by (cases req) (auto simp: sized_args_def sdstoupper_def c_toupper_def)
qed

lemma request_comparable:
  assumes "map c_tolower name = req_name req" and "req_writes req (map_option encoded \<circ> kv)"
    and "case fst (req_effect req (map_option encoded \<circ> kv)) of R_longlong n \<Rightarrow> in_int32 n \<and> in_int32 (n - 1) | _ \<Rightarrow> True"
    and "sdstoupper name = ''INCR''"
  shows "incr_fits (kv (req_args req ! 0))"
proof (cases req)
  case (Rincr k)
  then obtain n where "int_value (map_option encoded (kv k)) = Some n" "in_int32 (n + 1)" "in_int32 n"
    using assms(2,3) by (auto simp: integer_error_def overflow_error_def split: option.splits if_splits)
  with Rincr show ?thesis
    by (cases "kv k") (auto simp: incr_fits_def int_value_def)
next
  case (Rset k v)
  then show ?thesis
    using assms(1,4) upper_names(1) [of name] by simp
next
  case (Rget k)
  then show ?thesis using assms(2) by simp
qed

lemma select_loadable: "loadable [''SELECT'', ''0'']" "wf_record [''SELECT'', ''0'']"
  by (simp_all add: c_tolower_def sized_args_def sdstoupper_def c_toupper_def char_of_def bit_0)

text \<open>A request in normal operation.\<close>

lemma same_recovery_trans: "same_recovery s s' \<Longrightarrow> same_recovery s' s'' \<Longrightarrow> same_recovery s s''"
  by (auto simp: same_recovery_def)

lemma normal_sends:
  assumes "normal s" and "sends c name req" and "\<forall>a \<in> set (req_args req). clean a"
    and "db_dict (sv_redis s) = map_option encoded \<circ> kv"
    and "case fst (req_effect req (db_dict (sv_redis s))) of R_longlong n \<Rightarrow> in_int32 n \<and> in_int32 (n - 1) | _ \<Rightarrow> True"
  shows "\<exists>c' s' lg. processCommand E tm c s = Some (C_OK, c', s') \<and> cl_reply c' = cl_reply c @ [fst (req_effect req (db_dict (sv_redis s)))] \<and>
           cl_fake c' = cl_fake c \<and>
           db_dict (sv_redis s') = snd (req_effect req (db_dict (sv_redis s))) \<and> normal s' \<and>
           sv_aof_buf (sv_redis s') = sv_aof_buf (sv_redis s) @ concat (map aof_record lg) \<and>
           fold record_effect lg (db_dict (sv_redis s)) = db_dict (sv_redis s') \<and>
           (\<forall>ss \<in> set lg. wf_record ss) \<and> comparable lg kv \<and> same_recovery s s'"
proof -
  let ?d = "db_dict (sv_redis s)"
  have low: "map c_tolower name = req_name req"
    using assms(2) by (simp add: sends_def)
  obtain ca where ca: "requests ca name req" "cl_reply ca = cl_reply c" "cl_fake ca = cl_fake c"
      "processCommand E tm c s = map_option (\<lambda>(c', s'). (C_OK, c', s')) (call E True tm ca s)"
    using processCommand_request [OF assms(2)] by blast
  have load: "\<not> must_load (req_key req) s" and serv: "serving s" and aof: "sv_aof_state (sv_redis s) = AOF_ON" "db_id (sv_redis s) = 0"
    using assms(1) by (auto simp: normal_def must_load_def)
  let ?lg = "if req_writes req ?d then (if sv_aof_selected_db (sv_redis s) \<noteq> 0 then [[''SELECT'', ''0'']] else []) @ [name # req_args req] else []"
  obtain c' s' where call: "call E True tm ca s = Some (c', s')" "cl_reply c' = cl_reply ca @ [fst (req_effect req ?d)]"
      "db_dict (sv_redis s') = snd (req_effect req ?d)" "serving s'" "same_recovery s s'"
      "sv_aof_state (sv_redis s') = AOF_ON" "db_id (sv_redis s') = 0"
      "sv_aof_buf (sv_redis s') = sv_aof_buf (sv_redis s) @ concat (map aof_record ?lg)" "cl_fake c' = cl_fake ca"
    using call_request_gen [OF _ ca(1) serv, where call_aof = True and tm = tm and E = E] load aof
    by (auto simp: aof_out_def select_record_zero)
  have eff: "fold record_effect ?lg ?d = db_dict (sv_redis s')"
    using call(3) record_effect_request [OF low] request_no_write by (auto simp: c_tolower_def char_of_def bit_0)
  have sel: "kv_step [''SELECT'', ''0''] kv = kv" "sdstoupper ''SELECT'' = ''SELECT''"
    by (simp_all add: sdstoupper_def c_toupper_def char_of_def bit_0)
  have "comparable ?lg kv"
    using request_record(1) [OF assms(2,3)] select_loadable(1) sel request_comparable [OF low, of kv] assms(4,5) by auto
  moreover have "\<forall>ss \<in> set ?lg. wf_record ss"
    using request_record(2) [OF assms(2,3)] select_loadable(2) by auto
  moreover have "normal s'"
    using assms(1) call(4-7) by (simp add: normal_def same_recovery_def)
  ultimately show ?thesis
    using ca(2-4) call(1-3,5,8,9) eff by (intro exI [of _ c'] exI [of _ s'] exI [of _ ?lg]) simp
qed

lemma normal_request:
  assumes "normal s" and "logs c req" and "db_dict (sv_redis s) = map_option encoded \<circ> kv"
    and "case fst (req_effect req (db_dict (sv_redis s))) of R_longlong n \<Rightarrow> in_int32 n \<and> in_int32 (n - 1) | _ \<Rightarrow> True"
  shows "\<exists>c' s' lg. processCommand E tm c s = Some (C_OK, c', s') \<and> cl_reply c' = [fst (req_effect req (db_dict (sv_redis s)))] \<and>
           db_dict (sv_redis s') = snd (req_effect req (db_dict (sv_redis s))) \<and> normal s' \<and>
           sv_aof_buf (sv_redis s') = sv_aof_buf (sv_redis s) @ concat (map aof_record lg) \<and>
           fold record_effect lg (db_dict (sv_redis s)) = db_dict (sv_redis s') \<and>
           (\<forall>ss \<in> set lg. wf_record ss) \<and> comparable lg kv \<and> same_recovery s s'"
proof -
  obtain name where "sends c name req" "\<forall>a \<in> set (req_args req). clean a" "cl_reply c = []"
    using assms(2) by (auto simp: logs_def)
  then show ?thesis
    using normal_sends [OF assms(1) _ _ assms(3,4), of c name E tm] by (simp only: append_Nil) blast
qed

lemma comparable_append: "comparable (xs @ ys) kv \<longleftrightarrow> comparable xs kv \<and> comparable ys (fold kv_step xs kv)"
  by (induction xs arbitrary: kv) auto

lemma serve_clients_log:
  assumes "list_all2 logs cs reqs" and "normal s" and "db_dict (sv_redis s) = map_option encoded \<circ> kv"
    and "counts32 reqs (db_dict (sv_redis s))"
  shows "\<exists>s' lg. serve_clients E cs s = Some (fst (serve reqs (db_dict (sv_redis s))), s') \<and>
           db_dict (sv_redis s') = snd (serve reqs (db_dict (sv_redis s))) \<and> normal s' \<and>
           sv_aof_buf (sv_redis s') = sv_aof_buf (sv_redis s) @ concat (map aof_record lg) \<and>
           db_dict (sv_redis s') = map_option encoded \<circ> fold kv_step lg kv \<and>
           (\<forall>ss \<in> set lg. wf_record ss) \<and> comparable lg kv \<and> same_recovery s s'"
  using assms
proof (induction cs reqs arbitrary: s kv rule: list_all2_induct)
  case Nil
  then show ?case by (intro exI [of _ s] exI [of _ "[]"]) (simp add: same_recovery_def)
next
  case (Cons c cs req reqs)
  let ?d = "db_dict (sv_redis s)"
  obtain c' s1 lga where a: "processCommand E (0, 0, 0) c s = Some (C_OK, c', s1)" "cl_reply c' = [fst (req_effect req ?d)]"
      "db_dict (sv_redis s1) = snd (req_effect req ?d)" "normal s1"
      "sv_aof_buf (sv_redis s1) = sv_aof_buf (sv_redis s) @ concat (map aof_record lga)"
      "fold record_effect lga ?d = db_dict (sv_redis s1)" "\<forall>ss \<in> set lga. wf_record ss" "comparable lga kv" "same_recovery s s1"
    using normal_request [OF Cons.prems(1) Cons.hyps(1) Cons.prems(2), of E "(0, 0, 0)"] Cons.prems(3) by auto
  have kva: "db_dict (sv_redis s1) = map_option encoded \<circ> fold kv_step lga kv"
    using log_effect_kv [OF a(8)] a(6) unfolding Cons.prems(2) by (simp only:)
  have "counts32 reqs (db_dict (sv_redis s1))"
    using Cons.prems(3) a(3) by simp
  from Cons.IH [OF a(4) kva this] obtain s' lgb where b:
      "serve_clients E cs s1 = Some (fst (serve reqs (db_dict (sv_redis s1))), s')"
      "db_dict (sv_redis s') = snd (serve reqs (db_dict (sv_redis s1)))" "normal s'"
      "sv_aof_buf (sv_redis s') = sv_aof_buf (sv_redis s1) @ concat (map aof_record lgb)"
      "db_dict (sv_redis s') = map_option encoded \<circ> fold kv_step lgb (fold kv_step lga kv)"
      "\<forall>ss \<in> set lgb. wf_record ss" "comparable lgb (fold kv_step lga kv)" "same_recovery s1 s'"
    by blast
  have run: "serve_clients E (c # cs) s = Some (fst (serve (req # reqs) ?d), s')" "db_dict (sv_redis s') = snd (serve (req # reqs) ?d)"
    using a(1-3) b(1,2) by (simp_all add: case_prod_beta Let_def)
  show ?case
    by (intro exI [of _ s'] exI [of _ "lga @ lgb"] conjI)
      (use run a(5,7,8) b(3-7) same_recovery_trans [OF a(9) b(8)] in \<open>simp_all add: comparable_append ball_Un\<close>)
qed

text \<open>The bytes of a log determine its records.\<close>

lemma aof_log_inj:
  assumes "concat (map aof_record la) = concat (map aof_record lb)" and "\<forall>ss \<in> set la. sized_args ss" and "\<forall>ss \<in> set lb. sized_args ss"
  shows "la = lb"
  using assms
proof (induction la arbitrary: lb)
  case Nil
  then show ?case by (cases lb) auto
next
  case (Cons a la)
  then obtain b lb' where lb: "lb = b # lb'"
    by (cases lb) auto
  let ?ra = "concat (map aof_record la)" and ?rb = "concat (map aof_record lb')"
  have eq: "aof_record a @ ?ra = aof_record b @ ?rb" and sized: "sized_args a" "sized_args b"
    using Cons.prems lb by auto
  have "header_line (CHR ''*'') (length a) = header_line (CHR ''*'') (length b)" "concat (map bulk a) @ ?ra = concat (map bulk b) @ ?rb"
    using aof_record_line [OF sized(1), of ?ra] aof_record_line [OF sized(2), of ?rb] eq by auto
  then have "Inr (map RawStr a, ?ra) = (Inr (map RawStr b, ?rb) :: rd_fail + (robj list \<times> string))"
    using load_record_aof [OF sized(1), of ?ra] load_record_aof [OF sized(2), of ?rb] by simp
  then have "a = b" "?ra = ?rb"
    using inj_map_eq_map [of RawStr a b] by (auto simp: inj_def)
  with Cons lb show ?case by simp
qed

section \<open>Restart\<close>

text \<open>A server that has just been started.\<close>

definition fresh :: "'db ir_server \<Rightarrow> bool" where
  "fresh s \<longleftrightarrow> serving s \<and> instant_recovery_state s \<and> \<not> instant_recovery_performing_stop s \<and> hash_restored_tuples s = [] \<and>
     db_dict (sv_redis s) = (\<lambda>_. None)"

lemma comparable_small:
  assumes "comparable log kv" and "\<forall>k v. kv k = Some v \<longrightarrow> small v" and "fold kv_step log kv k = Some v"
  shows "small v"
  using assms
proof (induction log arbitrary: kv)
  case (Cons ss log)
  have "\<forall>k v. kv_step ss kv k = Some v \<longrightarrow> small v"
  proof (cases ss rule: loadable.cases)
    case (1 c key val)
    with Cons.prems(1,2) show ?thesis by (auto split: if_splits)
  next
    case (2 c key)
    have "small (incr_value (kv key))"
      unfolding incr_value_def by (rule le_trans [OF length_show_int [OF in_int32_int64 [OF to_int32_range]]]) simp
    with 2 Cons.prems(2) show ?thesis by (auto split: if_splits)
  qed (use Cons.prems(1) in auto)
  with Cons show ?case by auto
qed auto

lemma restarted_after_indexing:
  assumes "disk_ready (index_records recs) cfg log [] dk" and "comparable log (\<lambda>_. None)" and "fresh t"
  shows "restarted recs (fold kv_step log (\<lambda>_. None)) (t\<lparr>ir_cfg := cfg, ir_disk := dk\<rparr>)"
proof -
  obtain db where db: "d_dbs dk (indexedlog_filename cfg) = Store db" "good_index (index_records recs) db"
      "kv_of (index_records recs) db = fold kv_step log (\<lambda>_. None)"
    using assms(1) by (auto simp: disk_ready_def)
  have "\<forall>k v. fold kv_step log (\<lambda>_. None) k = Some v \<longrightarrow> small v"
    using comparable_small [OF assms(2)] by blast
  with db assms(3) show ?thesis
    by (auto simp: restarted_def recovering_def fresh_def serving_def index_of_def)
qed

section \<open>An example\<close>

lemma test_set: "sends (test_client SetCommand [''set'', ''k'', ''7'']) ''set'' (Rset ''k'' ''7'')"
  by (simp add: sends_def test_client_def has_args_def) (simp add: c_tolower_def char_of_def bit_0)

lemma test_serving: "serving test_server"
  using test_restarted by (simp add: restarted_def recovering_def)

lemma test_fresh: "fresh test_server" "normal test_server"
  using test_restarted test_serving by (simp_all add: restarted_def fresh_def normal_def test_redis_def)

text \<open>A first run of a server, with one request, and the disk it leaves.\<close>

definition crash_log :: "string list list" where
  "crash_log = [[''SELECT'', ''0''], [''set'', ''k'', ''7'']]"

definition crash_disk :: "(string \<times> string) list disk" where
  "crash_disk =
     \<lparr>d_fs = \<lparr>fs_files = (\<lambda>n. if n = ''a.aof'' then Some (concat (map aof_record crash_log))
                             else if n = FINAL_LOG_SEEK then Some (le_bytes 8 0) else None),
             fs_readonly = (\<lambda>_. False)\<rparr>,
      d_dbs = (\<lambda>n. if n = ''index.db'' then Store [] else Missing)\<rparr>"

lemma crash_disk_ready: "disk_ready (index_records btree_recs) test_cfg [] crash_log crash_disk" "log_usable test_cfg crash_log crash_disk"
proof -
  show "disk_ready (index_records btree_recs) test_cfg [] crash_log crash_disk"
    using read_stored_seek [where n = 0, of "d_fs crash_disk"] by (simp add: disk_ready_def crash_disk_def FINAL_LOG_SEEK_def
       good_index_def kv_of_def index_records_def btree_recs_def fun_eq_iff)
  have "\<forall>ss \<in> set crash_log. wf_record ss" "log_len crash_log < 2 ^ 63"
    by (simp_all add: crash_log_def sized_args_def sdstoupper_def c_toupper_def aof_record_def bulk_def header_line_def)
  then show "log_usable test_cfg crash_log crash_disk"
    by (simp add: log_usable_def test_cfg_def crash_disk_def FINAL_LOG_SEEK_def) (simp add: crash_log_def)
qed

lemma crash_first_run:
  "\<exists>replies s1. serve_clients test_env [test_client SetCommand [''set'', ''k'', ''7'']] test_server = Some (replies, s1) \<and>
     sv_aof_buf (sv_redis s1) = concat (map aof_record crash_log) \<and> db_dict (sv_redis s1) = [''k'' \<mapsto> encoded ''7'']"
proof -
  obtain ca where ca: "requests ca ''set'' (Rset ''k'' ''7'')"
      "processCommand test_env (0, 0, 0) (test_client SetCommand [''set'', ''k'', ''7'']) test_server =
         map_option (\<lambda>(c', s'). (C_OK, c', s')) (call test_env True (0, 0, 0) ca test_server)"
    using processCommand_request [OF test_set] by blast
  obtain c' s1 where "call test_env True (0, 0, 0) ca test_server = Some (c', s1)"
      "sv_aof_buf (sv_redis s1) = concat (map aof_record crash_log)" "db_dict (sv_redis s1) = [''k'' \<mapsto> encoded ''7'']"
    using call_request_gen [OF _ ca(1) test_serving, where call_aof = True and tm = "(0, 0, 0)" and E = test_env]
    by (auto simp: must_load_def aof_out_def select_record_zero test_redis_def crash_log_def)
  with ca(2) show ?thesis by simp
qed

end
