(* ===== verification/Checkpointer.thy ===== *)
theory Checkpointer
  imports Crash_Recovery
begin

text \<open>
  The checkpointer (\<open>checkpointProcess\<close>, \<open>executeCheckpoint\<close> and the functions around them in
  \<^verbatim>\<open>src/src/instant_recovery.c\<close>).  The thread is a client of the server: for every key it sends
  \<^verbatim>\<open>SETCHECKPOINT\<close>, which logs the current value of the key, while other clients go on.  What happens
  before each of its commands is an argument (\<open>turn\<close>): the clients that the server executes and whether
  another thread asks the checkpointer to stop.  The keys a safe iterator of the dictionary returns are an
  argument too, since their order is that of the hash table.  Times and displayed information are
  not represented, except for the duration by which the interval is tuned.

  The laws: a full checkpoint, however the requests of clients come between its commands, logs enough
  to rebuild the key space from the log records behind its beginning alone; the thread performs as many
  checkpoints as it is told to, and a tuned interval is at least a minute.
\<close>

section \<open>The code\<close>

record checkpointer =
  checkpoint_state :: bool
  checkpint_performing :: bool
  checkpoints_only_mfu :: bool
  checkpoint_time_interval :: int
  selftune_checkpoint_time_interval :: bool
  number_checkpoints :: int
  seek_log_file :: "64 word"

text \<open>The division of C, which rounds towards zero.\<close>

definition c_div :: "int \<Rightarrow> int \<Rightarrow> int" where
  "c_div a b = sgn a * sgn b * (abs a div abs b)"

definition selfTuneCheckpointTimeInterval :: "int \<Rightarrow> checkpointer \<Rightarrow> checkpointer" where
  "selfTuneCheckpointTimeInterval time_interval ck =
     (if selftune_checkpoint_time_interval ck
      then let time_interval = c_div time_interval 2;
               time_interval = (if time_interval < 60 then 60 else time_interval)
           in ck\<lparr>checkpoint_time_interval := time_interval\<rparr>
      else ck)"

definition stopCheckpointProcess :: "checkpointer \<Rightarrow> checkpointer" where
  "stopCheckpointProcess ck = (if checkpoint_state ck then ck\<lparr>checkpoint_state := False\<rparr> else ck)"

text \<open>\<^verbatim>\<open>redisCommand(redisConnection, "<name> %s %s", key, val)\<close>.\<close>

definition command_client :: "string \<Rightarrow> string \<Rightarrow> string \<Rightarrow> client" where
  "command_client name key val =
     \<lparr>cl_argv = map createStringObject [name, cstr key, cstr val], cl_cmd = OtherCommand [], cl_cmd_name = [],
      cl_fake = False, cl_reply = []\<rparr>"

text \<open>The loop over the keys, after \<open>n\<close> of them.\<close>

fun checkpoint_keys :: "('db, 'c) env \<Rightarrow> (nat \<Rightarrow> client list \<times> bool) \<Rightarrow> nat \<Rightarrow> string list \<Rightarrow> checkpointer \<Rightarrow> 'db ir_server \<Rightarrow>
    (nat \<times> checkpointer \<times> 'db ir_server) option" where
  "checkpoint_keys E turn n [] ck s = Some (n, ck, s)"
| "checkpoint_keys E turn n (key # ks) ck s =
     do {
       (_, s) \<leftarrow> serve_clients E (fst (turn n)) s;
       let ck = (if snd (turn n) then stopCheckpointProcess ck else ck);
       if \<not> checkpoint_state ck then Some (n, ck, s)
       else do {
         (_, _, s) \<leftarrow> processCommand E (0, 0, 0) (command_client ''SETCHECKPOINT'' key ''NULL'') s;
         checkpoint_keys E turn (n + 1) ks ck s
       }
     }"

text \<open>\<open>connected\<close> says whether the connection was made, \<open>iter\<close> are the keys of the iterator, \<open>micros\<close> is the
  duration.\<close>

definition checkpointProcess :: "('db, 'c) env \<Rightarrow> bool \<Rightarrow> string list \<Rightarrow> (nat \<Rightarrow> client list \<times> bool) \<Rightarrow> int \<Rightarrow> int \<Rightarrow>
    checkpointer \<Rightarrow> 'db ir_server \<Rightarrow> (checkpointer \<times> 'db ir_server) option" where
  "checkpointProcess E connected iter turn micros idCheckpoint ck s =
     (if \<not> checkpoint_state ck then Some (ck, s)
      else if \<not> connected then Some (ck\<lparr>checkpoint_state := False, checkpint_performing := False\<rparr>, s)
      else do {
        let seek = seek_log_file ck;
        (ck, s) \<leftarrow>
          (if checkpoints_only_mfu ck
           then do {
             let s = s\<lparr>accessed_tuples_logger_state := False\<rparr>;
             (_, ck, s) \<leftarrow> checkpoint_keys E turn 0 (map fst (hash_keys_access s)) ck s;
             Some (ck, (clearHashAccessedTuples s)\<lparr>accessed_tuples_logger_state := True\<rparr>)
           }
           else do {
             (_, ck, s) \<leftarrow> checkpoint_keys E turn 0 iter ck s;
             Some (ck, s)
           });
        (_, _, s) \<leftarrow> processCommand E (0, 0, 0) (command_client ''checkpointEnd'' (show_int idCheckpoint) ''NULL'') s;
        let s = (if checkpoint_state ck \<and> \<not> checkpoints_only_mfu ck
                 then s\<lparr>ir_disk := (ir_disk s)\<lparr>d_fs := snd (writeFinalLogSeek CHECKPOINT_LOG_SEEK seek (d_fs (ir_disk s)))\<rparr>\<rparr>
                 else s);
        Some (selfTuneCheckpointTimeInterval (to_int32 (c_div micros 1000000)) ck, s)
      })"

text \<open>The thread.  A round is what one turn of its loop meets: the arguments of \<open>checkpointProcess\<close>, the
  clients that are executed in the following pause and whether it is stopped then.  The result says
  whether the thread has ended within the given rounds, how many checkpoints it has begun, and how
  long its pauses were.\<close>

record ck_round =
  rd_connected :: bool
  rd_iter :: "string list"
  rd_turn :: "nat \<Rightarrow> client list \<times> bool"
  rd_micros :: int
  rd_pause :: "client list \<times> bool"

fun checkpoint_cycle :: "('db, 'c) env \<Rightarrow> ck_round list \<Rightarrow> int \<Rightarrow> int list \<Rightarrow> checkpointer \<Rightarrow> 'db ir_server \<Rightarrow>
    (bool \<times> int \<times> int list \<times> checkpointer \<times> 'db ir_server) option" where
  "checkpoint_cycle E [] count_checkpoint pauses ck s = Some (False, count_checkpoint, pauses, ck, s)"
| "checkpoint_cycle E (rd # rds) count_checkpoint pauses ck s =
     do {
       (ck, s) \<leftarrow> checkpointProcess E (rd_connected rd) (rd_iter rd) (rd_turn rd) (rd_micros rd) (to_int32 (count_checkpoint + 1)) ck s;
       if \<not> checkpoint_state ck then Some (True, count_checkpoint, pauses, ck\<lparr>checkpint_performing := False\<rparr>, s)
       else do {
         (_, s) \<leftarrow> serve_clients E (fst (rd_pause rd)) s;
         let pauses = pauses @ [checkpoint_time_interval ck];
         let ck = (if snd (rd_pause rd) then stopCheckpointProcess ck else ck);
         let count_checkpoint = to_int32 (count_checkpoint + 1);
         if checkpoint_state ck \<and> number_checkpoints ck \<noteq> count_checkpoint
         then checkpoint_cycle E rds count_checkpoint pauses ck s
         else Some (True, count_checkpoint, pauses, ck\<lparr>checkpint_performing := False\<rparr>, s)
       }
     }"

text \<open>\<open>first\<close> is the pause before the first checkpoint, which is made if \<^verbatim>\<open>first_checkpoint_start_time\<close> is
  positive.\<close>

definition executeCheckpoint :: "('db, 'c) env \<Rightarrow> (client list \<times> bool) option \<Rightarrow> ck_round list \<Rightarrow> checkpointer \<Rightarrow> 'db ir_server \<Rightarrow>
    (bool \<times> int \<times> int list \<times> checkpointer \<times> 'db ir_server) option" where
  "executeCheckpoint E first rds ck s =
     (if \<not> checkpoint_state ck then Some (True, 0, [], ck, s)
      else do {
        let ck = ck\<lparr>checkpint_performing := True\<rparr>;
        (ck, s) \<leftarrow> (case first of
                     None \<Rightarrow> Some (ck, s)
                   | Some (cs, stop) \<Rightarrow>
                       do { (_, s) \<leftarrow> serve_clients E cs s; Some (if stop then stopCheckpointProcess ck else ck, s) });
        if checkpoint_state ck then checkpoint_cycle E rds 0 [] ck s
        else Some (True, 0, [], ck\<lparr>checkpint_performing := False\<rparr>, s)
      })"

section \<open>The commands of the checkpointer\<close>

lemma lookup_checkpoint:
  "lookupCommand tab ''SETCHECKPOINT'' = Some (''setCheckpoint'', SetCheckpointCommand, 3)"
  "lookupCommand tab ''checkpointEnd'' = Some (''checkpointEnd'', CheckpointEndCommand, 3)"
proof -
  have "map c_tolower ''SETCHECKPOINT'' = ''setcheckpoint''"
    by (simp add: c_tolower_def char_of_def bit_0)
  then show "lookupCommand tab ''SETCHECKPOINT'' = Some (''setCheckpoint'', SetCheckpointCommand, 3)"
    "lookupCommand tab ''checkpointEnd'' = Some (''checkpointEnd'', CheckpointEndCommand, 3)"
    unfolding lookupCommand_def redisCommandTable_def append_Cons find.simps case_prod_conv lower_SETIR lower_names
    by simp_all
qed

lemma setCheckpoint_eq:
  assumes "has_args c [cmd, key, val]" and "db_expires s key = None"
  shows "setCheckpointCommand c s =
     (case db_dict s key of
        None \<Rightarrow> Some (addReply (R_ir_error (''- key not found!'' @ CRLF)) c, s\<lparr>stat_keyspace_misses := stat_keyspace_misses s + 1\<rparr>)
      | Some x \<Rightarrow> map_option (\<lambda>v. (addReply R_ok (with_arg 2 (RawStr (cstr v)) c),
                    s\<lparr>stat_keyspace_hits := stat_keyspace_hits s + 1, sv_dirty := sv_dirty s + 1\<rparr>)) (obj_bytes x))"
proof -
  have "\<exists>x. arg_at 2 (cl_argv c) = Some x"
    using has_args_length [OF assms(1)] by (simp add: arg_at_def)
  then show ?thesis
    using cl_key_nth [OF assms(1), of 1] has_args_length [OF assms(1)] assms(2)
    by (auto simp: setCheckpointCommand_def setGenericCommandNoUpdate_def set_aborts_def Let_def lookupKeyRead_persistent
        OBJ_SET_NO_FLAGS_def expire_milliseconds_def map_option_case split: option.splits bind_splits)
qed

lemma checkpointEnd_eq:
  assumes "has_args c [cmd, key, val]"
  shows "checkpointEndCommand c s = Some (addReply R_ok c, s\<lparr>sv_dirty := sv_dirty s + 1\<rparr>)"
  using cl_key_nth [OF assms(1), of 1] has_args_length [OF assms(1)]
  by (simp add: checkpointEndCommand_def setGenericCommandNoUpdate_def set_aborts_def Let_def
        OBJ_SET_NO_FLAGS_def expire_milliseconds_def)

text \<open>A command that neither recovers its key nor is listed.\<close>

lemma call_neutral:
  assumes "normal s" and "\<not> ir_command (cl_cmd_name c)" and "\<not> c_streq (cl_cmd_name c) ''setIR''"
    and "cmd_run (en_other E) (cl_cmd c) c ((sv_redis s)\<lparr>sv_fixed_time_expire := sv_fixed_time_expire (sv_redis s) + 1,
            sv_mstime := sv_clock (sv_redis s)\<rparr>) = Some (c', r')"
    and "cl_cmd c' = cl_cmd c" and "cl_cmd_name c' = cl_cmd_name c" and "are_args (cl_argv c') ss" and "sized_args ss"
    and "cl_cmd c \<notin> {ExpireCommand, PexpireCommand, ExpireatCommand, SetexCommand, PsetexCommand, SetCommand}"
    and "db_dict r' = db_dict (sv_redis s)" and "db_expires r' = db_expires (sv_redis s)" and "same_aof (sv_redis s) r'"
    and "sv_dirty r' = sv_dirty (sv_redis s) + (if logged then 1 else 0)"
  shows "\<exists>s'. call E True tm c s = Some (c', s') \<and> normal s' \<and> db_dict (sv_redis s') = db_dict (sv_redis s) \<and> same_recovery s s' \<and>
           sv_aof_buf (sv_redis s') = sv_aof_buf (sv_redis s) @ (if logged then aof_out (sv_redis s) ss else []) \<and>
           hash_keys_access s' = hash_keys_access s"
proof -
  let ?r = "sv_redis s"
  have aof: "sv_aof_state r' = AOF_ON" "sv_aof_buf r' = sv_aof_buf ?r" "sv_aof_selected_db r' = sv_aof_selected_db ?r"
      "db_id r' = 0" "db_id ?r = 0"
    using assms(1,12) by (auto simp: same_aof_def normal_def)
  have "\<exists>r4. (if logged then propagate (cl_cmd c') (cl_cmd_name c') (db_id r') (cl_argv c') True r' else Some r') = Some r4 \<and>
      db_dict r4 = db_dict ?r \<and> db_expires r4 = db_expires ?r \<and> sv_aof_state r4 = AOF_ON \<and> db_id r4 = 0 \<and>
      sv_aof_buf r4 = sv_aof_buf ?r @ (if logged then aof_out ?r ss else [])"
    using feed_generic [OF assms(7,8), of "cl_cmd c'" 0 r'] assms(3,5,6,9-11) aof
    by (auto simp: propagate_def aof_out_def)
  then obtain r4 where r4: "(if logged then propagate (cl_cmd c') (cl_cmd_name c') (db_id r') (cl_argv c') True r' else Some r') = Some r4"
      "db_dict r4 = db_dict ?r" "db_expires r4 = db_expires ?r" "sv_aof_state r4 = AOF_ON" "db_id r4 = 0"
      "sv_aof_buf r4 = sv_aof_buf ?r @ (if logged then aof_out ?r ss else [])"
    by blast
  have "call E True tm c s = Some (c', s\<lparr>sv_redis := r4\<lparr>sv_fixed_time_expire := sv_fixed_time_expire r4 - 1\<rparr>,
      stat_numcommands := stat_numcommands s + 1\<rparr>)"
    using assms(2,4,6,13) r4(1)
    by (cases logged) (simp_all add: call_def recover_on_demand_def log_access_def Let_def)
  then show ?thesis
    using r4 assms(1) by (auto simp: normal_def serving_def persistent_def wf_redis_def same_recovery_def)
qed

lemma command_client_args:
  assumes "NUL \<notin> set key" and "NUL \<notin> set val"
  shows "has_args (command_client name key val\<lparr>cl_cmd := cmd, cl_cmd_name := cname\<rparr>) [name, key, val]"
  using assms by (simp add: has_args_def command_client_def)

lemma command_client_fake [simp]: "\<not> cl_fake (command_client name key val)"
  by (simp add: command_client_def)

text \<open>What \<^verbatim>\<open>SETCHECKPOINT\<close> of a key adds to the log.\<close>

definition checkpoint_records :: "redis \<Rightarrow> kv \<Rightarrow> string \<Rightarrow> string list list" where
  "checkpoint_records r kv key =
     (case kv key of None \<Rightarrow> []
      | Some v \<Rightarrow> (if sv_aof_selected_db r \<noteq> 0 then [[''SELECT'', ''0'']] else []) @ [[''SETCHECKPOINT'', key, v]])"

lemma checkpoint_command:
  assumes "normal s" and "clean key" and "length key < 2 ^ 31" and "db_dict (sv_redis s) = map_option encoded \<circ> kv"
    and "\<forall>v. kv key = Some v \<longrightarrow> clean v \<and> small v"
  shows "\<exists>c' s'. processCommand E tm (command_client ''SETCHECKPOINT'' key ''NULL'') s = Some (C_OK, c', s') \<and>
           normal s' \<and> db_dict (sv_redis s') = db_dict (sv_redis s) \<and> same_recovery s s' \<and>
           sv_aof_buf (sv_redis s') = sv_aof_buf (sv_redis s) @ concat (map aof_record (checkpoint_records (sv_redis s) kv key)) \<and>
           hash_keys_access s' = hash_keys_access s"
proof -
  let ?cc = "command_client ''SETCHECKPOINT'' key ''NULL''"
  let ?c = "?cc\<lparr>cl_cmd := SetCheckpointCommand, cl_cmd_name := ''setCheckpoint''\<rparr>" and ?r = "sv_redis s"
  let ?rb = "?r\<lparr>sv_fixed_time_expire := sv_fixed_time_expire ?r + 1, sv_mstime := sv_clock ?r\<rparr>"
  have key: "NUL \<notin> set key"
    using assms(2) cleanD [of key] by blast
  have args: "has_args ?c [''SETCHECKPOINT'', key, ''NULL'']"
    by (rule command_client_args [OF key]) simp
  have pers: "db_expires ?rb key = None"
    using assms(1) by (simp add: normal_def serving_def persistent_def)
  define ss where "ss = [''SETCHECKPOINT'', key, case kv key of None \<Rightarrow> ''NULL'' | Some v \<Rightarrow> v]"
  have sized: "sized_args ss"
    using assms(3,5) by (auto simp: ss_def sized_args_def split: option.splits)
  let ?run = "setCheckpointCommand ?c ?rb"
  obtain c' r' where run: "?run = Some (c', r')" "cl_cmd c' = SetCheckpointCommand" "cl_cmd_name c' = ''setCheckpoint''"
      "are_args (cl_argv c') ss" "db_dict r' = db_dict ?r" "db_expires r' = db_expires ?r" "same_aof ?r r'"
      "sv_dirty r' = sv_dirty ?r + (if kv key \<noteq> None then 1 else 0)"
  proof (cases "kv key")
    case None
    then show ?thesis
      using setCheckpoint_eq [OF args pers] assms(4) args that
      by (simp add: ss_def addReply_def same_aof_def has_args_def) (simp add: command_client_def)
  next
    case (Some v)
    then have "obj_bytes (encoded v) = Some v" "cstr v = v"
      using assms(5) obj_bytes_str [OF wf_encoded, of v] cleanD [of v] by simp_all
    with Some show ?thesis
      using setCheckpoint_eq [OF args pers] assms(4) args that
      by (simp add: ss_def addReply_def same_aof_def has_args_def) (simp add: command_client_def)
  qed
  have names: "\<not> ir_command ''setCheckpoint''" "\<not> c_streq ''setCheckpoint'' ''setIR''" "\<not> c_strcaseeq ''SETCHECKPOINT'' ''quit''"
    by (simp_all add: ir_command_def c_streq_def c_strcaseeq_def c_tolower_def char_of_def bit_0)
  obtain s' where s': "call E True tm ?c s = Some (c', s')" "normal s'" "db_dict (sv_redis s') = db_dict ?r" "same_recovery s s'"
      "sv_aof_buf (sv_redis s') = sv_aof_buf ?r @ (if kv key \<noteq> None then aof_out ?r ss else [])" "hash_keys_access s' = hash_keys_access s"
    using call_neutral [OF assms(1), of ?c E c' r' ss "kv key \<noteq> None" tm] run sized names(1,2) by auto
  have "aof_out ?r ss = concat (map aof_record (checkpoint_records ?r kv key))" if "kv key \<noteq> None"
    using that assms(1) select_record_zero by (auto simp: aof_out_def checkpoint_records_def ss_def normal_def)
  moreover have "kv key = None \<Longrightarrow> checkpoint_records ?r kv key = []"
    by (simp add: checkpoint_records_def)
  moreover have "cl_key 0 ?cc = Some ''SETCHECKPOINT''" "length (cl_argv ?cc) = 3"
    by (simp_all add: command_client_def cl_key_def arg_at_def)
  ultimately show ?thesis
    using s' names(3) by (auto simp: processCommand_def lookup_checkpoint arity_ok_def)
qed

lemma checkpoint_end_command:
  assumes "normal s" and "in_int32 n"
  shows "\<exists>c' s'. processCommand E tm (command_client ''checkpointEnd'' (show_int n) ''NULL'') s = Some (C_OK, c', s') \<and>
           normal s' \<and> db_dict (sv_redis s') = db_dict (sv_redis s) \<and> same_recovery s s' \<and>
           sv_aof_buf (sv_redis s') = sv_aof_buf (sv_redis s) @
             aof_out (sv_redis s) [''checkpointEnd'', show_int n, ''NULL''] \<and> hash_keys_access s' = hash_keys_access s"
proof -
  let ?cc = "command_client ''checkpointEnd'' (show_int n) ''NULL''" and ?ss = "[''checkpointEnd'', show_int n, ''NULL'']"
  let ?c = "?cc\<lparr>cl_cmd := CheckpointEndCommand, cl_cmd_name := ''checkpointEnd''\<rparr>" and ?r = "sv_redis s"
  let ?rb = "?r\<lparr>sv_fixed_time_expire := sv_fixed_time_expire ?r + 1, sv_mstime := sv_clock ?r\<rparr>"
  have args: "has_args ?c ?ss"
    by (rule command_client_args) simp_all
  have argv: "are_args (cl_argv ?c) ?ss"
    by (simp add: command_client_def)
  have sized: "sized_args ?ss"
    using length_show_int [OF in_int32_int64 [OF assms(2)]] by (auto simp: sized_args_def)
  have run: "cmd_run (en_other E) (cl_cmd ?c) ?c ?rb = Some (addReply R_ok ?c, ?rb\<lparr>sv_dirty := sv_dirty ?rb + 1\<rparr>)"
    using checkpointEnd_eq [OF args] by simp
  have names: "\<not> ir_command ''checkpointEnd''" "\<not> c_streq ''checkpointEnd'' ''setIR''" "\<not> c_strcaseeq ''checkpointEnd'' ''quit''"
    by (simp_all add: ir_command_def c_streq_def c_strcaseeq_def c_tolower_def char_of_def bit_0)
  obtain s' where s': "call E True tm ?c s = Some (addReply R_ok ?c, s')" "normal s'" "db_dict (sv_redis s') = db_dict ?r" "same_recovery s s'"
      "sv_aof_buf (sv_redis s') = sv_aof_buf ?r @ aof_out ?r ?ss" "hash_keys_access s' = hash_keys_access s"
    using call_neutral [OF assms(1) _ _ run _ _ _ sized, of True tm] argv names(1,2)
    by (auto simp: addReply_def same_aof_def)
  moreover have "cl_key 0 ?cc = Some ''checkpointEnd''" "length (cl_argv ?cc) = 3"
    by (simp_all add: command_client_def cl_key_def arg_at_def)
  ultimately show ?thesis
    using names(3) by (auto simp: processCommand_def lookup_checkpoint arity_ok_def)
qed

section \<open>What a checkpoint logs\<close>

text \<open>\<open>part\<close> is what the log records behind the beginning of the checkpoint stand for: it differs from the
  key space at most on keys that the checkpoint has still to visit.\<close>

definition covers :: "kv \<Rightarrow> kv \<Rightarrow> string list \<Rightarrow> bool" where
  "covers part kv ks \<longleftrightarrow> (\<forall>k. part k = kv k \<or> k \<in> set ks \<and> kv k \<noteq> None)"

lemma kv_step_cp_local:
  "m k = m' k \<Longrightarrow> kv_step_cp ss m k = kv_step_cp ss m' k"
  "kv_step_cp ss m k = None \<Longrightarrow> m k \<noteq> None \<Longrightarrow> kv_step_cp ss m' k = None"
  by (cases "(ss, m)" rule: kv_step.cases; auto split: if_splits)+

lemma covers_fold: "covers part kv ks \<Longrightarrow> covers (fold kv_step_cp log part) (fold kv_step_cp log kv) ks"
proof (induction log arbitrary: part kv)
  case (Cons ss log)
  have "covers (kv_step_cp ss part) (kv_step_cp ss kv) ks"
    using Cons.prems kv_step_cp_local unfolding covers_def by metis
  then show ?case using Cons.IH by simp
qed simp

lemma loadable_step_cp: "loadable ss \<Longrightarrow> kv_step_cp ss = kv_step ss"
  by (cases ss rule: loadable.cases) (auto simp: fun_eq_iff upper_names)

lemma comparable_step_cp: "comparable log kv \<Longrightarrow> fold kv_step_cp log = fold kv_step log"
  by (induction log arbitrary: kv) (auto simp: loadable_step_cp)

definition stored :: "kv \<Rightarrow> bool" where
  "stored kv \<longleftrightarrow> (\<forall>k v. kv k = Some v \<longrightarrow> clean v \<and> small v)"

lemma stored_fold:
  assumes "stored kv" and "comparable log kv" and "\<forall>ss \<in> set log. wf_record ss"
  shows "stored (fold kv_step log kv)"
  using assms
proof (induction log arbitrary: kv)
  case (Cons ss log)
  have "stored (kv_step ss kv)"
  proof (cases ss rule: loadable.cases)
    case (1 c key val)
    with Cons.prems show ?thesis by (auto simp: stored_def upper_names split: if_splits)
  next
    case (2 c key)
    have "clean (incr_value (kv key))" "small (incr_value (kv key))"
      unfolding incr_value_def
      using length_show_int [OF in_int32_int64 [OF to_int32_range], of "c_atoi (case kv key of None \<Rightarrow> ''0'' | Some v \<Rightarrow> v) + 1"]
      by (auto simp: clean_def)
    with 2 Cons.prems show ?thesis by (auto simp: stored_def upper_names split: if_splits)
  qed (use Cons.prems(2) in auto)
  with Cons show ?case by auto
qed auto

lemma counts32_append: "counts32 (a @ b) d \<longleftrightarrow> counts32 a d \<and> counts32 b (snd (serve a d))"
  by (induction a arbitrary: d) (auto simp: case_prod_beta Let_def)

lemma serve_append: "snd (serve (a @ b) d) = snd (serve b (snd (serve a d)))"
  by (induction a arbitrary: d) (auto simp: case_prod_beta Let_def)

lemma checkpoint_records_covers:
  assumes "covers part kv (key # ks)"
  shows "covers (fold kv_step_cp (checkpoint_records r kv key) part) kv ks"
proof -
  have "sdstoupper ''SELECT'' = ''SELECT''" "sdstoupper ''SETCHECKPOINT'' = ''SETCHECKPOINT''"
    by (simp_all add: sdstoupper_def c_toupper_def char_of_def bit_0)
  then show ?thesis
    using assms by (auto simp: covers_def checkpoint_records_def split: option.splits)
qed

lemma checkpoint_records_wf:
  assumes "stored kv" and "clean key" and "length key < 2 ^ 31"
  shows "\<forall>ss \<in> set (checkpoint_records r kv key). wf_record ss"
proof (cases "kv key")
  case (Some v)
  have "sdstoupper ''SETCHECKPOINT'' = ''SETCHECKPOINT''"
    by (simp_all add: sdstoupper_def c_toupper_def char_of_def bit_0)
  moreover have "clean v" "length v < 2 ^ 31"
    using assms(1) [unfolded stored_def, rule_format, OF Some] by simp_all
  ultimately show ?thesis
    using assms(2,3) Some select_loadable(2) by (auto simp: checkpoint_records_def sized_args_def)
qed (simp add: checkpoint_records_def)

text \<open>The turns of a checkpoint that is not stopped: which requests \<open>rq\<close> the clients make.\<close>

definition undisturbed :: "(nat \<Rightarrow> client list \<times> bool) \<Rightarrow> (nat \<Rightarrow> request list) \<Rightarrow> nat \<Rightarrow> bool" where
  "undisturbed turn rq m \<longleftrightarrow> (\<forall>i < m. list_all2 logs (fst (turn i)) (rq i) \<and> \<not> snd (turn i))"

lemma checkpoint_keys_covers:
  assumes "normal s" and "db_dict (sv_redis s) = map_option encoded \<circ> kv" and "stored kv"
    and "\<forall>key \<in> set ks. clean key \<and> length key < 2 ^ 31" and "checkpoint_state ck"
    and "undisturbed turn rq (n + length ks)" and "counts32 (concat (map rq [n ..< n + length ks])) (db_dict (sv_redis s))"
    and "covers part kv ks"
  shows "\<exists>s' lg. checkpoint_keys E turn n ks ck s = Some (n + length ks, ck, s') \<and> normal s' \<and> same_recovery s s' \<and>
           db_dict (sv_redis s') = snd (serve (concat (map rq [n ..< n + length ks])) (db_dict (sv_redis s))) \<and>
           sv_aof_buf (sv_redis s') = sv_aof_buf (sv_redis s) @ concat (map aof_record lg) \<and>
           db_dict (sv_redis s') = map_option encoded \<circ> fold kv_step_cp lg part \<and> (\<forall>ss \<in> set lg. wf_record ss)"
  using assms
proof (induction ks arbitrary: n s kv part)
  case Nil
  then have "part = kv"
    by (auto simp: covers_def)
  with Nil show ?case
    by (intro exI [of _ s] exI [of _ "[]"]) (simp add: same_recovery_def)
next
  case (Cons key ks)
  let ?d = "db_dict (sv_redis s)" and ?rest = "concat (map rq [Suc n ..< Suc n + length ks])"
  have split: "concat (map rq [n ..< n + length (key # ks)]) = rq n @ ?rest"
    by (simp add: upt_conv_Cons del: upt_Suc)
  then have counts: "counts32 (rq n) ?d" "counts32 ?rest (snd (serve (rq n) ?d))"
    using Cons.prems(7) by (simp_all only: counts32_append)
  have turn: "list_all2 logs (fst (turn n)) (rq n)" "\<not> snd (turn n)" "undisturbed turn rq (Suc n + length ks)"
    using Cons.prems(6) by (simp_all add: undisturbed_def)
  obtain s1 lga where a: "serve_clients E (fst (turn n)) s = Some (fst (serve (rq n) ?d), s1)"
      "db_dict (sv_redis s1) = snd (serve (rq n) ?d)" "normal s1"
      "sv_aof_buf (sv_redis s1) = sv_aof_buf (sv_redis s) @ concat (map aof_record lga)"
      "db_dict (sv_redis s1) = map_option encoded \<circ> fold kv_step lga kv"
      "\<forall>ss \<in> set lga. wf_record ss" "comparable lga kv" "same_recovery s s1"
    using serve_clients_log [OF turn(1) Cons.prems(1,2) counts(1)] by blast
  let ?kv = "fold kv_step lga kv" and ?part = "fold kv_step_cp lga part"
  have kv: "stored ?kv" "covers ?part ?kv (key # ks)"
    using stored_fold [OF Cons.prems(3) a(7,6)] covers_fold [OF Cons.prems(8), of lga] comparable_step_cp [OF a(7)] by simp_all
  have key: "clean key" "length key < 2 ^ 31"
    using Cons.prems(4) by simp_all
  let ?lgb = "checkpoint_records (sv_redis s1) ?kv key"
  obtain c' s2 where b: "processCommand E (0, 0, 0) (command_client ''SETCHECKPOINT'' key ''NULL'') s1 = Some (C_OK, c', s2)"
      "normal s2" "db_dict (sv_redis s2) = db_dict (sv_redis s1)" "same_recovery s1 s2"
      "sv_aof_buf (sv_redis s2) = sv_aof_buf (sv_redis s1) @ concat (map aof_record ?lgb)"
    using checkpoint_command [OF a(3) key a(5), of E "(0, 0, 0)"] kv(1) unfolding stored_def by blast
  have dict: "db_dict (sv_redis s2) = map_option encoded \<circ> ?kv" "counts32 ?rest (db_dict (sv_redis s2))"
    using a(2,5) b(3) counts(2) by simp_all
  have ks: "\<forall>key \<in> set ks. clean key \<and> length key < 2 ^ 31"
    using Cons.prems(4) by simp
  from Cons.IH [OF b(2) dict(1) kv(1) ks Cons.prems(5) turn(3) dict(2) checkpoint_records_covers [OF kv(2)], of "sv_redis s1"]
  obtain s' lgc where c: "checkpoint_keys E turn (Suc n) ks ck s2 = Some (Suc n + length ks, ck, s')" "normal s'" "same_recovery s2 s'"
      "db_dict (sv_redis s') = snd (serve ?rest (db_dict (sv_redis s2)))"
      "sv_aof_buf (sv_redis s') = sv_aof_buf (sv_redis s2) @ concat (map aof_record lgc)"
      "db_dict (sv_redis s') = map_option encoded \<circ> fold kv_step_cp lgc (fold kv_step_cp ?lgb ?part)" "\<forall>ss \<in> set lgc. wf_record ss"
    by blast
  have "db_dict (sv_redis s') = snd (serve (rq n @ ?rest) ?d)"
    using c(4) a(2) b(3) by (simp only: serve_append)
  moreover have "same_recovery s s'"
    using same_recovery_trans [OF same_recovery_trans [OF a(8) b(4)] c(3)] .
  moreover have "checkpoint_keys E turn n (key # ks) ck s = Some (n + length (key # ks), ck, s')"
    using a(1) b(1) c(1) turn(2) Cons.prems(5) by simp
  ultimately show ?case
    unfolding split
    by (intro exI [of _ s'] exI [of _ "lga @ ?lgb @ lgc"])
      (use a(4,6) b(5) c(2,5-7) checkpoint_records_wf [OF kv(1) key] in \<open>simp add: ball_Un\<close>)
qed

lemma fold_None: "fold kv_step_cp log m k = None \<Longrightarrow> (m k = None \<longrightarrow> m' k = None) \<Longrightarrow> fold kv_step_cp log m' k = None"
proof (induction log arbitrary: m m')
  case (Cons ss log)
  have "kv_step_cp ss m k = None \<longrightarrow> kv_step_cp ss m' k = None"
    using Cons.prems(2) kv_step_cp_local(1) [of m k m' ss] kv_step_cp_local(2) [of ss m k m'] by (cases "m k") auto
  then show ?case
    using Cons.IH [of "kv_step_cp ss m" "kv_step_cp ss m'"] Cons.prems(1) by simp
qed simp

lemma covers_start:
  assumes "\<And>k. fold kv_step_cp (old @ ext) (\<lambda>_. None) k \<noteq> None \<Longrightarrow> k \<in> set ks"
  shows "covers (fold kv_step_cp ext (\<lambda>_. None)) (fold kv_step_cp (old @ ext) (\<lambda>_. None)) ks"
  unfolding covers_def
proof (intro allI)
  fix k
  show "fold kv_step_cp ext (\<lambda>_. None) k = fold kv_step_cp (old @ ext) (\<lambda>_. None) k \<or>
      k \<in> set ks \<and> fold kv_step_cp (old @ ext) (\<lambda>_. None) k \<noteq> None"
    using assms [of k] fold_None [of ext "fold kv_step_cp old (\<lambda>_. None)" k "\<lambda>_. None"]
    by (cases "fold kv_step_cp (old @ ext) (\<lambda>_. None) k") simp_all
qed

lemma selfTune_simps [simp]:
  "checkpoint_state (selfTuneCheckpointTimeInterval t ck) = checkpoint_state ck"
  "number_checkpoints (selfTuneCheckpointTimeInterval t ck) = number_checkpoints ck"
  "selftune_checkpoint_time_interval (selfTuneCheckpointTimeInterval t ck) = selftune_checkpoint_time_interval ck"
  by (simp_all add: selfTuneCheckpointTimeInterval_def Let_def)

text \<open>The record of the end of a checkpoint.\<close>

definition end_records :: "redis \<Rightarrow> int \<Rightarrow> string list list" where
  "end_records r n = (if sv_aof_selected_db r \<noteq> 0 then [[''SELECT'', ''0'']] else []) @ [[''checkpointEnd'', show_int n, ''NULL'']]"

lemma end_records:
  assumes "normal s" and "in_int32 n"
  shows "aof_out (sv_redis s) [''checkpointEnd'', show_int n, ''NULL''] = concat (map aof_record (end_records (sv_redis s) n))"
    and "\<forall>ss \<in> set (end_records (sv_redis s) n). wf_record ss" and "fold kv_step_cp (end_records (sv_redis s) n) m = m"
proof -
  have up: "sdstoupper ''SELECT'' = ''SELECT''" "sdstoupper ''checkpointEnd'' = ''CHECKPOINTEND''"
    by (simp_all add: sdstoupper_def c_toupper_def char_of_def bit_0)
  have "clean (show_int n)" "length (show_int n) < 2 ^ 31"
    using length_show_int [OF in_int32_int64 [OF assms(2)]] by (auto simp: clean_def)
  then show "\<forall>ss \<in> set (end_records (sv_redis s) n). wf_record ss"
    using up select_loadable(2) by (auto simp: end_records_def sized_args_def)
  show "fold kv_step_cp (end_records (sv_redis s) n) m = m"
    using up by (simp add: end_records_def)
  show "aof_out (sv_redis s) [''checkpointEnd'', show_int n, ''NULL''] = concat (map aof_record (end_records (sv_redis s) n))"
    using assms(1) select_record_zero by (simp add: aof_out_def end_records_def normal_def)
qed

lemma checkpoint_process_full:
  assumes "normal s" and "db_dict (sv_redis s) = map_option encoded \<circ> kv" and "stored kv" and "covers part kv iter"
    and "\<forall>key \<in> set iter. clean key \<and> length key < 2 ^ 31" and "checkpoint_state ck" and "\<not> checkpoints_only_mfu ck"
    and "undisturbed turn rq (length iter)" and "counts32 (concat (map rq [0 ..< length iter])) (db_dict (sv_redis s))"
    and "in_int32 n"
  shows "\<exists>s' lg. checkpointProcess E True iter turn micros n ck s =
             Some (selfTuneCheckpointTimeInterval (to_int32 (c_div micros 1000000)) ck, s') \<and> normal s' \<and>
           db_dict (sv_redis s') = snd (serve (concat (map rq [0 ..< length iter])) (db_dict (sv_redis s))) \<and>
           sv_aof_buf (sv_redis s') = sv_aof_buf (sv_redis s) @ concat (map aof_record lg) \<and>
           db_dict (sv_redis s') = map_option encoded \<circ> fold kv_step_cp lg part \<and> (\<forall>ss \<in> set lg. wf_record ss) \<and>
           ir_disk s' = (ir_disk s)\<lparr>d_fs := snd (writeFinalLogSeek CHECKPOINT_LOG_SEEK (seek_log_file ck) (d_fs (ir_disk s)))\<rparr>"
proof -
  have "undisturbed turn rq (0 + length iter)" "counts32 (concat (map rq [0 ..< 0 + length iter])) (db_dict (sv_redis s))"
    using assms(8,9) by simp_all
  from checkpoint_keys_covers [OF assms(1-3,5,6) this assms(4), of E]
  obtain s1 lg where a: "checkpoint_keys E turn 0 iter ck s = Some (length iter, ck, s1)" "normal s1" "same_recovery s s1"
      "db_dict (sv_redis s1) = snd (serve (concat (map rq [0 ..< length iter])) (db_dict (sv_redis s)))"
      "sv_aof_buf (sv_redis s1) = sv_aof_buf (sv_redis s) @ concat (map aof_record lg)"
      "db_dict (sv_redis s1) = map_option encoded \<circ> fold kv_step_cp lg part" "\<forall>ss \<in> set lg. wf_record ss"
    by auto
  obtain c2 s2 where b: "processCommand E (0, 0, 0) (command_client ''checkpointEnd'' (show_int n) ''NULL'') s1 = Some (C_OK, c2, s2)"
      "normal s2" "db_dict (sv_redis s2) = db_dict (sv_redis s1)" "same_recovery s1 s2"
      "sv_aof_buf (sv_redis s2) = sv_aof_buf (sv_redis s1) @ concat (map aof_record (end_records (sv_redis s1) n))"
    using checkpoint_end_command [OF a(2) assms(10), of E "(0, 0, 0)"] end_records(1) [OF a(2) assms(10)] by auto
  let ?s = "s2\<lparr>ir_disk := (ir_disk s2)\<lparr>d_fs := snd (writeFinalLogSeek CHECKPOINT_LOG_SEEK (seek_log_file ck) (d_fs (ir_disk s2)))\<rparr>\<rparr>"
  have "checkpointProcess E True iter turn micros n ck s =
      Some (selfTuneCheckpointTimeInterval (to_int32 (c_div micros 1000000)) ck, ?s)"
    using a(1) b(1) assms(6,7) by (simp add: checkpointProcess_def Let_def)
  moreover have "ir_disk s2 = ir_disk s"
    using same_recovery_trans [OF a(3) b(4)] by (simp add: same_recovery_def)
  moreover have "normal ?s"
    using b(2) by (simp add: normal_def serving_def)
  moreover note end_records [OF a(2) assms(10)]
  ultimately show ?thesis
    using a(4-7) b(3,5) by (intro exI [of _ ?s] exI [of _ "lg @ end_records (sv_redis s1) n"]) (simp add: ball_Un)
qed

text \<open>What the loop and the process change in the state of the checkpointer.\<close>

lemma checkpoint_keys_config:
  "checkpoint_keys E turn n ks ck s = Some (n', ck', s') \<Longrightarrow> ck' = ck \<or> ck' = ck\<lparr>checkpoint_state := False\<rparr>"
  by (induction E turn n ks ck s rule: checkpoint_keys.induct)
    (auto simp: stopCheckpointProcess_def Let_def split: bind_splits if_splits)

lemma selfTune_interval:
  "selftune_checkpoint_time_interval ck \<Longrightarrow> 60 \<le> checkpoint_time_interval (selfTuneCheckpointTimeInterval t ck)"
  by (simp add: selfTuneCheckpointTimeInterval_def Let_def)

lemma checkpointProcess_config:
  assumes "checkpointProcess E connected iter turn micros n ck s = Some (ck', s')"
  shows "number_checkpoints ck' = number_checkpoints ck" "selftune_checkpoint_time_interval ck' = selftune_checkpoint_time_interval ck"
    "selftune_checkpoint_time_interval ck \<Longrightarrow> checkpoint_state ck' \<Longrightarrow> 60 \<le> checkpoint_time_interval ck'"
  using assms by (auto simp: checkpointProcess_def Let_def selfTune_interval dest!: checkpoint_keys_config split: bind_splits if_splits)

lemma checkpoint_cycle_bounds:
  assumes "checkpoint_cycle E rds (int (length pauses)) pauses ck s = Some (fin, n, pauses', ck', s')"
    and "selftune_checkpoint_time_interval ck \<longrightarrow> (\<forall>p \<in> set pauses. 60 \<le> p)"
    and "int (length pauses) < number_checkpoints ck" and "number_checkpoints ck \<le> 2147483647"
  shows "n = int (length pauses') \<and> n \<le> number_checkpoints ck \<and> (selftune_checkpoint_time_interval ck \<longrightarrow> (\<forall>p \<in> set pauses'. 60 \<le> p)) \<and>
           (fin \<and> checkpoint_state ck' \<longrightarrow> n = number_checkpoints ck) \<and> (\<not> fin \<longrightarrow> length pauses' = length pauses + length rds)"
  using assms
proof (induction rds arbitrary: pauses ck s)
  case (Cons rd rds)
  let ?n = "int (length pauses)"
  have w: "to_int32 (?n + 1) = ?n + 1"
    using Cons.prems(3,4) by (intro to_int32_id) (simp add: in_int32_def)
  obtain ck1 s1 where p: "checkpointProcess E (rd_connected rd) (rd_iter rd) (rd_turn rd) (rd_micros rd) (?n + 1) ck s = Some (ck1, s1)"
    using Cons.prems(1) w by (auto split: bind_splits)
  note cfg = checkpointProcess_config [OF p]
  show ?case
  proof (cases "checkpoint_state ck1")
    case False
    then show ?thesis
      using Cons.prems p w by auto
  next
    case True
    obtain rs s2 where c: "serve_clients E (fst (rd_pause rd)) s1 = Some (rs, s2)"
      using Cons.prems(1) w p True by (auto split: bind_splits)
    let ?ck = "if snd (rd_pause rd) then stopCheckpointProcess ck1 else ck1" and ?ps = "pauses @ [checkpoint_time_interval ck1]"
    have ck: "number_checkpoints ?ck = number_checkpoints ck" "selftune_checkpoint_time_interval ?ck = selftune_checkpoint_time_interval ck"
      using cfg(1,2) by (simp_all add: stopCheckpointProcess_def)
    have ps: "selftune_checkpoint_time_interval ck \<longrightarrow> (\<forall>p \<in> set ?ps. 60 \<le> p)"
      using Cons.prems(2) cfg(3) True by auto
    show ?thesis
    proof (cases "checkpoint_state ?ck \<and> number_checkpoints ?ck \<noteq> ?n + 1")
      case False
      then show ?thesis
        using Cons.prems p w c True ck ps by auto
    next
      case go: True
      have "checkpoint_cycle E rds (int (length ?ps)) ?ps ?ck s2 = Some (fin, n, pauses', ck', s')"
        using Cons.prems(1) p w c True go by (simp add: add.commute)
      from Cons.IH [OF this] show ?thesis
        using Cons.prems(3,4) ps ck go by auto
    qed
  qed
qed auto

lemma stopCheckpoint_simps [simp]:
  "number_checkpoints (stopCheckpointProcess ck) = number_checkpoints ck"
  "selftune_checkpoint_time_interval (stopCheckpointProcess ck) = selftune_checkpoint_time_interval ck"
  by (simp_all add: stopCheckpointProcess_def)

text \<open>Rebuilding from the last checkpoint: the replica is configured but missing.\<close>

context indexed_log
begin

lemma checkpoint_rebuild:
  assumes "indexedlog_replicated cfg" and "d_dbs dk (indexedlog_filename cfg) = Missing"
    and "d_dbs dk (indexedlog_replicated_filename cfg) = Missing"
    and "indexedlog_filename cfg \<noteq> indexedlog_replicated_filename cfg"
    and "readFinalLogSeek CHECKPOINT_LOG_SEEK (d_fs dk) = int (log_len old)"
    and "fs_files (d_fs dk) (aof_filename cfg) = Some (concat (map aof_record (old @ new)))"
    and "old @ new \<noteq> []" and "\<forall>ss \<in> set new. wf_record ss" and "log_len (old @ new) < 2 ^ 63" and "\<And>k. records empty_db k = []"
  shows "\<exists>out db'. initialIndexesSequentialLogToIndexedLog B empty_db cfg dk = Inr out \<and>
           d_dbs (io_disk out) (indexedlog_filename cfg) = Store db' \<and> kv_of records db' = fold kv_step new (\<lambda>_. None)"
proof -
  let ?log = "concat (map aof_record (old @ new))" and ?i = "indexedlog_filename cfg" and ?r = "indexedlog_replicated_filename cfg"
  let ?st = "empty_rstate\<lparr>r_seek := of_nat (log_len old)\<rparr>"
  let ?dk = "dk\<lparr>d_dbs := (d_dbs dk)(?i := Missing)\<rparr>"
  let ?dkb = "?dk\<lparr>d_dbs := (d_dbs ?dk)(?r := Store empty_db)\<rparr>"
  let ?dkc = "?dkb\<lparr>d_dbs := (d_dbs ?dkb)(?i := Store empty_db)\<rparr>"
  have empty: "good_index records empty_db" "kv_of records empty_db = (\<lambda>_. None)"
    using assms(10) by (auto simp: good_index_def kv_of_def)
  have ne: "?log \<noteq> []"
    using assms(7) by simp
  have pos: "initial_position empty_db cfg dk = (int (log_len old), cfg, ?dk)"
    using assms(1-5) by (simp add: initial_position_def openBerkeleyDB_def Let_def)
  have op: "openBerkeleyDB empty_db ?r True ?dk = (Some empty_db, ?dkb)" "openBerkeleyDB empty_db ?i True ?dkb = (Some empty_db, ?dkc)"
    using assms(3,4) by (simp_all add: openBerkeleyDB_def)
  have ff: "file_from (of_nat (log_len old)) ?log = concat (map aof_record new)"
    using file_from_log [OF assms(9), of "length ?log"] by (simp add: log_len_def)
  obtain st' db' rep' m' where loop:
    "initial_loop B True ?st (concat (map aof_record new)) empty_db (Some empty_db) 0 0 = Inr (st', db', Some rep', length new, m')"
    "kv_of records db' = fold kv_step new (\<lambda>_. None)"
    using initial_loop_kv [OF assms(8) empty(1), of "Some empty_db" True ?st 0 0] empty by auto
  have "\<exists>out f. initialIndexesSequentialLogToIndexedLog B empty_db cfg dk = Inr out \<and>
      io_disk out = (store_logs cfg db' (Some rep') ?dkc)\<lparr>d_fs := f\<rparr>"
    unfolding initialIndexesSequentialLogToIndexedLog_def pos prod.case Let_def op
    using assms(1,6) ne op ff loop(1) by (simp del: map_append concat_append concat_eq_Nil_conv) blast
  moreover have "d_dbs (store_logs cfg db' (Some rep') ?dkc) ?i = Store db'"
    using assms(1,4) by (simp add: store_logs_def)
  ultimately show ?thesis
    using loop(2) by auto
qed

end

section \<open>Properties\<close>

text \<open>(C6) A full checkpoint suffices.  The log so far consists of a part \<open>old\<close> and of records \<open>ext\<close> that are
  not yet indexed when the checkpoint begins; requests come between the commands of the
  checkpointer; the iterator returns every key that exists at its beginning.  Then replaying, from
  nothing, only \<open>ext\<close> and what has been logged since gives the key space of the end, which is the one
  that the requests alone would have led to, and the position of the last indexed record is stored.\<close>

theorem checkpoint_suffices:
  assumes "normal s" and "db_dict (sv_redis s) = map_option encoded \<circ> fold kv_step_cp (old @ ext) (\<lambda>_. None)"
    and "stored (fold kv_step_cp (old @ ext) (\<lambda>_. None))" and "dom (db_dict (sv_redis s)) \<subseteq> set iter"
    and "\<forall>key \<in> set iter. clean key \<and> length key < 2 ^ 31" and "checkpoint_state ck" and "\<not> checkpoints_only_mfu ck"
    and "undisturbed turn rq (length iter)" and "counts32 (concat (map rq [0 ..< length iter])) (db_dict (sv_redis s))"
    and "in_int32 n" and "\<not> fs_readonly (d_fs (ir_disk s)) CHECKPOINT_LOG_SEEK" and "unat (seek_log_file ck) < 2 ^ 63"
  shows "\<exists>ck' s' lg. checkpointProcess E True iter turn micros n ck s = Some (ck', s') \<and>
           db_dict (sv_redis s') = snd (serve (concat (map rq [0 ..< length iter])) (db_dict (sv_redis s))) \<and>
           sv_aof_buf (sv_redis s') = sv_aof_buf (sv_redis s) @ concat (map aof_record lg) \<and>
           db_dict (sv_redis s') = map_option encoded \<circ> fold kv_step_cp (ext @ lg) (\<lambda>_. None) \<and>
           readFinalLogSeek CHECKPOINT_LOG_SEEK (d_fs (ir_disk s')) = int (unat (seek_log_file ck))"
proof -
  have "fold kv_step_cp (old @ ext) (\<lambda>_. None) k \<noteq> None \<Longrightarrow> k \<in> set iter" for k
    using assms(2,4) by (auto simp: dom_def)
  note cov = covers_start [OF this]
  obtain s' lg where "checkpointProcess E True iter turn micros n ck s =
        Some (selfTuneCheckpointTimeInterval (to_int32 (c_div micros 1000000)) ck, s')"
      "db_dict (sv_redis s') = snd (serve (concat (map rq [0 ..< length iter])) (db_dict (sv_redis s)))"
      "sv_aof_buf (sv_redis s') = sv_aof_buf (sv_redis s) @ concat (map aof_record lg)"
      "db_dict (sv_redis s') = map_option encoded \<circ> fold kv_step_cp lg (fold kv_step_cp ext (\<lambda>_. None))"
      "ir_disk s' = (ir_disk s)\<lparr>d_fs := snd (writeFinalLogSeek CHECKPOINT_LOG_SEEK (seek_log_file ck) (d_fs (ir_disk s)))\<rparr>"
    using checkpoint_process_full [OF assms(1-3) cov assms(5-10), of E micros] by blast
  moreover from this(5) have "readFinalLogSeek CHECKPOINT_LOG_SEEK (d_fs (ir_disk s')) = int (unat (seek_log_file ck))"
    using readFinalLogSeek_write [OF assms(11,12)] by simp
  ultimately show ?thesis
    unfolding fold_append comp_apply by blast
qed

text \<open>(C25) The checkpointer performs as many checkpoints as it is told to, and none too many; if it stops
  earlier, it was told to stop or had no connection.  With the tuning of the interval every pause
  between two checkpoints is at least a minute.\<close>

theorem checkpoints_counted:
  assumes "executeCheckpoint E first rds ck s = Some (fin, n, pauses, ck', s')"
    and "0 < number_checkpoints ck" and "number_checkpoints ck \<le> 2147483647"
  shows "n = int (length pauses) \<and> n \<le> number_checkpoints ck \<and> (fin \<and> checkpoint_state ck' \<longrightarrow> n = number_checkpoints ck) \<and>
         (\<not> fin \<longrightarrow> length pauses = length rds) \<and>
         (selftune_checkpoint_time_interval ck \<longrightarrow> (\<forall>p \<in> set pauses. 60 \<le> p))"
proof (cases "checkpoint_state ck")
  case True
  define start where "start = (case first of None \<Rightarrow> Some (ck\<lparr>checkpint_performing := True\<rparr>, s)
      | Some (cs, stop) \<Rightarrow> do { (_, s) \<leftarrow> serve_clients E cs s;
          Some (if stop then stopCheckpointProcess (ck\<lparr>checkpint_performing := True\<rparr>) else ck\<lparr>checkpint_performing := True\<rparr>, s) })"
  have run: "executeCheckpoint E first rds ck s = do { (ck, s) \<leftarrow> start;
      if checkpoint_state ck then checkpoint_cycle E rds 0 [] ck s else Some (True, 0, [], ck\<lparr>checkpint_performing := False\<rparr>, s) }"
    using True by (simp add: executeCheckpoint_def start_def Let_def)
  with assms(1) obtain ck1 s1 where start: "start = Some (ck1, s1)"
    by (cases start) auto
  have cfg: "number_checkpoints ck1 = number_checkpoints ck" "selftune_checkpoint_time_interval ck1 = selftune_checkpoint_time_interval ck"
    using start by (auto simp: start_def split: option.splits bind_splits if_splits)
  show ?thesis
  proof (cases "checkpoint_state ck1")
    case True
    then show ?thesis
      using checkpoint_cycle_bounds [of E rds "[]" ck1 s1 fin n pauses ck' s'] assms cfg run start by auto
  qed (use assms run start in auto)
qed (use assms in \<open>auto simp: executeCheckpoint_def\<close>)


definition test_ck :: checkpointer where
  "test_ck = \<lparr>checkpoint_state = True, checkpint_performing = False, checkpoints_only_mfu = False, checkpoint_time_interval = 5,
     selftune_checkpoint_time_interval = True, number_checkpoints = 1, seek_log_file = 34\<rparr>"

definition test_kv_server :: "(string \<times> string) list ir_server" where
  "test_kv_server = test_server\<lparr>sv_redis := test_redis\<lparr>db_dict := [''k'' \<mapsto> encoded ''7'']\<rparr>\<rparr>"

lemma test_kv_server: "normal test_kv_server" "db_dict (sv_redis test_kv_server) = [''k'' \<mapsto> encoded ''7'']"
  "\<not> fs_readonly (d_fs (ir_disk test_kv_server)) CHECKPOINT_LOG_SEEK"
proof -
  have "persistent (test_redis\<lparr>db_dict := (db_dict test_redis)(''k'' \<mapsto> encoded ''7'')\<rparr>)"
    using test_serving by (intro persistent_put) (simp_all add: serving_def)
  then have "persistent (sv_redis test_kv_server)"
    by (simp add: test_kv_server_def test_redis_def)
  then show "normal test_kv_server"
    using test_fresh(2) by (simp add: normal_def serving_def) (simp add: test_kv_server_def)
qed (simp_all add: test_kv_server_def test_server_def test_disk_def)

lemma kv_set_k: "fold kv_step_cp [[''SET'', ''k'', ''7'']] (\<lambda>_. None) = [''k'' \<mapsto> ''7'']" "stored [''k'' \<mapsto> ''7'']"
  by (simp_all add: sdstoupper_def c_toupper_def stored_def)

theorem checkpoint_suffices_witness:
  "\<exists>ck' s' lg. checkpointProcess test_env True [''k''] (\<lambda>_. ([test_client IncrCommand [''incr'', ''k'']], False)) 0 1 test_ck test_kv_server =
       Some (ck', s') \<and>
     db_dict (sv_redis s') = [''k'' \<mapsto> IntEnc 8] \<and>
     sv_aof_buf (sv_redis s') = sv_aof_buf (sv_redis test_kv_server) @ concat (map aof_record lg) \<and>
     db_dict (sv_redis s') = map_option encoded \<circ> fold kv_step_cp ([] @ lg) (\<lambda>_. None) \<and>
     readFinalLogSeek CHECKPOINT_LOG_SEEK (d_fs (ir_disk s')) = 34"
proof -
  let ?c = "test_client IncrCommand [''incr'', ''k'']"
  have eff: "req_effect (Rincr ''k'') [''k'' \<mapsto> encoded ''7''] = (R_longlong 8, [''k'' \<mapsto> IntEnc 8])"
    using string2ll_7 by (simp add: int_value_def in_int64_def)
  have logs: "logs ?c (Rincr ''k'')"
    using test_incr by (auto simp: logs_def) (simp add: test_client_def)
  have und: "undisturbed (\<lambda>_. ([?c], False)) (\<lambda>_. [Rincr ''k'']) (length [''k''])"
    using logs by (simp add: undisturbed_def)
  have counts: "counts32 (concat (map (\<lambda>_. [Rincr ''k'']) [0 ..< length [''k'']])) (db_dict (sv_redis test_kv_server))"
    using eff by (simp add: test_kv_server(2) in_int32_def)
  have dict: "db_dict (sv_redis test_kv_server) = map_option encoded \<circ> fold kv_step_cp ([[''SET'', ''k'', ''7'']] @ []) (\<lambda>_. None)"
    unfolding append_Nil2 kv_set_k(1) test_kv_server(2) by (auto simp: fun_eq_iff)
  have st: "stored (fold kv_step_cp ([[''SET'', ''k'', ''7'']] @ []) (\<lambda>_. None))"
    unfolding append_Nil2 kv_set_k(1) by (rule kv_set_k(2))
  have iter: "dom (db_dict (sv_redis test_kv_server)) \<subseteq> set [''k'']"
    by (simp add: test_kv_server(2))
  have ck: "checkpoint_state test_ck" "\<not> checkpoints_only_mfu test_ck" "in_int32 1" "unat (seek_log_file test_ck) < 2 ^ 63"
      "int (unat (seek_log_file test_ck)) = 34" "\<forall>key \<in> set [''k'']. clean key \<and> length key < 2 ^ 31"
    by (simp_all add: test_ck_def in_int32_def)
  have "snd (serve (concat (map (\<lambda>_. [Rincr ''k'']) [0 ..< length [''k'']])) (db_dict (sv_redis test_kv_server))) = [''k'' \<mapsto> IntEnc 8]"
    using eff by (simp add: test_kv_server(2))
  with checkpoint_suffices [OF test_kv_server(1) dict st iter ck(6,1,2) und counts ck(3) test_kv_server(3) ck(4), of test_env 0]
  show ?thesis unfolding ck(5) by (simp only:)
qed

theorem checkpoints_counted_witness:
  "\<exists>n pauses ck' s'. executeCheckpoint test_env None
       [\<lparr>rd_connected = True, rd_iter = [''k''], rd_turn = (\<lambda>_. ([], False)), rd_micros = 240000000, rd_pause = ([], False)\<rparr>]
       test_ck test_kv_server = Some (True, n, pauses, ck', s') \<and> n = int (length pauses) \<and> n = 1 \<and> pauses = [120]"
proof -
  let ?turn = "\<lambda>_ :: nat. ([] :: client list, False)" and ?ck = "test_ck\<lparr>checkpint_performing := True\<rparr>"
  let ?rd = "\<lparr>rd_connected = True, rd_iter = [''k''], rd_turn = ?turn, rd_micros = 240000000, rd_pause = ([], False)\<rparr>"
  have dict: "db_dict (sv_redis test_kv_server) = map_option encoded \<circ> [''k'' \<mapsto> ''7'']"
    unfolding test_kv_server(2) by (auto simp: fun_eq_iff)
  have cov: "covers (\<lambda>_. None) [''k'' \<mapsto> ''7''] [''k'']"
    by (simp add: covers_def)
  have "undisturbed ?turn (\<lambda>_. []) (length [''k''])"
    by (simp add: undisturbed_def)
  then obtain s1 where s1: "checkpointProcess test_env True [''k''] ?turn 240000000 1 ?ck test_kv_server =
      Some (selfTuneCheckpointTimeInterval (to_int32 (c_div 240000000 1000000)) ?ck, s1)"
    using checkpoint_process_full [OF test_kv_server(1) dict kv_set_k(2) cov, of ?ck ?turn "\<lambda>_. []" 1 test_env 240000000]
    by (auto simp: test_ck_def in_int32_def)
  have tune: "selfTuneCheckpointTimeInterval (to_int32 (c_div 240000000 1000000)) ?ck = ?ck\<lparr>checkpoint_time_interval := 120\<rparr>"
    by (simp add: selfTuneCheckpointTimeInterval_def c_div_def to_int32_def test_ck_def)
  have ck: "checkpoint_state test_ck" "number_checkpoints test_ck = 1" "to_int32 1 = 1"
    by (simp_all add: test_ck_def to_int32_def)
  have run: "executeCheckpoint test_env None [?rd] test_ck test_kv_server =
      Some (True, 1, [120], ?ck\<lparr>checkpoint_time_interval := 120, checkpint_performing := False\<rparr>, s1)"
    using s1 ck tune by (simp add: executeCheckpoint_def)
  from checkpoints_counted [OF this] ck show ?thesis
    unfolding run by simp
qed

definition checkpoint_disk :: "(string \<times> string) list disk" where
  "checkpoint_disk =
     \<lparr>d_fs = \<lparr>fs_files = (\<lambda>n. if n = ''a.aof'' then Some (concat (map aof_record [[''SETCHECKPOINT'', ''k'', ''7'']]))
                             else if n = CHECKPOINT_LOG_SEEK then Some (le_bytes 8 0) else None),
             fs_readonly = (\<lambda>_. False)\<rparr>,
      d_dbs = (\<lambda>_. Missing)\<rparr>"


end
