(* ===== verification/Sds_Args.thy ===== *)
theory Sds_Args
  imports Sds_Strings
begin

text \<open>
  Lines of arguments (\<open>sdscatrepr\<close> and \<open>sdssplitargs\<close> of \<^verbatim>\<open>src/src/sds.c\<close>), used for requests in the inline protocol.
  \<open>sdssplitargs\<close> reads a C string: in the model the end of the list is the terminating zero byte.

  The law: a sequence of quoted strings is split into exactly these strings.
\<close>

section \<open>The code\<close>

definition is_hex_digit :: "char \<Rightarrow> bool" where
  "is_hex_digit c \<longleftrightarrow> (let n = of_char c :: nat in 48 \<le> n \<and> n \<le> 57 \<or> 97 \<le> n \<and> n \<le> 102 \<or> 65 \<le> n \<and> n \<le> 70)"

definition hex_digit_to_int :: "char \<Rightarrow> nat" where
  "hex_digit_to_int c =
     (let n = of_char c in
      if 48 \<le> n \<and> n \<le> 57 then n - 48 else if 97 \<le> n \<and> n \<le> 102 then n - 87 else if 65 \<le> n \<and> n \<le> 70 then n - 55 else 0)"

definition c_isprint :: "char \<Rightarrow> bool" where
  "c_isprint c \<longleftrightarrow> (let n = of_char c :: nat in 32 \<le> n \<and> n < 127)"

text \<open>\<^verbatim>\<open>%02x\<close> of a byte.\<close>

definition hex_char :: "nat \<Rightarrow> char" where
  "hex_char n = char_of (if n < 10 then 48 + n else 87 + n)"

definition hex_byte :: "char \<Rightarrow> string" where
  "hex_byte c = [hex_char (of_char c div 16), hex_char (of_char c mod 16)]"

definition repr_char :: "char \<Rightarrow> string" where
  "repr_char c =
     (if c = CHR 0x5C \<or> c = CHR 0x22 then [CHR 0x5C, c]
      else if c = CHR 0x0A then [CHR 0x5C, CHR ''n'']
      else if c = CHR 0x0D then [CHR 0x5C, CHR ''r'']
      else if c = CHR 0x09 then [CHR 0x5C, CHR ''t'']
      else if c = CHR 0x07 then [CHR 0x5C, CHR ''a'']
      else if c = CHR 0x08 then [CHR 0x5C, CHR ''b'']
      else if c_isprint c then [c]
      else [CHR 0x5C, CHR ''x''] @ hex_byte c)"

definition sdscatrepr :: "string \<Rightarrow> string \<Rightarrow> string" where
  "sdscatrepr s p = s @ [CHR 0x22] @ concat (map repr_char p) @ [CHR 0x22]"

text \<open>The two kinds of quotes, and none.\<close>

datatype quoting = Unquoted | Inq | Insq

definition unescape :: "char \<Rightarrow> char" where
  "unescape c =
     (if c = CHR ''n'' then CHR 0x0A else if c = CHR ''r'' then CHR 0x0D else if c = CHR ''t'' then CHR 0x09
      else if c = CHR ''b'' then CHR 0x08 else if c = CHR ''a'' then CHR 0x07 else c)"

definition hex_escape :: "string \<Rightarrow> bool" where
  "hex_escape p \<longleftrightarrow> (case p of x # a # b # _ \<Rightarrow> x = CHR ''x'' \<and> is_hex_digit a \<and> is_hex_digit b | _ \<Rightarrow> False)"

text \<open>A token, with what follows it; \<^term>\<open>None\<close>: unbalanced quotes.\<close>

fun split_token :: "quoting \<Rightarrow> string \<Rightarrow> string \<Rightarrow> (string \<times> string) option" where
  "split_token Inq current p =
     (case p of
        [] \<Rightarrow> None
      | c # q \<Rightarrow>
          if c = CHR 0x5C \<and> hex_escape q
          then split_token Inq (current @ [char_of (hex_digit_to_int (q ! 1) * 16 + hex_digit_to_int (q ! 2))]) (drop 3 q)
          else if c = CHR 0x5C \<and> q \<noteq> [] then split_token Inq (current @ [unescape (hd q)]) (drop 1 q)
          else if c = CHR 0x22 then if q \<noteq> [] \<and> \<not> c_isspace (hd q) then None else Some (current, q)
          else split_token Inq (current @ [c]) q)"
| "split_token Insq current p =
     (case p of
        [] \<Rightarrow> None
      | c # q \<Rightarrow>
          if c = CHR 0x5C \<and> q \<noteq> [] \<and> hd q = CHR 0x27 then split_token Insq (current @ [CHR 0x27]) (drop 1 q)
          else if c = CHR 0x27 then if q \<noteq> [] \<and> \<not> c_isspace (hd q) then None else Some (current, q)
          else split_token Insq (current @ [c]) q)"
| "split_token Unquoted current p =
     (case p of
        [] \<Rightarrow> Some (current, [])
      | c # q \<Rightarrow>
          if c \<in> {CHR '' '', CHR 0x0A, CHR 0x0D, CHR 0x09} then Some (current, q)
          else if c = CHR 0x22 then split_token Inq current q
          else if c = CHR 0x27 then split_token Insq current q
          else split_token Unquoted (current @ [c]) q)"

declare split_token.simps [simp del]

lemma token_steps:
  "split_token Inq current [] = None" "split_token Insq current [] = None" "split_token Unquoted current [] = Some (current, [])"
  "split_token Inq current (c # q) =
     (if c = CHR 0x5C \<and> hex_escape q
      then split_token Inq (current @ [char_of (hex_digit_to_int (q ! 1) * 16 + hex_digit_to_int (q ! 2))]) (drop 3 q)
      else if c = CHR 0x5C \<and> q \<noteq> [] then split_token Inq (current @ [unescape (hd q)]) (drop 1 q)
      else if c = CHR 0x22 then if q \<noteq> [] \<and> \<not> c_isspace (hd q) then None else Some (current, q)
      else split_token Inq (current @ [c]) q)"
  "split_token Insq current (c # q) =
     (if c = CHR 0x5C \<and> q \<noteq> [] \<and> hd q = CHR 0x27 then split_token Insq (current @ [CHR 0x27]) (drop 1 q)
      else if c = CHR 0x27 then if q \<noteq> [] \<and> \<not> c_isspace (hd q) then None else Some (current, q)
      else split_token Insq (current @ [c]) q)"
  "split_token Unquoted current (c # q) =
     (if c \<in> {CHR '' '', CHR 0x0A, CHR 0x0D, CHR 0x09} then Some (current, q)
      else if c = CHR 0x22 then split_token Inq current q
      else if c = CHR 0x27 then split_token Insq current q
      else split_token Unquoted (current @ [c]) q)"
  by (subst split_token.simps, simp only: list.case)+

lemma split_token_shorter: "split_token m current p = Some (t, rest) \<Longrightarrow> length rest \<le> length p \<and> (p \<noteq> [] \<longrightarrow> length rest < length p)"
proof (induction "length p" arbitrary: m current p rule: less_induct)
  case less
  show ?case
  proof (cases p)
    case Nil
    then show ?thesis
      using less.prems by (cases m) (simp_all add: token_steps)
  next
    case (Cons c q)
    have IH: "length rest \<le> length q" if "split_token m' cur p' = Some (t, rest)" "length p' \<le> length q" for m' cur p'
      using less.hyps [of p' m' cur] that Cons by simp
    have "length rest \<le> length q"
      using less.prems unfolding Cons
      by (cases m) (auto simp: token_steps dest!: IH split: if_splits)
    then show ?thesis
      using Cons by simp
  qed
qed

function split_args :: "string \<Rightarrow> string list \<Rightarrow> string list option" where
  "split_args p vector =
     (case dropWhile c_isspace p of
        [] \<Rightarrow> Some vector
      | c # q \<Rightarrow>
          (case split_token Unquoted [] (c # q) of
             None \<Rightarrow> None
           | Some (current, rest) \<Rightarrow> split_args rest (vector @ [current])))"
  by pat_completeness auto
termination
proof (relation "measure (\<lambda>(p, vector). length p)", goal_cases)
  case (2 p vector c q tr current rest)
  then show ?case
    using split_token_shorter [of Unquoted "[]" "c # q" current rest] length_dropWhile_le [of c_isspace p] by simp
qed simp

declare split_args.simps [simp del]

definition sdssplitargs :: "string \<Rightarrow> string list option" where
  "sdssplitargs line = split_args (cstr line) []"

section \<open>Quoting and splitting\<close>

lemma hex_char_inverse:
  assumes "n < 16"
  shows "is_hex_digit (hex_char n)" "hex_digit_to_int (hex_char n) = n" "hex_char n \<noteq> NUL"
proof -
  have "of_char (hex_char n) = (if n < 10 then 48 + n else 87 + n)"
    using assms by (simp add: hex_char_def)
  then show "is_hex_digit (hex_char n)" "hex_digit_to_int (hex_char n) = n" "hex_char n \<noteq> NUL"
    using assms by (auto simp: is_hex_digit_def hex_digit_to_int_def Let_def split: if_splits)
qed

lemma char_nibbles: "of_char c div 16 < (16 :: nat)" "of_char c mod 16 < (16 :: nat)"
  using nat_of_char_less_256 [of c] by (simp_all add: less_mult_imp_div_less)

lemma hex_byte_step: "split_token Inq current ([CHR 0x5C, CHR ''x''] @ hex_byte c @ p) = split_token Inq (current @ [c]) p"
proof -
  note n = char_nibbles [of c]
  then have "hex_escape (CHR ''x'' # hex_byte c @ p)"
    by (simp add: hex_escape_def hex_byte_def hex_char_inverse)
  then have "split_token Inq current ([CHR 0x5C, CHR ''x''] @ hex_byte c @ p) =
      split_token Inq (current @ [char_of (hex_digit_to_int (hex_char (of_char c div 16)) * 16 + hex_digit_to_int (hex_char (of_char c mod 16)))]) p"
    by (simp add: token_steps(4) hex_byte_def)
  also have "\<dots> = split_token Inq (current @ [c]) p"
    using n by (simp add: hex_char_inverse)
  finally show ?thesis .
qed

lemma repr_char_step: "split_token Inq current (repr_char c @ p) = split_token Inq (current @ [c]) p"
proof -
  have esc: "split_token Inq current (CHR 0x5C # x # p) = split_token Inq (current @ [unescape x]) p" if "x \<noteq> CHR ''x''" for x
    using that by (simp add: token_steps(4) hex_escape_def split: list.splits)
  show ?thesis
  proof (cases "c \<in> {CHR 0x5C, CHR 0x22, CHR 0x0A, CHR 0x0D, CHR 0x09, CHR 0x07, CHR 0x08}")
    case True
    then show ?thesis by (auto simp: repr_char_def esc unescape_def)
  next
    case False
    then show ?thesis
      using hex_byte_step [of current c p] by (cases "c_isprint c") (simp_all add: repr_char_def token_steps(4))
  qed
qed

lemma repr_char_no_NUL: "NUL \<notin> set (repr_char c)"
proof -
  show ?thesis
    using char_nibbles [of c] hex_char_inverse(3) [THEN not_sym] by (auto simp: repr_char_def hex_byte_def c_isprint_def Let_def)
qed

lemma repr_step:
  assumes "rest = [] \<or> c_isspace (hd rest)"
  shows "split_token Inq current (concat (map repr_char s) @ CHR 0x22 # rest) = Some (current @ s, rest)"
proof (induction s arbitrary: current)
  case Nil
  then show ?case using assms by (auto simp: token_steps(4))
next
  case (Cons c s)
  then show ?case by (simp add: repr_char_step)
qed

definition repr_line :: "string list \<Rightarrow> string" where
  "repr_line ss = concat (map (\<lambda>s. sdscatrepr [] s @ '' '') ss)"

lemma split_args_line: "split_args (repr_line ss) vector = Some (vector @ ss)"
proof (induction ss arbitrary: vector)
  case Nil
  show ?case by (subst split_args.simps) (simp add: repr_line_def)
next
  case (Cons s ss)
  let ?rest = "CHR '' '' # repr_line ss"
  have line: "repr_line (s # ss) = CHR 0x22 # concat (map repr_char s) @ CHR 0x22 # ?rest"
    by (simp add: repr_line_def sdscatrepr_def)
  have "split_token Unquoted [] (repr_line (s # ss)) = Some (s, ?rest)"
    using repr_step [of ?rest "[]" s] by (simp add: line token_steps(6) c_isspace_def)
  moreover have "dropWhile c_isspace (repr_line (s # ss)) = repr_line (s # ss)"
    by (simp add: line c_isspace_def)
  ultimately have "split_args (repr_line (s # ss)) vector = split_args ?rest (vector @ [s])"
    by (subst split_args.simps) (simp add: line)
  moreover have "split_args ?rest v = split_args (repr_line ss) v" for v
    by (subst (1 2) split_args.simps) (simp add: c_isspace_def)
  ultimately show ?case
    using Cons.IH by simp
qed

text \<open>(C37) Quoting and splitting are inverse: a line of any strings, each quoted by \<open>sdscatrepr\<close> and followed by a
  space, is split by \<open>sdssplitargs\<close> into exactly these strings, whatever bytes they contain.\<close>

theorem repr_split_roundtrip: "sdssplitargs (concat (map (\<lambda>s. sdscatrepr [] s @ '' '') ss)) = Some ss"
proof -
  have "NUL \<notin> set (repr_line ss)"
    using repr_char_no_NUL by (auto simp: repr_line_def sdscatrepr_def)
  then show ?thesis
    using split_args_line [of ss "[]"] by (simp add: sdssplitargs_def repr_line_def [symmetric] cstr_id)
qed

end
