(* ===== verification/Client_Protocol.thy ===== *)
theory Client_Protocol
  imports Crash_Recovery Sds_Args
begin

text \<open>
  From the bytes of a connection to the execution of commands: \<open>readQueryFromClient\<close>, \<open>processInputBuffer\<close>,
  \<open>processMultibulkBuffer\<close> and \<open>processInlineBuffer\<close> of \<^verbatim>\<open>src/src/networking.c\<close>.  A read delivers any part of the
  bytes a client has sent, so a request may arrive in pieces, and several requests at once; the query
  buffer, the position in it and what is known of the current request are kept between reads.  The
  position is a number, the unknown bulk length \<^verbatim>\<open>-1\<close> is \<^term>\<open>None\<close>.  Paused, blocked and replication clients are
  not represented, and the limits have their default values.  A failed assertion is \<^term>\<open>None\<close>.  \<^verbatim>\<open>c->cmd\<close>, which
  \<open>resetClient\<close> clears, is set by \<open>processCommand\<close> before it is read again.

  The laws: however the bytes of a sequence of requests are cut into reads, exactly these requests
  are executed, in their order, and nothing is left over; the log grows by their records.
\<close>

section \<open>The code\<close>

datatype req_type = REQ_NONE | REQ_INLINE | REQ_MULTIBULK

record conn =
  querybuf :: string
  qb_pos :: nat
  reqtype :: req_type
  multibulklen :: nat
  bulklen :: "nat option"
  close_after_reply :: bool
  freed :: bool
  cn_client :: client

definition PROTO_INLINE_MAX_SIZE :: nat where "PROTO_INLINE_MAX_SIZE = 1024 * 64"

definition PROTO_MBULK_BIG_ARG :: nat where "PROTO_MBULK_BIG_ARG = 1024 * 32"

definition PROTO_MAX_QUERYBUF_LEN :: nat where "PROTO_MAX_QUERYBUF_LEN = 1024 * 1024 * 1024"

definition proto_max_bulk_len :: int where "proto_max_bulk_len = 512 * 1024 * 1024"

text \<open>The bytes from the position on.\<close>

abbreviation unread :: "conn \<Rightarrow> string" where
  "unread cn \<equiv> drop (qb_pos cn) (querybuf cn)"

text \<open>\<^verbatim>\<open>strchr\<close> for a character other than the zero byte.\<close>

definition c_strchr :: "char \<Rightarrow> string \<Rightarrow> nat option" where
  "c_strchr c s = (let n = length (takeWhile (\<lambda>x. x \<noteq> c) (cstr s)) in if n < length (cstr s) then Some n else None)"

text \<open>An error reply, after which the connection is closed.\<close>

definition protocol_error :: "string \<Rightarrow> conn \<Rightarrow> conn" where
  "protocol_error msg cn = cn\<lparr>cn_client := addReply (R_error msg) (cn_client cn), close_after_reply := True\<rparr>"

definition set_argv :: "robj list \<Rightarrow> conn \<Rightarrow> conn" where
  "set_argv argv cn = cn\<lparr>cn_client := (cn_client cn)\<lparr>cl_argv := argv\<rparr>\<rparr>"

definition resetClient :: "conn \<Rightarrow> conn" where
  "resetClient cn = (set_argv [] cn)\<lparr>reqtype := REQ_NONE, multibulklen := 0, bulklen := None\<rparr>"

definition processInlineBuffer :: "conn \<Rightarrow> c_result \<times> conn" where
  "processInlineBuffer cn =
     (case c_strchr LF (unread cn) of
        None \<Rightarrow>
          (C_ERR, if length (unread cn) > PROTO_INLINE_MAX_SIZE
                  then protocol_error ''Protocol error: too big inline request'' cn else cn)
      | Some n \<Rightarrow>
          (let (querylen, linefeed_chars) = (if n \<noteq> 0 \<and> unread cn ! (n - 1) = CR then (n - 1, 2) else (n, 1))
           in case sdssplitargs (take querylen (unread cn)) of
                None \<Rightarrow> (C_ERR, protocol_error ''Protocol error: unbalanced quotes in request'' cn)
              | Some argv \<Rightarrow>
                  (C_OK, (set_argv (map RawStr (filter (\<lambda>a. a \<noteq> []) argv)) cn)
                           \<lparr>qb_pos := qb_pos cn + querylen + linefeed_chars\<rparr>)))"

text \<open>The number of arguments: a result of the function, or the way into the loop.\<close>

definition multibulk_header :: "conn \<Rightarrow> ((c_result \<times> conn) + conn) option" where
  "multibulk_header cn =
     (if cl_argv (cn_client cn) \<noteq> [] then None
      else case c_strchr CR (unread cn) of
             None \<Rightarrow>
               Some (Inl (C_ERR, if length (unread cn) > PROTO_INLINE_MAX_SIZE
                                 then protocol_error ''Protocol error: too big mbulk count string'' cn else cn))
           | Some n \<Rightarrow>
               if int n > int (length (unread cn)) - 2 then Some (Inl (C_ERR, cn))
               else if hd (unread cn) \<noteq> CHR ''*'' then None
               else
                 (case string2ll (take (n - 1) (tl (unread cn))) of
                    Some ll \<Rightarrow>
                      if ll > 1024 * 1024
                      then Some (Inl (C_ERR, protocol_error ''Protocol error: invalid multibulk length'' cn))
                      else
                        let cn = cn\<lparr>qb_pos := qb_pos cn + n + 2\<rparr> in
                        if ll \<le> 0 then Some (Inl (C_OK, cn)) else Some (Inr (cn\<lparr>multibulklen := nat ll\<rparr>))
                  | None \<Rightarrow> Some (Inl (C_ERR, protocol_error ''Protocol error: invalid multibulk length'' cn))))"

text \<open>The length of the next argument; \<^term>\<open>Inl\<close>: it is not there yet, or wrong.\<close>

definition bulk_length :: "conn \<Rightarrow> conn + (nat \<times> conn)" where
  "bulk_length cn =
     (case bulklen cn of
        Some len \<Rightarrow> Inr (len, cn)
      | None \<Rightarrow>
          (case c_strchr CR (unread cn) of
             None \<Rightarrow>
               Inl (if length (unread cn) > PROTO_INLINE_MAX_SIZE
                    then protocol_error ''Protocol error: too big bulk count string'' cn else cn)
           | Some n \<Rightarrow>
               if int n > int (length (unread cn)) - 2 then Inl cn
               else if hd (unread cn) \<noteq> CHR ''$''
               then Inl (protocol_error (''Protocol error: expected '' @ [CHR 0x27, CHR ''$'', CHR 0x27] @ '', got '' @
                                         [CHR 0x27, hd (unread cn), CHR 0x27]) cn)
               else
                 (case string2ll (take (n - 1) (tl (unread cn))) of
                    Some ll \<Rightarrow>
                      if ll < 0 \<or> ll > proto_max_bulk_len
                      then Inl (protocol_error ''Protocol error: invalid bulk length'' cn)
                      else
                        let cn = cn\<lparr>qb_pos := qb_pos cn + n + 2\<rparr>;
                            cn = (if nat ll \<ge> PROTO_MBULK_BIG_ARG \<and> length (unread cn) \<le> nat ll + 2
                                  then cn\<lparr>querybuf := unread cn, qb_pos := 0\<rparr> else cn)
                        in Inr (nat ll, cn\<lparr>bulklen := Some (nat ll)\<rparr>)
                  | None \<Rightarrow> Inl (protocol_error ''Protocol error: invalid bulk length'' cn))))"

text \<open>An argument that is there.  If it fills the buffer, the buffer becomes the argument.\<close>

definition take_bulk :: "nat \<Rightarrow> conn \<Rightarrow> conn" where
  "take_bulk len cn =
     (let argv = cl_argv (cn_client cn) in
      if qb_pos cn = 0 \<and> len \<ge> PROTO_MBULK_BIG_ARG \<and> length (querybuf cn) = len + 2
      then (set_argv (argv @ [RawStr (take len (querybuf cn))]) cn)\<lparr>querybuf := [], bulklen := None\<rparr>
      else (set_argv (argv @ [createStringObject (take len (unread cn))]) cn)\<lparr>qb_pos := qb_pos cn + len + 2, bulklen := None\<rparr>)"

text \<open>The loop over the arguments; the first argument is \<^verbatim>\<open>multibulklen\<close>.\<close>

fun multibulk_loop :: "nat \<Rightarrow> conn \<Rightarrow> c_result \<times> conn" where
  "multibulk_loop 0 cn = (C_OK, cn\<lparr>multibulklen := 0\<rparr>)"
| "multibulk_loop (Suc m) cn =
     (case bulk_length cn of
        Inl cn \<Rightarrow> (C_ERR, cn\<lparr>multibulklen := Suc m\<rparr>)
      | Inr (len, cn) \<Rightarrow>
          if length (unread cn) < len + 2 then (C_ERR, cn\<lparr>multibulklen := Suc m\<rparr>)
          else multibulk_loop m (take_bulk len cn))"

definition processMultibulkBuffer :: "conn \<Rightarrow> (c_result \<times> conn) option" where
  "processMultibulkBuffer cn =
     (if multibulklen cn = 0
      then (case multibulk_header cn of
              None \<Rightarrow> None
            | Some (Inl res) \<Rightarrow> Some res
            | Some (Inr cn) \<Rightarrow> Some (multibulk_loop (multibulklen cn) cn))
      else Some (multibulk_loop (multibulklen cn) cn))"

text \<open>One request at the position; \<^term>\<open>C_ERR\<close>: the loop of \<open>processInputBuffer\<close> ends.\<close>

definition parse_request :: "conn \<Rightarrow> (c_result \<times> conn) option" where
  "parse_request cn =
     (let cn = (if reqtype cn = REQ_NONE
                then cn\<lparr>reqtype := (if hd (unread cn) = CHR ''*'' then REQ_MULTIBULK else REQ_INLINE)\<rparr> else cn)
      in if reqtype cn = REQ_INLINE then Some (processInlineBuffer cn) else processMultibulkBuffer cn)"

lemma length_unread_bulk_length: "bulk_length cn = Inr (len, cn') \<Longrightarrow> length (unread cn') \<le> length (unread cn)"
  by (auto simp: bulk_length_def Let_def split: option.splits if_splits)

lemma multibulk_loop_consumes:
  "multibulk_loop m cn = (C_OK, cn') \<Longrightarrow> length (unread cn') + m \<le> length (unread cn)"
proof (induction m cn rule: multibulk_loop.induct)
  case (2 m cn)
  then obtain len cn1 where 1: "bulk_length cn = Inr (len, cn1)" "\<not> length (unread cn1) < len + 2"
      "multibulk_loop m (take_bulk len cn1) = (C_OK, cn')"
    by (auto split: sum.splits if_splits)
  moreover have "length (unread (take_bulk len cn1)) < length (unread cn1)"
    using 1(2) by (auto simp: take_bulk_def set_argv_def Let_def)
  ultimately show ?case
    using "2.IH" [OF 1(1) refl 1(2,3)] length_unread_bulk_length [OF 1(1)] by simp
qed (auto)

lemma c_strchr_less: "c_strchr c s = Some n \<Longrightarrow> n < length s"
  using length_cstr [of s] by (auto simp: c_strchr_def Let_def split: if_splits)

lemma parse_request_consumes:
  assumes "parse_request cn = Some (C_OK, cn')" and "unread cn \<noteq> []"
  shows "length (unread cn') < length (unread cn)"
proof -
  have inline: "length (unread x') < length (unread x)" if "processInlineBuffer x = (C_OK, x')" for x x'
    using that c_strchr_less [of LF "unread x"]
    by (auto simp: processInlineBuffer_def Let_def set_argv_def split: option.splits if_splits)
  have header: "length (unread x') < length (unread x)"
    if "multibulk_header x = Some (Inl (C_OK, x')) \<or> multibulk_header x = Some (Inr x')" for x x'
    using that c_strchr_less [of CR "unread x"]
    by (auto simp: multibulk_header_def Let_def split: option.splits if_splits)
  have multibulk: "length (unread x') < length (unread x)" if "processMultibulkBuffer x = Some (C_OK, x')" for x x'
    using that multibulk_loop_consumes [of "multibulklen x" x x'] header [of x]
    by (fastforce simp: processMultibulkBuffer_def split: if_splits option.splits sum.splits
        dest!: multibulk_loop_consumes)
  show ?thesis
    using assms inline multibulk by (fastforce simp: parse_request_def Let_def split: if_splits)
qed

lemma resetClient_buffer [simp]: "querybuf (resetClient cn) = querybuf cn" "qb_pos (resetClient cn) = qb_pos cn"
  by (simp_all add: resetClient_def set_argv_def)

text \<open>The loop of \<open>processInputBuffer\<close>.  Only \<^verbatim>\<open>QUIT\<close> makes \<open>processCommand\<close> return \<^term>\<open>C_ERR\<close>: it asks for the
  connection to be closed.\<close>

function input_loop :: "('db, 'c) env \<Rightarrow> int \<times> int \<times> int \<Rightarrow> conn \<Rightarrow> 'db ir_server \<Rightarrow> (conn \<times> 'db ir_server) option" where
  "input_loop E tm cn s =
     (if qb_pos cn < length (querybuf cn) \<and> \<not> close_after_reply cn
      then (case parse_request cn of
              None \<Rightarrow> None
            | Some (C_ERR, cn) \<Rightarrow> Some (cn, s)
            | Some (C_OK, cn) \<Rightarrow>
                if cl_argv (cn_client cn) = [] then input_loop E tm (resetClient cn) s
                else (case processCommand E tm (cn_client cn) s of
                        None \<Rightarrow> None
                      | Some (C_OK, c, s) \<Rightarrow> input_loop E tm (resetClient (cn\<lparr>cn_client := c\<rparr>)) s
                      | Some (C_ERR, c, s) \<Rightarrow> input_loop E tm (cn\<lparr>cn_client := c, close_after_reply := True\<rparr>) s))
      else Some (cn, s))"
  by pat_completeness auto

termination
  by (relation "measure (\<lambda>(E, tm, cn, s). length (unread cn))") (auto dest!: parse_request_consumes)

declare input_loop.simps [simp del]

definition processInputBuffer :: "('db, 'c) env \<Rightarrow> int \<times> int \<times> int \<Rightarrow> conn \<Rightarrow> 'db ir_server \<Rightarrow> (conn \<times> 'db ir_server) option" where
  "processInputBuffer E tm cn s =
     map_option (\<lambda>(cn, s). (cn\<lparr>querybuf := unread cn, qb_pos := 0\<rparr>, s)) (input_loop E tm cn s)"

text \<open>What \<^verbatim>\<open>read\<close> returns, and how much it is asked for.\<close>

datatype read_result = Read_again | Read_failed | Read_bytes string

definition PROTO_IOBUF_LEN :: nat where "PROTO_IOBUF_LEN = 1024 * 16"

definition readlen :: "conn \<Rightarrow> nat" where
  "readlen cn =
     (case bulklen cn of
        Some len \<Rightarrow>
          if reqtype cn = REQ_MULTIBULK \<and> multibulklen cn \<noteq> 0 \<and> len \<ge> PROTO_MBULK_BIG_ARG
          then let remaining = int (len + 2) - int (length (querybuf cn))
               in if remaining > 0 \<and> remaining < int PROTO_IOBUF_LEN then nat remaining else PROTO_IOBUF_LEN
          else PROTO_IOBUF_LEN
      | None \<Rightarrow> PROTO_IOBUF_LEN)"

definition readQueryFromClient :: "('db, 'c) env \<Rightarrow> int \<times> int \<times> int \<Rightarrow> read_result \<Rightarrow> conn \<Rightarrow> 'db ir_server \<Rightarrow> (conn \<times> 'db ir_server) option" where
  "readQueryFromClient E tm rd cn s =
     (case rd of
        Read_again \<Rightarrow> Some (cn, s)
      | Read_failed \<Rightarrow> Some (cn\<lparr>freed := True\<rparr>, s)
      | Read_bytes bytes \<Rightarrow>
          if bytes = [] then Some (cn\<lparr>freed := True\<rparr>, s)
          else let cn = cn\<lparr>querybuf := querybuf cn @ bytes\<rparr> in
               if length (querybuf cn) > PROTO_MAX_QUERYBUF_LEN then Some (cn\<lparr>freed := True\<rparr>, s)
               else processInputBuffer E tm cn s)"

text \<open>\<open>createClient\<close>: nothing read, nothing known.\<close>

definition createClient :: "client \<Rightarrow> conn" where
  "createClient c = \<lparr>querybuf = [], qb_pos = 0, reqtype = REQ_NONE, multibulklen = 0, bulklen = None,
     close_after_reply = False, freed = False, cn_client = c\<lparr>cl_argv := []\<rparr>\<rparr>"

text \<open>A connection on whose other end the bytes \<open>sock\<close> are sent.  The event loop calls the handler while
  there is something to read; the \<open>n\<close>-s are how many bytes have arrived each time, none if the call is
  spurious.  A connection to be closed is not read any more.\<close>

fun serve_socket :: "('db, 'c) env \<Rightarrow> int \<times> int \<times> int \<Rightarrow> nat list \<Rightarrow> conn \<Rightarrow> string \<Rightarrow> 'db ir_server \<Rightarrow> (conn \<times> 'db ir_server) option" where
  "serve_socket E tm [] cn sock s = Some (cn, s)"
| "serve_socket E tm (n # ns) cn sock s =
     (if sock = [] \<or> close_after_reply cn \<or> freed cn then Some (cn, s)
      else if n = 0
      then (case readQueryFromClient E tm Read_again cn s of None \<Rightarrow> None | Some (cn, s) \<Rightarrow> serve_socket E tm ns cn sock s)
      else let m = min n (readlen cn) in
           case readQueryFromClient E tm (Read_bytes (take m sock)) cn s of
             None \<Rightarrow> None
           | Some (cn, s) \<Rightarrow> serve_socket E tm ns cn (drop m sock) s)"

section \<open>A request that arrives in pieces\<close>

lemma c_strchr_append:
  assumes "c \<notin> set a" and "NUL \<notin> set a" and "c \<noteq> NUL"
  shows "c_strchr c (a @ c # t) = Some (length a)"
  using assms by (simp add: c_strchr_def cstr_append Let_def takeWhile_append) (simp add: cstr_def takeWhile_eq_all_conv)

lemma c_strchr_None: "c \<notin> set a \<Longrightarrow> c_strchr c a = None"
  using set_cstr [of a] by (simp add: c_strchr_def Let_def, subst takeWhile_eq_all_conv [THEN iffD2]) auto

lemma drop_header: "drop (length (show_nat n) + 3) (header_line c n @ u) = u"
  using append_eq_conv_conj [of "header_line c n" u "header_line c n @ u"] by (simp add: header_line_def eval_nat_numeral)

text \<open>A line with a count is there, or some of its bytes have not arrived.\<close>

lemma header_arrives [consumes 4, case_names line part]:
  assumes "u @ R = header_line c n @ T" and "c \<noteq> CR" and "c \<noteq> NUL" and "n < 2 ^ 63"
  obtains u' where "u = header_line c n @ u'" and "u' @ R = T" and "c_strchr CR u = Some (Suc (length (show_nat n)))"
  | "R \<noteq> []" and "length u \<le> 22" and "c_strchr CR u = None \<or> c_strchr CR u = Some (length u - 1) \<and> u \<noteq> []"
  using assms(1)
proof (cases rule: append_proper_prefix)
  case (1 q')
  then have "R \<noteq> []" "length u \<le> 22"
    using assms(1) length_header_line [OF assms(4), of c] by auto
  moreover have "c_strchr CR u = None \<or> c_strchr CR u = Some (length u - 1) \<and> u \<noteq> []"
  proof (cases "u = []")
    case False
    then obtain p' p'' where u: "u = c # p'" "p' @ p'' = show_nat n @ [CR]"
      using header_prefix [of u q' c n] 1 by metis
    show ?thesis
    proof (cases "p'' = []")
      case True
      then show ?thesis
        using u assms(2,3) c_strchr_append [of CR "c # show_nat n" "[]"] by simp
    next
      case False
      then obtain z where "p' @ z = show_nat n"
        using u(2) by (metis append_butlast_last_id append1_eq_conv append.assoc)
      then have "CR \<notin> set p'"
        by (metis UnI1 set_append show_nat_no_ctrl)
      then show ?thesis
        using u(1) assms(2) by (simp add: c_strchr_None)
    qed
  qed (simp add: c_strchr_None)
  ultimately show ?thesis
    using that(2) by blast
next
  case (2 u')
  then show ?thesis
    using that(1) [of u'] c_strchr_append [of CR "c # show_nat n" "LF # u'"] assms(2,3) by (simp add: header_line_def)
qed

lemma string2ll_show_nat [simp]: "n < 2 ^ 63 \<Longrightarrow> string2ll (show_nat n) = Some (int n)"
  by (simp add: string2ll_iff in_int64_def show_int_def)

definition awaited :: "nat option \<Rightarrow> string list \<Rightarrow> string" where
  "awaited bl rest = (case bl of None \<Rightarrow> concat (map bulk rest) | Some _ \<Rightarrow> hd rest @ CRLF @ concat (map bulk (tl rest)))"

definition bulk_known :: "nat option \<Rightarrow> string list \<Rightarrow> bool" where
  "bulk_known bl rest \<longleftrightarrow> (bl = None \<or> rest \<noteq> [] \<and> bl = Some (length (hd rest)))"

definition max_bulk :: nat where "max_bulk = nat proto_max_bulk_len"

lemma bulk_length_arg:
  assumes "unread cn @ R = awaited (bulklen cn) (a # rest) @ T" and "bulk_known (bulklen cn) (a # rest)"
    and "length a \<le> max_bulk"
  shows "bulk_length cn = Inl cn \<and> R \<noteq> [] \<and> bulklen cn = None \<and> length (unread cn) \<le> 22 \<or>
     (\<exists>buf p. bulk_length cn = Inr (length a, cn\<lparr>querybuf := buf, qb_pos := p, bulklen := Some (length a)\<rparr>) \<and>
              drop p buf @ R = a @ CRLF @ concat (map bulk rest) @ T)"
proof (cases "bulklen cn")
  case None
  have len: "length a < 2 ^ 63" "\<not> int (length a) > proto_max_bulk_len"
    using assms(3) by (auto simp: max_bulk_def proto_max_bulk_len_def)
  have "unread cn @ R = header_line (CHR ''$'') (length a) @ a @ CRLF @ concat (map bulk rest) @ T"
    using assms(1) None by (simp add: awaited_def bulk_def)
  moreover have "CHR ''$'' \<noteq> CR" "CHR ''$'' \<noteq> NUL"
    by simp_all
  ultimately show ?thesis
    using len(1)
  proof (cases rule: header_arrives)
    case (line u')
    define p where "p = qb_pos cn + Suc (length (show_nat (length a))) + 2"
    define big where "big \<longleftrightarrow> PROTO_MBULK_BIG_ARG \<le> length a \<and> length (drop p (querybuf cn)) \<le> length a + 2"
    have u': "drop p (querybuf cn) = u'"
      using arg_cong [OF line(1), of "drop (length (show_nat (length a)) + 3)"] unfolding drop_header drop_drop
      by (simp add: p_def ac_simps eval_nat_numeral)
    have "bulk_length cn = Inr (length a,
        if big then cn\<lparr>querybuf := drop p (querybuf cn), qb_pos := 0, bulklen := Some (length a)\<rparr>
        else cn\<lparr>querybuf := querybuf cn, qb_pos := p, bulklen := Some (length a)\<rparr>)"
      using line(1,3) len None unfolding bulk_length_def p_def big_def by (simp add: Let_def header_line_def)
    then show ?thesis
      using line(2) u'
      by (intro disjI2 exI [of _ "if big then drop p (querybuf cn) else querybuf cn"] exI [of _ "if big then 0 else p"])
        (simp split: if_split)
  next
    case part
    then show ?thesis
      using None by (auto simp: bulk_length_def PROTO_INLINE_MAX_SIZE_def)
  qed
next
  case (Some n)
  then show ?thesis
    using assms(1,2)
    by (intro disjI2 exI [of _ "querybuf cn"] exI [of _ "qb_pos cn"]) (auto simp: bulk_length_def bulk_known_def awaited_def)
qed

lemma take_bulk_arg:
  assumes "unread cn @ R = a @ CRLF @ T" and "length a + 2 \<le> length (unread cn)" and "cl_argv (cn_client cn) = map createStringObject dn"
  shows "\<exists>buf p. take_bulk (length a) cn = (set_argv (map createStringObject (dn @ [a])) cn)\<lparr>querybuf := buf, qb_pos := p, bulklen := None\<rparr> \<and>
           drop p buf @ R = T"
proof -
  have "take (length a + 2) (unread cn @ R) = a @ CRLF"
    using assms(1) by simp
  then have u: "unread cn = a @ CRLF @ drop (length a + 2) (unread cn)"
    using assms(2) append_take_drop_id [of "length a + 2" "unread cn"] by (simp del: append_take_drop_id)
  then have t: "drop (length a + 2) (unread cn) @ R = T" "take (length a) (unread cn) = a"
    using assms(1) by (metis append.assoc same_append_eq, metis append_eq_conv_conj)
  show ?thesis
  proof (cases "qb_pos cn = 0 \<and> length a \<ge> PROTO_MBULK_BIG_ARG \<and> length (querybuf cn) = length a + 2")
    case True
    then show ?thesis
      using t assms(3)
      by (intro exI [of _ "[]"] exI [of _ 0])
        (auto simp: take_bulk_def Let_def createStringObject_def createRawStringObject_def PROTO_MBULK_BIG_ARG_def set_argv_def)
  next
    case False
    then show ?thesis
      using t assms(3)
      by (intro exI [of _ "querybuf cn"] exI [of _ "qb_pos cn + length a + 2"])
        (auto simp: take_bulk_def Let_def set_argv_def ac_simps)
  qed
qed

text \<open>The state within a request: \<open>dn\<close> are the arguments read, \<open>rest\<close> the others, \<open>T\<close> what follows the request.\<close>

lemma multibulk_loop_args:
  assumes "unread cn @ R = awaited (bulklen cn) rest @ T" and "bulk_known (bulklen cn) rest"
    and "\<forall>a \<in> set rest. length a \<le> max_bulk" and "cl_argv (cn_client cn) = map createStringObject dn"
  shows "(\<exists>buf p. multibulk_loop (length rest) cn =
              (C_OK, (set_argv (map createStringObject (dn @ rest)) cn)
                       \<lparr>querybuf := buf, qb_pos := p, bulklen := None, multibulklen := 0\<rparr>) \<and> drop p buf @ R = T) \<or>
         (\<exists>buf p bl dn' rest'. multibulk_loop (length rest) cn =
              (C_ERR, (set_argv (map createStringObject dn') cn)
                        \<lparr>querybuf := buf, qb_pos := p, bulklen := bl, multibulklen := length rest'\<rparr>) \<and>
            dn' @ rest' = dn @ rest \<and> rest' \<noteq> [] \<and> bulk_known bl rest' \<and> drop p buf @ R = awaited bl rest' @ T \<and>
            R \<noteq> [] \<and> length (drop p buf) < max_bulk + 2)"
    (is "(\<exists>buf p. ?done rest dn cn buf p) \<or> (\<exists>buf p bl dn' rest'. ?wait rest dn cn buf p bl dn' rest')")
  using assms
proof (induction rest arbitrary: dn cn)
  case Nil
  then have "?done [] dn cn (querybuf cn) (qb_pos cn)"
    by (auto simp: bulk_known_def awaited_def set_argv_def)
  then show ?case by blast
next
  case (Cons a rest)
  have a: "length a \<le> max_bulk"
    using Cons.prems(3) by simp
  note known = bulk_length_arg [OF Cons.prems(1,2) a]
  show ?case
  proof (cases "bulk_length cn")
    case (Inl cn')
    then have "?wait (a # rest) dn cn (querybuf cn) (qb_pos cn) None dn (a # rest)"
      using known Cons.prems(1,2,4) by (auto simp: set_argv_def max_bulk_def proto_max_bulk_len_def)
    then show ?thesis by blast
  next
    case (Inr lc)
    then obtain buf p where 1: "bulk_length cn = Inr (length a, cn\<lparr>querybuf := buf, qb_pos := p, bulklen := Some (length a)\<rparr>)"
        "drop p buf @ R = a @ CRLF @ concat (map bulk rest) @ T"
      using known by auto
    let ?cn = "cn\<lparr>querybuf := buf, qb_pos := p, bulklen := Some (length a)\<rparr>"
    show ?thesis
    proof (cases "length (drop p buf) < length a + 2")
      case True
      have "R \<noteq> []"
        using arg_cong [OF 1(2), of length] True by auto
      then have "?wait (a # rest) dn cn buf p (Some (length a)) dn (a # rest)"
        using 1 True a Cons.prems(4) by (auto simp: set_argv_def bulk_known_def awaited_def)
      then show ?thesis by blast
    next
      case False
      then obtain buf' p' where 2: "take_bulk (length a) ?cn =
            (set_argv (map createStringObject (dn @ [a])) ?cn)\<lparr>querybuf := buf', qb_pos := p', bulklen := None\<rparr>"
          "drop p' buf' @ R = concat (map bulk rest) @ T"
        using take_bulk_arg [of ?cn R a "concat (map bulk rest) @ T" dn] 1(2) Cons.prems(4) by auto
      let ?cn' = "(set_argv (map createStringObject (dn @ [a])) ?cn)\<lparr>querybuf := buf', qb_pos := p', bulklen := None\<rparr>"
      have loop: "multibulk_loop (length (a # rest)) cn = multibulk_loop (length rest) ?cn'"
        using 1(1) 2(1) False by simp
      have "(\<exists>buf p. ?done rest (dn @ [a]) ?cn' buf p) \<or> (\<exists>buf p bl dn' rest'. ?wait rest (dn @ [a]) ?cn' buf p bl dn' rest')"
        using 2(2) Cons.prems(3) by (intro Cons.IH) (auto simp: bulk_known_def awaited_def set_argv_def)
      then show ?thesis
        unfolding loop by (simp add: set_argv_def)
    qed
  qed
qed

text \<open>The bytes of requests, and the limits of the protocol.\<close>

definition wire :: "string list list \<Rightarrow> string" where
  "wire reqs = concat (map aof_record reqs)"

definition sized_request :: "string list \<Rightarrow> bool" where
  "sized_request ss \<longleftrightarrow> ss \<noteq> [] \<and> length ss \<le> 1024 * 1024 \<and> (\<forall>a \<in> set ss. length a \<le> max_bulk)"

text \<open>What a connection still has to receive: the bytes in its buffer and the bytes \<open>R\<close> under way are the rest
  of the requests \<open>reqs\<close>, of the first of which some arguments may have been read.\<close>

definition idle :: "conn \<Rightarrow> bool" where
  "idle cn \<longleftrightarrow> reqtype cn \<noteq> REQ_INLINE \<and> multibulklen cn = 0 \<and> bulklen cn = None \<and> cl_argv (cn_client cn) = []"

definition in_request :: "conn \<Rightarrow> string list \<Rightarrow> string list \<Rightarrow> bool" where
  "in_request cn dn rest \<longleftrightarrow> reqtype cn = REQ_MULTIBULK \<and> multibulklen cn = length rest \<and> rest \<noteq> [] \<and>
     bulk_known (bulklen cn) rest \<and> cl_argv (cn_client cn) = map createStringObject dn"

definition awaiting :: "conn \<Rightarrow> string \<Rightarrow> string list list \<Rightarrow> bool" where
  "awaiting cn R reqs \<longleftrightarrow> \<not> close_after_reply cn \<and> \<not> freed cn \<and>
     (idle cn \<and> unread cn @ R = wire reqs \<or>
      (\<exists>dn rest reqs'. in_request cn dn rest \<and> reqs = (dn @ rest) # reqs' \<and>
         unread cn @ R = awaited (bulklen cn) rest @ wire reqs'))"

abbreviation without_args :: "conn \<Rightarrow> client" where
  "without_args cn \<equiv> (cn_client cn)\<lparr>cl_argv := []\<rparr>"

definition request_parsed :: "string list \<Rightarrow> conn \<Rightarrow> conn \<Rightarrow> bool" where
  "request_parsed ss cn cn' \<longleftrightarrow> cn_client cn' = (cn_client cn)\<lparr>cl_argv := map createStringObject ss\<rparr> \<and>
     multibulklen cn' = 0 \<and> bulklen cn' = None \<and> \<not> close_after_reply cn' \<and> \<not> freed cn'"

definition request_pending :: "string \<Rightarrow> string list list \<Rightarrow> conn \<Rightarrow> conn \<Rightarrow> bool" where
  "request_pending R reqs cn cn' \<longleftrightarrow> awaiting cn' R reqs \<and> without_args cn' = without_args cn \<and>
     R \<noteq> [] \<and> length (unread cn') < max_bulk + 2"

lemma multibulk_loop_request:
  assumes "in_request cn dn rest" and "unread cn @ R = awaited (bulklen cn) rest @ wire reqs"
    and "\<forall>a \<in> set rest. length a \<le> max_bulk" and "\<not> close_after_reply cn" and "\<not> freed cn"
  shows "\<exists>res cn'. multibulk_loop (multibulklen cn) cn = (res, cn') \<and>
           (res = C_OK \<and> request_parsed (dn @ rest) cn cn' \<and> unread cn' @ R = wire reqs \<or>
            res = C_ERR \<and> request_pending R ((dn @ rest) # reqs) cn cn')"
proof -
  have m: "multibulklen cn = length rest" "reqtype cn = REQ_MULTIBULK" "bulk_known (bulklen cn) rest"
      "cl_argv (cn_client cn) = map createStringObject dn"
    using assms(1) by (auto simp: in_request_def)
  consider (all) buf p where "multibulk_loop (length rest) cn =
      (C_OK, (set_argv (map createStringObject (dn @ rest)) cn)\<lparr>querybuf := buf, qb_pos := p, bulklen := None, multibulklen := 0\<rparr>)"
      "drop p buf @ R = wire reqs"
    | (some) buf p bl dn' rest' where "multibulk_loop (length rest) cn =
      (C_ERR, (set_argv (map createStringObject dn') cn)\<lparr>querybuf := buf, qb_pos := p, bulklen := bl, multibulklen := length rest'\<rparr>)"
      "dn' @ rest' = dn @ rest" "rest' \<noteq> []" "bulk_known bl rest'" "drop p buf @ R = awaited bl rest' @ wire reqs" "R \<noteq> []"
      "length (drop p buf) < max_bulk + 2"
    using multibulk_loop_args [OF assms(2) m(3) assms(3) m(4)] by blast
  then show ?thesis
  proof cases
    case all
    then show ?thesis
      using assms(4,5) m(1) by (auto simp: request_parsed_def set_argv_def)
  next
    case some
    let ?cn = "(set_argv (map createStringObject dn') cn)\<lparr>querybuf := buf, qb_pos := p, bulklen := bl, multibulklen := length rest'\<rparr>"
    have "in_request ?cn dn' rest'" "unread ?cn @ R = awaited (bulklen ?cn) rest' @ wire reqs"
      using some m by (auto simp: in_request_def set_argv_def)
    then have "awaiting ?cn R ((dn @ rest) # reqs)"
      unfolding awaiting_def some(2) [symmetric] using assms(4,5) by (auto simp: set_argv_def)
    then have "request_pending R ((dn @ rest) # reqs) cn ?cn"
      using some by (simp add: request_pending_def set_argv_def)
    then show ?thesis
      using some(1) m(1) by auto
  qed
qed

lemma wire_simps [simp]: "wire [] = []" "wire (ss # reqs) = header_line (CHR ''*'') (length ss) @ concat (map bulk ss) @ wire reqs"
  by (simp_all add: wire_def aof_record_def)

lemma parse_request_step:
  assumes "awaiting cn R reqs" and "\<forall>ss \<in> set reqs. sized_request ss" and "unread cn \<noteq> []"
  shows "\<exists>res cn'. parse_request cn = Some (res, cn') \<and>
           (res = C_OK \<and> (\<exists>ss reqs'. reqs = ss # reqs' \<and> request_parsed ss cn cn' \<and> unread cn' @ R = wire reqs') \<or>
            res = C_ERR \<and> request_pending R reqs cn cn')"
proof -
  have open_conn: "\<not> close_after_reply cn" "\<not> freed cn"
    using assms(1) by (auto simp: awaiting_def)
  consider (idle) "idle cn" "unread cn @ R = wire reqs"
    | (args) dn rest reqs' where "in_request cn dn rest" "reqs = (dn @ rest) # reqs'"
      "unread cn @ R = awaited (bulklen cn) rest @ wire reqs'"
    using assms(1) by (auto simp: awaiting_def)
  then show ?thesis
  proof cases
    case args
    have "parse_request cn = Some (multibulk_loop (multibulklen cn) cn)"
      using args(1) by (simp add: parse_request_def in_request_def processMultibulkBuffer_def)
    moreover have "\<forall>a \<in> set rest. length a \<le> max_bulk"
      using assms(2) args(2) by (simp add: sized_request_def)
    ultimately show ?thesis
      using multibulk_loop_request [OF args(1,3) _ open_conn] args(2) by fastforce
  next
    case idle
    obtain ss reqs' where reqs: "reqs = ss # reqs'"
      using idle(2) assms(3) by (cases reqs) auto
    have ss: "length ss < 2 ^ 63" "int (length ss) \<le> 1024 * 1024" "ss \<noteq> []" "\<forall>a \<in> set ss. length a \<le> max_bulk"
      using assms(2) reqs by (auto simp: sized_request_def)
    let ?cn = "cn\<lparr>reqtype := REQ_MULTIBULK\<rparr>"
    have hd: "hd (unread cn) = CHR ''*''"
      using arg_cong [OF idle(2), of hd] assms(3) reqs by (simp add: header_line_def hd_append)
    have parse: "parse_request cn = processMultibulkBuffer ?cn"
      using idle(1) hd by (cases cn; cases "reqtype cn") (auto simp: parse_request_def idle_def)
    have u: "unread cn @ R = header_line (CHR ''*'') (length ss) @ concat (map bulk ss) @ wire reqs'"
      using idle(2) reqs by simp
    moreover have "CHR ''*'' \<noteq> CR" "CHR ''*'' \<noteq> NUL"
      by simp_all
    ultimately show ?thesis
      using ss(1)
    proof (cases rule: header_arrives)
      case (line u')
      define p where "p = qb_pos cn + Suc (length (show_nat (length ss))) + 2"
      let ?cn' = "?cn\<lparr>qb_pos := p, multibulklen := length ss\<rparr>"
      have u': "drop p (querybuf cn) = u'"
        using arg_cong [OF line(1), of "drop (length (show_nat (length ss)) + 3)"] unfolding drop_header drop_drop
        by (simp add: p_def ac_simps eval_nat_numeral)
      have "multibulk_header ?cn = Some (Inr ?cn')"
        using line(1,3) ss idle(1) hd unfolding multibulk_header_def p_def by (simp add: Let_def header_line_def idle_def)
      then have "parse_request cn = Some (multibulk_loop (multibulklen ?cn') ?cn')"
        using idle(1) parse by (simp add: processMultibulkBuffer_def idle_def)
      moreover have "in_request ?cn' [] ss" "unread ?cn' @ R = awaited (bulklen ?cn') ss @ wire reqs'"
        using idle(1) ss(3) line(2) u' by (simp_all add: in_request_def idle_def bulk_known_def awaited_def)
      ultimately show ?thesis
        using multibulk_loop_request [of ?cn' "[]" ss R reqs'] ss(4) open_conn reqs
        by (fastforce simp: request_parsed_def request_pending_def)
    next
      case part
      have "multibulk_header ?cn = Some (Inl (C_ERR, ?cn))"
        using part idle(1) by (auto simp: multibulk_header_def idle_def PROTO_INLINE_MAX_SIZE_def)
      then have "parse_request cn = Some (C_ERR, ?cn)"
        using idle(1) parse by (simp add: processMultibulkBuffer_def idle_def)
      moreover have "request_pending R reqs cn ?cn"
        using idle part open_conn by (auto simp: request_pending_def awaiting_def idle_def max_bulk_def proto_max_bulk_len_def)
      ultimately show ?thesis by auto
    qed
  qed
qed

section \<open>The requests are executed\<close>

text \<open>The requests one after the other; the first component tells whether one of them closes the connection.\<close>

fun run_requests :: "('db, 'c) env \<Rightarrow> int \<times> int \<times> int \<Rightarrow> string list list \<Rightarrow> client \<Rightarrow> 'db ir_server \<Rightarrow> (bool \<times> client \<times> 'db ir_server) option" where
  "run_requests E tm [] c s = Some (False, c, s)"
| "run_requests E tm (ss # reqs) c s =
     (case processCommand E tm (c\<lparr>cl_argv := map createStringObject ss\<rparr>) s of
        None \<Rightarrow> None
      | Some (C_OK, c, s) \<Rightarrow> run_requests E tm reqs (c\<lparr>cl_argv := []\<rparr>) s
      | Some (C_ERR, c, s) \<Rightarrow> Some (True, c, s))"

definition caught_up :: "conn \<Rightarrow> string \<Rightarrow> string list list \<Rightarrow> bool" where
  "caught_up cn R reqs \<longleftrightarrow> awaiting cn R reqs \<and> length (unread cn) < max_bulk + 2 \<and> (R = [] \<longrightarrow> reqs = [])"

lemma awaiting_Nil:
  assumes "awaiting cn [] reqs" and "unread cn = []"
  shows "reqs = []"
proof -
  have "awaited bl rest \<noteq> []" if "rest \<noteq> []" for bl rest
    using that by (cases rest) (auto simp: awaited_def bulk_def split: option.splits)
  then show ?thesis
    using assms by (cases reqs) (auto simp: awaiting_def in_request_def)
qed

lemma awaiting_reset: "\<not> close_after_reply cn \<Longrightarrow> \<not> freed cn \<Longrightarrow> unread cn @ R = wire reqs \<Longrightarrow> awaiting (resetClient cn) R reqs"
  by (simp add: awaiting_def resetClient_def idle_def set_argv_def)

text \<open>The loop executes the requests \<open>dn\<close> and waits for the requests \<open>left\<close>.\<close>

definition loop_runs :: "('db, 'c) env \<Rightarrow> int \<times> int \<times> int \<Rightarrow> conn \<Rightarrow> 'db ir_server \<Rightarrow> string \<Rightarrow> string list list \<Rightarrow> string list list \<Rightarrow> bool" where
  "loop_runs E tm cn s R dn left \<longleftrightarrow>
     (case run_requests E tm dn (without_args cn) s of
        None \<Rightarrow> input_loop E tm cn s = None
      | Some (closed, c, s') \<Rightarrow>
          \<exists>cn'. input_loop E tm cn s = Some (cn', s') \<and> close_after_reply cn' = closed \<and> \<not> freed cn' \<and>
                (if closed then cn_client cn' = c else without_args cn' = c \<and> caught_up cn' R left))"

lemma loop_waits:
  assumes "awaiting cn R reqs" and "unread cn = [] \<or> parse_request cn = Some (C_ERR, cn') \<and> request_pending R reqs cn cn'"
  shows "loop_runs E tm cn s R [] reqs"
proof (cases "unread cn = []")
  case True
  then have "input_loop E tm cn s = Some (cn, s)"
    by (subst input_loop.simps) simp
  moreover have "caught_up cn R reqs"
    using assms(1) True awaiting_Nil [of cn reqs] by (auto simp: caught_up_def)
  ultimately show ?thesis
    by (simp add: loop_runs_def caught_up_def awaiting_def)
next
  case False
  then have "input_loop E tm cn s = Some (cn', s)"
    using assms by (subst input_loop.simps) (simp add: awaiting_def)
  then show ?thesis
    using assms(2) False by (auto simp: loop_runs_def request_pending_def caught_up_def awaiting_def)
qed

lemma loop_executes:
  assumes parse: "parse_request cn = Some (C_OK, cn1)" "request_parsed ss cn cn1" "unread cn1 @ R = wire reqs"
    and cn: "unread cn \<noteq> []" "\<not> close_after_reply cn" and ss: "ss \<noteq> []"
    and rest: "\<And>cn s. awaiting cn R reqs \<Longrightarrow> \<exists>dn left. reqs = dn @ left \<and> loop_runs E tm cn s R dn left"
  shows "\<exists>dn left. ss # reqs = dn @ left \<and> loop_runs E tm cn s R dn left"
proof -
  have argv: "cn_client cn1 = (without_args cn)\<lparr>cl_argv := map createStringObject ss\<rparr>" "cl_argv (cn_client cn1) \<noteq> []"
    using parse(2) ss by (auto simp: request_parsed_def)
  have loop: "input_loop E tm cn s =
      (case processCommand E tm (cn_client cn1) s of
         None \<Rightarrow> None
       | Some (C_OK, c, s) \<Rightarrow> input_loop E tm (resetClient (cn1\<lparr>cn_client := c\<rparr>)) s
       | Some (C_ERR, c, s) \<Rightarrow> input_loop E tm (cn1\<lparr>cn_client := c, close_after_reply := True\<rparr>) s)"
    using cn parse(1) argv(2) by (subst input_loop.simps) simp
  consider (stuck) "processCommand E tm (cn_client cn1) s = None"
    | (closes) c s1 where "processCommand E tm (cn_client cn1) s = Some (C_ERR, c, s1)"
    | (runs) c s1 where "processCommand E tm (cn_client cn1) s = Some (C_OK, c, s1)"
    by (cases "processCommand E tm (cn_client cn1) s") (auto, metis c_result.exhaust)
  then show ?thesis
  proof cases
    case stuck
    then have "loop_runs E tm cn s R (ss # reqs) []"
      using loop argv(1) by (simp add: loop_runs_def)
    then show ?thesis
      by (metis append_Nil2)
  next
    case closes
    moreover have "input_loop E tm (cn1\<lparr>cn_client := c, close_after_reply := True\<rparr>) s1 =
        Some (cn1\<lparr>cn_client := c, close_after_reply := True\<rparr>, s1)"
      by (subst input_loop.simps) simp
    ultimately have "loop_runs E tm cn s R (ss # reqs) []"
      using loop argv(1) parse(2) by (simp add: request_parsed_def loop_runs_def)
    then show ?thesis
      by (metis append_Nil2)
  next
    case runs
    let ?cn = "resetClient (cn1\<lparr>cn_client := c\<rparr>)"
    have "awaiting ?cn R reqs"
      using parse(2,3) by (intro awaiting_reset) (auto simp: request_parsed_def)
    then obtain dn left where left: "reqs = dn @ left" "loop_runs E tm ?cn s1 R dn left"
      using rest by blast
    have "input_loop E tm cn s = input_loop E tm ?cn s1"
      "run_requests E tm (ss # dn) (without_args cn) s = run_requests E tm dn (without_args ?cn) s1"
      using loop runs argv(1) by (simp_all add: resetClient_def set_argv_def)
    then have "loop_runs E tm cn s R (ss # dn) left"
      using left(2) by (simp only: loop_runs_def)
    then show ?thesis
      using left(1) by (intro exI [of _ "ss # dn"] exI [of _ left]) simp
  qed
qed

lemma input_loop_requests:
  assumes "awaiting cn R reqs" and "\<forall>ss \<in> set reqs. sized_request ss"
  shows "\<exists>dn left. reqs = dn @ left \<and> loop_runs E tm cn s R dn left"
  using assms
proof (induction reqs arbitrary: cn s rule: length_induct)
  case (1 reqs)
  show ?case
  proof (cases "unread cn = []")
    case True
    then show ?thesis
      using loop_waits [OF "1.prems"(1)] by (intro exI [of _ "[]"] exI [of _ reqs]) simp
  next
    case False
    then obtain res cn1 where parse: "parse_request cn = Some (res, cn1)"
        "res = C_OK \<and> (\<exists>ss reqs'. reqs = ss # reqs' \<and> request_parsed ss cn cn1 \<and> unread cn1 @ R = wire reqs') \<or>
         res = C_ERR \<and> request_pending R reqs cn cn1"
      using parse_request_step [OF "1.prems"] by blast
    from parse(2) show ?thesis
    proof (elim disjE conjE exE)
      fix ss reqs'
      assume ok: "res = C_OK" "reqs = ss # reqs'" "request_parsed ss cn cn1" "unread cn1 @ R = wire reqs'"
      have "\<exists>dn left. reqs' = dn @ left \<and> loop_runs E tm cn s R dn left" if "awaiting cn R reqs'" for cn s
        using "1.IH" [rule_format, of reqs' cn s] that "1.prems"(2) ok(2) by simp
      moreover have "ss \<noteq> []" "\<not> close_after_reply cn"
        using "1.prems" ok(2) by (auto simp: sized_request_def awaiting_def)
      ultimately show ?thesis
        using loop_executes [of cn cn1 ss R reqs' E tm s] parse(1) ok False by simp
    next
      assume "res = C_ERR" "request_pending R reqs cn cn1"
      then show ?thesis
        using loop_waits [OF "1.prems"(1), of cn1] parse(1) by (intro exI [of _ "[]"] exI [of _ reqs]) simp
    qed
  qed
qed

lemma readlen_bounds: "0 < readlen cn" "readlen cn \<le> PROTO_IOBUF_LEN"
  by (auto simp: readlen_def PROTO_IOBUF_LEN_def Let_def split: option.split)

lemma awaiting_append:
  assumes "awaiting cn (b @ R) reqs" and "qb_pos cn = 0"
  shows "awaiting (cn\<lparr>querybuf := querybuf cn @ b\<rparr>) R reqs"
  using assms unfolding awaiting_def idle_def in_request_def by simp

lemma run_requests_append:
  "run_requests E tm (a @ b) c s =
     (case run_requests E tm a c s of
        None \<Rightarrow> None
      | Some (closed, c, s) \<Rightarrow> if closed then Some (True, c, s) else run_requests E tm b c s)"
  by (induction a arbitrary: c s) (auto split: option.split c_result.split)

lemma read_requests:
  assumes "caught_up cn (b @ R) reqs" and "qb_pos cn = 0" and "\<forall>ss \<in> set reqs. sized_request ss"
    and "b \<noteq> []" and "length b \<le> PROTO_IOBUF_LEN"
  obtains (stuck) dn left where "reqs = dn @ left" "run_requests E tm dn (without_args cn) s = None"
      "readQueryFromClient E tm (Read_bytes b) cn s = None"
  | (closes) dn left cn' s' where "reqs = dn @ left" "run_requests E tm dn (without_args cn) s = Some (True, cn_client cn', s')"
      "readQueryFromClient E tm (Read_bytes b) cn s = Some (cn', s')" "close_after_reply cn'" "\<not> freed cn'"
  | (reads) dn left cn' s' where "reqs = dn @ left" "run_requests E tm dn (without_args cn) s = Some (False, without_args cn', s')"
      "readQueryFromClient E tm (Read_bytes b) cn s = Some (cn', s')" "caught_up cn' R left" "qb_pos cn' = 0"
proof -
  let ?cn = "cn\<lparr>querybuf := querybuf cn @ b\<rparr>"
  have "length (querybuf ?cn) \<le> PROTO_MAX_QUERYBUF_LEN"
    using assms(1,2,5)
    by (simp add: caught_up_def PROTO_MAX_QUERYBUF_LEN_def PROTO_IOBUF_LEN_def max_bulk_def proto_max_bulk_len_def)
  then have rd: "readQueryFromClient E tm (Read_bytes b) cn s = processInputBuffer E tm ?cn s"
    using assms(4) by (simp add: readQueryFromClient_def)
  have "awaiting ?cn R reqs"
    using assms(1,2) by (intro awaiting_append) (simp_all add: caught_up_def)
  then obtain dn left where dn: "reqs = dn @ left" "loop_runs E tm ?cn s R dn left"
    using input_loop_requests [OF _ assms(3), of ?cn R E tm s] by auto
  consider (none) "run_requests E tm dn (without_args cn) s = None" "input_loop E tm ?cn s = None"
    | (closed) cn' s' where "run_requests E tm dn (without_args cn) s = Some (True, cn_client cn', s')"
        "input_loop E tm ?cn s = Some (cn', s')" "close_after_reply cn'" "\<not> freed cn'"
    | (some) cn' s' where "run_requests E tm dn (without_args cn) s = Some (False, without_args cn', s')"
        "input_loop E tm ?cn s = Some (cn', s')" "caught_up cn' R left"
    using dn(2) by (auto simp: loop_runs_def split: option.splits if_splits)
  then show ?thesis
  proof cases
    case none
    then show ?thesis
      using stuck [OF dn(1)] rd by (simp add: processInputBuffer_def)
  next
    case closed
    then show ?thesis
      using closes [OF dn(1), of "cn'\<lparr>querybuf := unread cn', qb_pos := 0\<rparr>" s'] rd by (simp add: processInputBuffer_def)
  next
    case some
    then show ?thesis
      using reads [OF dn(1), of "cn'\<lparr>querybuf := unread cn', qb_pos := 0\<rparr>" s'] rd
      by (simp add: processInputBuffer_def caught_up_def awaiting_def idle_def in_request_def)
  qed
qed

lemma caught_up_all:
  assumes "caught_up cn [] reqs" and "qb_pos cn = 0"
  shows "reqs = []" "without_args cn = cn_client cn" "\<not> close_after_reply cn" "\<not> freed cn" "querybuf cn = []"
proof -
  show "reqs = []"
    using assms(1) by (simp add: caught_up_def)
  then have "idle cn" "querybuf cn = []" "\<not> close_after_reply cn" "\<not> freed cn"
    using assms by (auto simp: caught_up_def awaiting_def)
  then show "without_args cn = cn_client cn" "\<not> close_after_reply cn" "\<not> freed cn" "querybuf cn = []"
    by (simp_all add: idle_def)
qed

lemma serve_socket_requests:
  assumes "caught_up cn sock reqs" and "qb_pos cn = 0" and "\<forall>ss \<in> set reqs. sized_request ss"
    and "length sock \<le> length (filter (\<lambda>n. 0 < n) ns)"
  shows "map_option (\<lambda>(cn, s). (close_after_reply cn, freed cn, querybuf cn = [] \<or> close_after_reply cn, cn_client cn, s))
           (serve_socket E tm ns cn sock s) =
         map_option (\<lambda>(closed, c, s). (closed, False, True, c, s)) (run_requests E tm reqs (without_args cn) s)"
    (is "?sent ns cn sock s = ?ran reqs cn s")
  using assms
proof (induction ns arbitrary: cn sock reqs s)
  case Nil
  then show ?case
    using caught_up_all [of cn reqs] by simp
next
  case (Cons n ns)
  have open_conn: "\<not> close_after_reply cn" "\<not> freed cn"
    using Cons.prems(1) by (auto simp: caught_up_def awaiting_def)
  show ?case
  proof (cases "sock = [] \<or> n = 0")
    case True
    then show ?thesis
      using caught_up_all [of cn reqs] Cons open_conn by (auto simp: readQueryFromClient_def)
  next
    case False
    define m where "m = min n (readlen cn)"
    have m: "0 < m" "take m sock \<noteq> []" "length (take m sock) \<le> PROTO_IOBUF_LEN"
      using False readlen_bounds [of cn] by (auto simp: m_def)
    have step: "serve_socket E tm (n # ns) cn sock s =
        (case readQueryFromClient E tm (Read_bytes (take m sock)) cn s of
           None \<Rightarrow> None | Some (cn, s) \<Rightarrow> serve_socket E tm ns cn (drop m sock) s)"
      using False open_conn unfolding m_def by (simp add: Let_def)
    have "caught_up cn (take m sock @ drop m sock) reqs"
      using Cons.prems(1) by simp
    then show ?thesis
      using Cons.prems(2,3) m(2,3)
    proof (cases rule: read_requests [where E = E and tm = tm and s = s])
      case (stuck dn left)
      then show ?thesis
        using step by (simp add: run_requests_append)
    next
      case (closes dn left cn' s')
      moreover have "serve_socket E tm ns cn' (drop m sock) s' = Some (cn', s')"
        using closes(4) by (cases ns) simp_all
      ultimately show ?thesis
        using step by (simp add: run_requests_append)
    next
      case (reads dn left cn' s')
      have "?sent ns cn' (drop m sock) s' = ?ran left cn' s'"
        using reads Cons.prems(3,4) m(1) False by (intro Cons.IH) auto
      then show ?thesis
        using step reads(1-3) by (simp add: run_requests_append)
    qed
  qed
qed

lemma createClient_caught_up:
  "caught_up (createClient c) (wire reqs) reqs" "qb_pos (createClient c) = 0" "without_args (createClient c) = c\<lparr>cl_argv := []\<rparr>"
  by (cases reqs; simp add: caught_up_def awaiting_def createClient_def idle_def max_bulk_def)+

lemmas socket_run = serve_socket_requests [OF createClient_caught_up(1,2), unfolded createClient_caught_up(3)]

section \<open>From the bytes of a client to the log\<close>

text \<open>The words of a request of the key-value server.\<close>

definition words :: "string list \<Rightarrow> request \<Rightarrow> bool" where
  "words ss req \<longleftrightarrow> map c_tolower (hd ss) = req_name req \<and> tl ss = req_args req \<and> ss \<noteq> [] \<and>
     (\<forall>a \<in> set (req_args req). small a \<and> clean a) \<and> length (req_key req) < 50"

lemma words_sends:
  assumes "words ss req" and "\<not> cl_fake c"
  shows "sends (c\<lparr>cl_argv := map createStringObject ss\<rparr>) (hd ss) req" "\<forall>a \<in> set (req_args req). clean a"
proof -
  have "req_key req \<in> set (req_args req)"
    by (cases req) simp_all
  moreover have "hd ss # req_args req = ss"
    using assms(1) by (cases ss) (auto simp: words_def)
  moreover have "list_all2 (\<lambda>x s. wf_robj x \<and> obj_ptr x = Some s) (map createStringObject ss) ss"
    by (simp add: list_all2_map1 list.rel_refl)
  ultimately show "sends (c\<lparr>cl_argv := map createStringObject ss\<rparr>) (hd ss) req"
    using assms cleanD [of "req_key req"] by (simp add: sends_def has_args_def words_def)
  show "\<forall>a \<in> set (req_args req). clean a"
    using assms(1) by (simp add: words_def)
qed

lemma words_sized:
  assumes "words ss req"
  shows "sized_request ss"
proof -
  have ss: "ss = hd ss # req_args req" "map c_tolower (hd ss) = req_name req"
    using assms by (cases ss; simp add: words_def)+
  have "length (hd ss) \<le> 4" "length (req_args req) \<le> 2"
    using arg_cong [OF ss(2), of length] by (cases req; simp)+
  moreover have "\<forall>a \<in> set (req_args req). length a \<le> max_bulk"
    using assms by (simp add: words_def max_bulk_def proto_max_bulk_len_def)
  ultimately show ?thesis
    by (subst ss(1)) (auto simp: sized_request_def max_bulk_def proto_max_bulk_len_def)
qed

lemma run_requests_log:
  assumes "list_all2 words sent reqs" and "normal s" and "db_dict (sv_redis s) = map_option encoded \<circ> kv"
    and "counts32 reqs (db_dict (sv_redis s))" and "\<not> cl_fake c"
  shows "\<exists>c' s' lg. run_requests E tm sent c s = Some (False, c', s') \<and>
           cl_reply c' = cl_reply c @ fst (serve reqs (db_dict (sv_redis s))) \<and>
           db_dict (sv_redis s') = snd (serve reqs (db_dict (sv_redis s))) \<and> normal s' \<and>
           sv_aof_buf (sv_redis s') = sv_aof_buf (sv_redis s) @ concat (map aof_record lg) \<and>
           db_dict (sv_redis s') = map_option encoded \<circ> fold kv_step lg kv"
  using assms
proof (induction sent reqs arbitrary: s kv c rule: list_all2_induct)
  case Nil
  then show ?case by (intro exI [of _ c] exI [of _ s] exI [of _ "[]"]) simp
next
  case (Cons ss sent req reqs)
  let ?d = "db_dict (sv_redis s)"
  let ?c = "c\<lparr>cl_argv := map createStringObject ss\<rparr>"
  obtain c1 s1 lga where a: "processCommand E tm ?c s = Some (C_OK, c1, s1)" "cl_reply c1 = cl_reply c @ [fst (req_effect req ?d)]"
      "\<not> cl_fake c1" "db_dict (sv_redis s1) = snd (req_effect req ?d)" "normal s1"
      "sv_aof_buf (sv_redis s1) = sv_aof_buf (sv_redis s) @ concat (map aof_record lga)"
      "fold record_effect lga ?d = db_dict (sv_redis s1)" "comparable lga kv"
    using normal_sends [OF Cons.prems(1) words_sends [OF Cons.hyps(1) Cons.prems(4)] Cons.prems(2), of E tm] Cons.prems(3,4) by auto
  have kva: "db_dict (sv_redis s1) = map_option encoded \<circ> fold kv_step lga kv"
    using log_effect_kv [OF a(8)] a(7) unfolding Cons.prems(2) by (simp only:)
  define c2 where "c2 = c1\<lparr>cl_argv := []\<rparr>"
  have c2: "cl_reply c2 = cl_reply c1" "counts32 reqs (db_dict (sv_redis s1))" "\<not> cl_fake c2"
    using Cons.prems(3) a(3,4) by (simp_all add: c2_def)
  obtain c' s' lgb where b:
      "run_requests E tm sent c2 s1 = Some (False, c', s')"
      "cl_reply c' = cl_reply c1 @ fst (serve reqs (db_dict (sv_redis s1)))"
      "db_dict (sv_redis s') = snd (serve reqs (db_dict (sv_redis s1)))" "normal s'"
      "sv_aof_buf (sv_redis s') = sv_aof_buf (sv_redis s1) @ concat (map aof_record lgb)"
      "db_dict (sv_redis s') = map_option encoded \<circ> fold kv_step lgb (fold kv_step lga kv)"
    using Cons.IH [OF a(5) kva c2(2,3)] unfolding c2(1) by blast
  have "run_requests E tm (ss # sent) c s = Some (False, c', s')"
    using a(1) b(1) by (simp add: c2_def)
  moreover have "cl_reply c' = cl_reply c @ fst (serve (req # reqs) ?d)" "db_dict (sv_redis s') = snd (serve (req # reqs) ?d)"
    using a(2,4) b(2,3) by (simp_all add: case_prod_unfold Let_def)
  moreover have "sv_aof_buf (sv_redis s') = sv_aof_buf (sv_redis s) @ concat (map aof_record (lga @ lgb))"
      "db_dict (sv_redis s') = map_option encoded \<circ> fold kv_step (lga @ lgb) kv"
    using a(6) b(5,6) by simp_all
  ultimately show ?case
    using b(4) by blast
qed

text \<open>(C8) The bytes of any sequence of requests within the limits of the protocol, cut into reads in any way and
  with any spurious wake-ups in between, are executed as exactly these requests in their order, up to the
  first that closes the connection: the replies and the server are those of the requests one after the
  other, the connection is never freed, and nothing is left in its buffer.\<close>

theorem requests_executed:
  assumes "\<forall>ss \<in> set reqs. sized_request ss" and "length (wire reqs) \<le> length (filter (\<lambda>n. 0 < n) ns)"
  shows "map_option (\<lambda>(cn, s). (close_after_reply cn, freed cn, querybuf cn = [] \<or> close_after_reply cn, cn_client cn, s))
           (serve_socket E tm ns (createClient c) (wire reqs) s) =
         map_option (\<lambda>(closed, c, s). (closed, False, True, c, s)) (run_requests E tm reqs (c\<lparr>cl_argv := []\<rparr>) s)"
  using assms by (rule socket_run)

text \<open>(C7) From the bytes of a client to the bytes of the log.  Whatever way the bytes of \<^verbatim>\<open>SET\<close>, \<^verbatim>\<open>GET\<close> and \<^verbatim>\<open>INCR\<close>
  requests arrive in, the client gets the replies of the abstract key-value server, the key space becomes that of
  the abstract server, and the append only file grows by records whose replay turns the old key-value
  state into the new one.\<close>

theorem bytes_to_log:
  assumes "list_all2 words sent reqs" and "normal s" and "db_dict (sv_redis s) = map_option encoded \<circ> kv"
    and "counts32 reqs (db_dict (sv_redis s))" and "\<not> cl_fake c"
    and "length (wire sent) \<le> length (filter (\<lambda>n. 0 < n) ns)"
  shows "\<exists>cn s' lg. serve_socket E tm ns (createClient c) (wire sent) s = Some (cn, s') \<and>
           cl_reply (cn_client cn) = cl_reply c @ fst (serve reqs (db_dict (sv_redis s))) \<and>
           db_dict (sv_redis s') = snd (serve reqs (db_dict (sv_redis s))) \<and>
           sv_aof_buf (sv_redis s') = sv_aof_buf (sv_redis s) @ concat (map aof_record lg) \<and>
           db_dict (sv_redis s') = map_option encoded \<circ> fold kv_step lg kv"
proof -
  obtain c' s' lg where run: "run_requests E tm sent (c\<lparr>cl_argv := []\<rparr>) s = Some (False, c', s')"
      "cl_reply c' = cl_reply c @ fst (serve reqs (db_dict (sv_redis s)))"
      "db_dict (sv_redis s') = snd (serve reqs (db_dict (sv_redis s)))"
      "sv_aof_buf (sv_redis s') = sv_aof_buf (sv_redis s) @ concat (map aof_record lg)"
      "db_dict (sv_redis s') = map_option encoded \<circ> fold kv_step lg kv"
    using run_requests_log [OF assms(1-4), of "c\<lparr>cl_argv := []\<rparr>" E tm] assms(5) by auto
  have "\<forall>ss \<in> set sent. sized_request ss"
    using assms(1) words_sized by (metis in_set_conv_nth list_all2_conv_all_nth)
  then obtain cn where "serve_socket E tm ns (createClient c) (wire sent) s = Some (cn, s')" "cn_client cn = c'"
    using socket_run [OF _ assms(6), of E tm c s] run(1) by auto
  then show ?thesis
    using run(2-5) by blast
qed

text \<open>Two requests, and reads of one byte with spurious calls in between.\<close>

definition test_words :: "string list list" where
  "test_words = [[''set'', ''k'', ''7''], [''INCR'', ''k'']]"

definition test_reads :: "nat list" where
  "test_reads = concat (replicate 60 [0, 1])"

lemma test_words_wire: "list_all2 words test_words [Rset ''k'' ''7'', Rincr ''k'']"
    "length (wire test_words) \<le> length (filter (\<lambda>n. 0 < n) test_reads)"
proof -
  show "list_all2 words test_words [Rset ''k'' ''7'', Rincr ''k'']"
    by (simp add: test_words_def words_def) (simp add: c_tolower_def char_of_def bit_0)
  have "length (wire test_words) = 48" "filter (\<lambda>n. 0 < n) test_reads = replicate 60 1"
    by (simp_all add: test_words_def wire_def aof_record_def header_line_def bulk_def test_reads_def numeral_eq_Suc)
  then show "length (wire test_words) \<le> length (filter (\<lambda>n. 0 < n) test_reads)"
    by simp
qed

theorem requests_executed_witness:
  "list_all sized_request test_words \<and> length (wire test_words) \<le> length (filter (\<lambda>n. 0 < n) test_reads) \<and>
   map_option (\<lambda>(cn, s). (close_after_reply cn, freed cn, querybuf cn = [] \<or> close_after_reply cn, cn_client cn, s))
     (serve_socket test_env (0, 0, 0) test_reads (createClient (test_client GetCommand [])) (wire test_words) test_server) =
   map_option (\<lambda>(closed, c, s). (closed, False, True, c, s))
     (run_requests test_env (0, 0, 0) test_words ((test_client GetCommand [])\<lparr>cl_argv := []\<rparr>) test_server)"
proof -
  have "\<forall>ss \<in> set test_words. sized_request ss"
    using test_words_wire(1) words_sized by (metis in_set_conv_nth list_all2_conv_all_nth)
  then show ?thesis
    using requests_executed [OF _ test_words_wire(2)] test_words_wire(2) by (simp only: list_all_iff) blast
qed

theorem bytes_to_log_witness:
  "\<exists>cn s' lg. serve_socket test_env (0, 0, 0) test_reads (createClient (test_client GetCommand [])) (wire test_words) test_server = Some (cn, s') \<and>
     cl_reply (cn_client cn) = [R_ok, R_longlong 8] \<and> db_dict (sv_redis s') = [''k'' \<mapsto> IntEnc 8] \<and>
     sv_aof_buf (sv_redis s') = concat (map aof_record lg) \<and> db_dict (sv_redis s') = map_option encoded \<circ> fold kv_step lg (\<lambda>_. None)"
proof -
  have d: "db_dict (sv_redis test_server) = map_option encoded \<circ> (\<lambda>_. None)" "sv_aof_buf (sv_redis test_server) = []"
    by (simp_all add: test_redis_def fun_eq_iff)
  have "req_effect (Rincr ''k'') [''k'' \<mapsto> encoded ''7''] = (R_longlong 8, [''k'' \<mapsto> IntEnc 8])"
    using string2ll_7 by (simp add: int_value_def in_int64_def)
  then have serve: "serve [Rset ''k'' ''7'', Rincr ''k''] (\<lambda>_. None) = ([R_ok, R_longlong 8], [''k'' \<mapsto> IntEnc 8])"
      "counts32 [Rset ''k'' ''7'', Rincr ''k''] (\<lambda>_. None)"
    by (simp_all add: in_int32_def)
  then show ?thesis
    using bytes_to_log [OF test_words_wire(1) test_fresh(2) d(1) _ _ test_words_wire(2), of "test_client GetCommand []" test_env "(0, 0, 0)"] d
    by (simp add: comp_def test_client_def)
qed

end
